(* ===== verification/Inkwell_Prelude.thy ===== *)
theory Inkwell_Prelude
  imports Main "HOL-Library.Word" "HOL-Library.Monad_Syntax"
begin

unbundle bit_operations_syntax

text \<open>
  What every component of the development shares.

  \<^item> The machine integers of the C sources (\<open>u8\<close>, \<open>u16\<close>, \<open>u32\<close>, \<open>u64\<close>) and byte buffers as
    lists; \<open>asc\<close> and \<open>ascii\<close> give a C character constant and a C string literal as bytes.
  \<^item> The errno values the sources name (negated in C) as a datatype, \<open>EOTHER n\<close> for any other number, \<open>n + 1\<close>. A C
    function that answers a count or a negated errno answers in \<open>errno + nat\<close> here.
  \<^item> \<open>byte_at\<close>, a read at an offset that is \<open>None\<close> when the offset is outside the buffer, so that
    a parser that reads by offset shows an out-of-range read in its result.
  \<^item> Little- and big-endian assembly of integers, read as numbers.
  \<^item> Facts on prefixes, on bytes as numbers and on maximal runs that several components use.
\<close>

section \<open>Types\<close>

type_synonym u8 = "8 word"
type_synonym u16 = "16 word"
type_synonym u32 = "32 word"
type_synonym u64 = "64 word"
type_synonym bytes = "u8 list"

datatype errno = EINVAL | EBADMSG | ENOSPC | ENOBUFS | EEXIST | ENOENT | EINTR | EIO | EBADF
  | ENOTSUP | EILSEQ | EAGAIN | EPIPE | EMSGSIZE | ENOTCONN | ENOMEM | EBUSY | ENOSYS | ECONNREFUSED
  | ECONNRESET | ETIMEDOUT | EHOSTUNREACH | ENETUNREACH | EINPROGRESS | ENOPROTOOPT | EOPNOTSUPP | EACCES
  | EPROTO | ENAMETOOLONG | ECONNABORTED | EOTHER nat

abbreviation asc :: "char \<Rightarrow> u8" where
  "asc c \<equiv> of_char c"

abbreviation ascii :: "string \<Rightarrow> bytes" where
  "ascii s \<equiv> map of_char s"

text \<open>The control characters the sources write as escapes.\<close>

abbreviation (input) NUL :: u8 where "NUL \<equiv> 0x00"
abbreviation (input) TAB :: u8 where "TAB \<equiv> 0x09"
abbreviation (input) LF :: u8 where "LF \<equiv> 0x0A"
abbreviation (input) CR :: u8 where "CR \<equiv> 0x0D"
abbreviation (input) SPC :: u8 where "SPC \<equiv> 0x20"

text \<open>\<open>isspace\<close> in the C locale.\<close>

definition isspace :: "u8 \<Rightarrow> bool" where
  "isspace c \<longleftrightarrow> c = SPC \<or> (0x09 \<le> c \<and> c \<le> 0x0D)"

named_theorems byte_nat "bytes and words as natural numbers"

lemmas [byte_nat] = word_le_nat_alt word_less_nat_alt

section \<open>Reads at an offset\<close>

definition byte_at :: "bytes \<Rightarrow> nat \<Rightarrow> u8 option" where
  "byte_at b i = (if i < length b then Some (b ! i) else None)"

lemma byte_at_Some [simp]: "i < length b \<Longrightarrow> byte_at b i = Some (b ! i)"
  by (simp add: byte_at_def)

lemma byte_at_None [simp]: "length b \<le> i \<Longrightarrow> byte_at b i = None"
  by (simp add: byte_at_def)

lemma byte_at_eq_Some_iff: "byte_at b i = Some x \<longleftrightarrow> i < length b \<and> b ! i = x"
  by (auto simp: byte_at_def)

lemma byte_at_append: "byte_at (xs @ ys) i = (if i < length xs then byte_at xs i else byte_at ys (i - length xs))"
  by (auto simp: byte_at_def nth_append)

section \<open>Bit operations as arithmetic\<close>

lemma nat_push_or: "a < 2 ^ n \<Longrightarrow> a OR push_bit n b = a + b * (2 ^ n :: nat)"
proof -
  assume "a < 2 ^ n"
  then have "take_bit n a = a" by (simp add: take_bit_nat_eq_self)
  then have "\<not> bit a k" if "n \<le> k" for k
    using that bit_take_bit_iff [of n a k] by simp
  then have "a AND push_bit n b = 0"
    by (intro bit_eqI) (auto simp: bit_and_iff bit_push_bit_iff)
  then have "a + push_bit n b = a OR push_bit n b" by (rule disjunctive_add_eq_or)
  then show ?thesis by (simp add: push_bit_eq_mult)
qed

lemma nat_or_push: "a < 2 ^ n \<Longrightarrow> push_bit n b OR a = b * (2 ^ n :: nat) + a"
  using nat_push_or [of a n b] by (simp add: or.commute add.commute)

lemma unat_and_mask: "unat (x AND mask n :: 'a::len word) = unat x mod 2 ^ n"
  unfolding take_bit_eq_mask [symmetric] unsigned_take_bit_eq by (rule take_bit_eq_mod)

lemma unat_and_low [byte_nat]:
  "unat (x AND 0x3F :: u8) = unat x mod 64" "unat (x AND 0x1F :: u8) = unat x mod 32"
  "unat (x AND 0x0F :: u8) = unat x mod 16" "unat (x AND 0x07 :: u8) = unat x mod 8"
  "unat (x AND 0x7F :: u8) = unat x mod 128"
  using unat_and_mask [of x 6] unat_and_mask [of x 5] unat_and_mask [of x 4]
    unat_and_mask [of x 3] unat_and_mask [of x 7]
  by (simp_all add: mask_eq_exp_minus_1)

lemma unat_u8_lt [simp]: "unat (x :: u8) < 256"
  using unsigned_less [of x] by simp

lemma unat_u8_le: "unat (x :: u8) \<le> 255"
  using unat_u8_lt [of x] by linarith

lemma unat_u16_lt [simp]: "unat (x :: u16) < 65536"
  using unsigned_less [of x] by simp

lemma unat_u32_lt [simp]: "unat (x :: u32) < 4294967296"
  using unsigned_less [of x] by simp

lemma of_nat_unat_u8 [simp]: "(of_nat (unat (x :: u8)) :: u8) = x"
  by simp

section \<open>Integers off the wire\<close>

definition le16 :: "u8 \<Rightarrow> u8 \<Rightarrow> u16" where
  "le16 b0 b1 = ucast b0 OR push_bit 8 (ucast b1)"

definition le32 :: "u8 \<Rightarrow> u8 \<Rightarrow> u8 \<Rightarrow> u8 \<Rightarrow> u32" where
  "le32 b0 b1 b2 b3 = ucast b0 OR push_bit 8 (ucast b1) OR push_bit 16 (ucast b2) OR push_bit 24 (ucast b3)"

lemma unat_push_ucast:
  assumes "n + 8 \<le> LENGTH('b)"
  shows "unat (push_bit n (ucast (x :: u8) :: 'b::len word)) = push_bit n (unat x)"
proof -
  have "unat x * 2 ^ n < 2 ^ (n + 8)"
    using unat_u8_lt [of x] by (simp add: power_add)
  also have "\<dots> \<le> 2 ^ LENGTH('b)" using assms by (simp add: power_increasing)
  finally have "unat x * 2 ^ n < 2 ^ LENGTH('b)" .
  moreover have "unat x < 2 ^ LENGTH('b)"
    using less_le_trans [OF unat_u8_lt [of x]] assms power_increasing [of 8 "LENGTH('b)" "2::nat"] by simp
  ultimately show ?thesis
    unfolding unsigned_push_bit_eq unsigned_ucast_eq
    by (simp only: push_bit_eq_mult take_bit_nat_eq_self)
qed

lemma unat_push_or:
  fixes q w :: "'a::len word"
  assumes "unat q * 2 ^ n < 2 ^ LENGTH('a)" "unat w < 2 ^ n"
  shows "unat (push_bit n q OR w) = unat q * 2 ^ n + unat w"
proof -
  have "unat (push_bit n q) = push_bit n (unat q)"
    unfolding unsigned_push_bit_eq using assms(1) by (simp only: push_bit_eq_mult take_bit_nat_eq_self)
  then show ?thesis using nat_or_push [OF assms(2), of "unat q"] by (simp only: unsigned_or_eq)
qed

lemma unat_ucast_u8: "8 \<le> LENGTH('b) \<Longrightarrow> unat (ucast (x :: u8) :: 'b::len word) = unat x"
  using unat_push_ucast [of 0, where 'b = 'b] by simp

lemma unat_le16 [byte_nat]: "unat (le16 b0 b1) = unat b0 + 256 * unat b1"
proof -
  have "unat (push_bit 8 (ucast b1) :: u16) = push_bit 8 (unat b1)"
    by (rule unat_push_ucast) simp
  moreover have "unat (ucast b0 :: u16) = unat b0" by (rule unat_ucast_u8) simp
  moreover have "unat b0 OR push_bit 8 (unat b1) = unat b0 + unat b1 * 2 ^ 8"
    by (rule nat_push_or) simp
  ultimately show ?thesis unfolding le16_def unsigned_or_eq by simp
qed

lemma unat_le32 [byte_nat]:
  "unat (le32 b0 b1 b2 b3) = unat b0 + 256 * unat b1 + 65536 * unat b2 + 16777216 * unat b3"
proof -
  note lt = unat_u8_lt [of b0] unat_u8_lt [of b1] unat_u8_lt [of b2] unat_u8_lt [of b3]
  have "unat (le32 b0 b1 b2 b3)
      = ((unat b0 OR push_bit 8 (unat b1)) OR push_bit 16 (unat b2)) OR push_bit 24 (unat b3)"
  proof -
    have "unat (push_bit 8 (ucast b1) :: u32) = push_bit 8 (unat b1)"
      "unat (push_bit 16 (ucast b2) :: u32) = push_bit 16 (unat b2)"
      "unat (push_bit 24 (ucast b3) :: u32) = push_bit 24 (unat b3)"
      "unat (ucast b0 :: u32) = unat b0"
      by (rule unat_push_ucast unat_ucast_u8, simp)+
    then show ?thesis unfolding le32_def unsigned_or_eq by (simp only: or.assoc)
  qed
  also have "unat b0 OR push_bit 8 (unat b1) = unat b0 + unat b1 * 256"
    using nat_push_or [of "unat b0" 8 "unat b1"] lt by simp
  also have "\<dots> OR push_bit 16 (unat b2) = unat b0 + unat b1 * 256 + unat b2 * 65536"
    using nat_push_or [of "unat b0 + unat b1 * 256" 16 "unat b2"] lt by simp
  also have "\<dots> OR push_bit 24 (unat b3) = unat b0 + unat b1 * 256 + unat b2 * 65536 + unat b3 * 16777216"
    using nat_push_or [of "unat b0 + unat b1 * 256 + unat b2 * 65536" 24 "unat b3"] lt by simp
  finally show ?thesis by simp
qed

text \<open>The little-endian bytes of a word, and that reading them back gives the word.\<close>

definition le32_bytes :: "u32 \<Rightarrow> bytes" where
  "le32_bytes v = [ucast v, ucast (drop_bit 8 v), ucast (drop_bit 16 v), ucast (drop_bit 24 v)]"

lemma length_le32_bytes [simp]: "length (le32_bytes v) = 4"
  by (simp add: le32_bytes_def)

lemma unat_drop_bit [byte_nat]: "unat (drop_bit n (v :: 'a::len word)) = unat v div 2 ^ n"
  unfolding unat_drop_bit_eq by (rule drop_bit_eq_div)

lemma unat_ucast_drop [byte_nat]:
  "unat (ucast (drop_bit n (v :: 'a::len word)) :: u8) = unat v div 2 ^ n mod 256"
  unfolding unsigned_ucast_eq unsigned_drop_bit_eq by (simp add: take_bit_eq_mod drop_bit_eq_div)

lemma base256_split: "v mod 256 + 256 * (v div 256 mod 256) + 65536 * (v div 65536 mod 256)
    + 16777216 * (v div 16777216) = (v :: nat)"
proof -
  have "v div 65536 = v div 256 div 256" "v div 16777216 = v div 65536 div 256"
    by (simp_all add: div_mult2_eq [symmetric])
  then show ?thesis
    using div_mult_mod_eq [of v 256] div_mult_mod_eq [of "v div 256" 256] div_mult_mod_eq [of "v div 65536" 256]
    by linarith
qed

lemma le32_of_bytes: "le32 (ucast v) (ucast (drop_bit 8 v)) (ucast (drop_bit 16 v)) (ucast (drop_bit 24 v)) = v"
proof (rule word_unat_eq_iff [THEN iffD2])
  have v0: "unat (ucast v :: u8) = unat v mod 256"
    using unat_ucast_drop [of 0 v] by simp
  show "unat (le32 (ucast v) (ucast (drop_bit 8 v)) (ucast (drop_bit 16 v)) (ucast (drop_bit 24 v))) = unat v"
  proof -
    have "unat v div 16777216 < 256" using unat_u32_lt [of v] by (simp add: less_mult_imp_div_less)
    then have "unat v div 16777216 mod 256 = unat v div 16777216" by simp
    then show ?thesis
      unfolding unat_le32 unat_ucast_drop v0 using base256_split [of "unat v"] by simp
  qed
qed

section \<open>Copies into a buffer\<close>

text \<open>\<open>memcpy (b + pos, data, n)\<close> into a buffer of fixed size.\<close>

definition mem_write :: "bytes \<Rightarrow> nat \<Rightarrow> bytes \<Rightarrow> bytes" where
  "mem_write b pos data = take pos b @ data @ drop (pos + length data) b"

lemma length_mem_write [simp]: "pos + length data \<le> length b \<Longrightarrow> length (mem_write b pos data) = length b"
  by (simp add: mem_write_def)

lemma take_mem_write: "pos \<le> length b \<Longrightarrow> take (pos + length data) (mem_write b pos data) = take pos b @ data"
  by (simp add: mem_write_def)

section \<open>Lists\<close>

text \<open>\<open>strcspn\<close> and its kin: the length of the longest prefix whose elements satisfy a predicate.\<close>

definition run_len :: "('a \<Rightarrow> bool) \<Rightarrow> 'a list \<Rightarrow> nat" where
  "run_len P xs = length (takeWhile P xs)"

lemma run_len_Nil [simp]: "run_len P [] = 0"
  by (simp add: run_len_def)

lemma run_len_Cons [simp]: "run_len P (x # xs) = (if P x then Suc (run_len P xs) else 0)"
  by (simp add: run_len_def)

lemma run_len_le: "run_len P xs \<le> length xs"
  by (simp add: run_len_def length_takeWhile_le)

lemma run_len_append:
  "list_all P xs \<Longrightarrow> ys = [] \<or> \<not> P (hd ys) \<Longrightarrow> run_len P (xs @ ys) = length xs"
proof (induction xs)
  case Nil
  then show ?case by (cases ys) auto
qed auto

lemma take_run_len: "take (run_len P xs) xs = takeWhile P xs"
  by (simp add: run_len_def takeWhile_eq_take [symmetric])

lemma drop_run_len: "drop (run_len P xs) xs = dropWhile P xs"
  by (simp add: run_len_def dropWhile_eq_drop [symmetric])

end
