(* ===== verification/Text.thy ===== *)
theory Text
  imports Inkwell_Prelude
begin

text \<open>
  UTF-8 text off the wire (\<open>src/base/text.c\<close>): the length of a well-formed sequence, the decoder
  that walks a string a character at a time, counting and truncating by characters, the sanitiser
  and the bounded copy. A C string is the list of its bytes; the end of the list and a NUL both end
  it. The reference is RFC 3629: \<open>utf8_encode\<close> is the encoding of a Unicode scalar value, and the
  lemmas relate the byte tests of the source to it.
\<close>

section \<open>Model\<close>

text \<open>The length a lead byte promises and the range its second byte must be in.\<close>

definition utf8_lead :: "u8 \<Rightarrow> (nat \<times> u8 \<times> u8) option" where
  "utf8_lead lead =
     (if lead \<ge> 0xC2 \<and> lead \<le> 0xDF then Some (2, 0x80, 0xBF)
      else if lead = 0xE0 then Some (3, 0xA0, 0xBF)
      else if lead = 0xED then Some (3, 0x80, 0x9F)
      else if (lead \<ge> 0xE1 \<and> lead \<le> 0xEC) \<or> lead = 0xEE \<or> lead = 0xEF then Some (3, 0x80, 0xBF)
      else if lead = 0xF0 then Some (4, 0x90, 0xBF)
      else if lead \<ge> 0xF1 \<and> lead \<le> 0xF3 then Some (4, 0x80, 0xBF)
      else if lead = 0xF4 then Some (4, 0x80, 0x8F)
      else None)"

definition inkwell_text_utf8_sequence_len :: "bytes \<Rightarrow> nat" where
  "inkwell_text_utf8_sequence_len bytes =
     (case bytes of [] \<Rightarrow> 0
      | lead # _ \<Rightarrow>
          if lead < 0x80 then 1
          else (case utf8_lead lead of None \<Rightarrow> 0
                | Some (len, second_min, second_max) \<Rightarrow>
                    if length bytes < len then 0
                    else if bytes ! 1 < second_min \<or> bytes ! 1 > second_max then 0
                    else if list_ex (\<lambda>b. b < 0x80 \<or> b > 0xBF) (take (len - 2) (drop 2 bytes)) then 0
                    else len))"

definition utf8_value :: "bytes \<Rightarrow> nat \<Rightarrow> u32" where
  "utf8_value bytes len =
     (if len = 1 then ucast (bytes ! 0)
      else if len = 2 then push_bit 6 (ucast (bytes ! 0 AND 0x1F)) OR ucast (bytes ! 1 AND 0x3F)
      else if len = 3 then push_bit 12 (ucast (bytes ! 0 AND 0x0F)) OR push_bit 6 (ucast (bytes ! 1 AND 0x3F))
             OR ucast (bytes ! 2 AND 0x3F)
      else push_bit 18 (ucast (bytes ! 0 AND 0x07)) OR push_bit 12 (ucast (bytes ! 1 AND 0x3F))
             OR push_bit 6 (ucast (bytes ! 2 AND 0x3F)) OR ucast (bytes ! 3 AND 0x3F))"

text \<open>The bytes used and the code point; \<open>0xFFFD\<close> for a byte that starts no sequence.\<close>

definition inkwell_text_utf8_next :: "bytes \<Rightarrow> nat \<times> u32" where
  "inkwell_text_utf8_next text =
     (if text = [] \<or> hd text = NUL then (0, 0)
      else let available = takeWhile (\<lambda>b. b \<noteq> NUL) (take 4 text);
               len = inkwell_text_utf8_sequence_len available
           in if len = 0 then (1, 0xFFFD) else (len, utf8_value available len))"

lemma utf8_next_zero_iff: "fst (inkwell_text_utf8_next text) = 0 \<longleftrightarrow> text = [] \<or> hd text = NUL"
  by (auto simp: inkwell_text_utf8_next_def Let_def)

text \<open>The loop of \<open>inkwell_text_utf8_length\<close>: one character per turn, until the step is 0.\<close>

function inkwell_text_utf8_length :: "bytes \<Rightarrow> nat" where
  "inkwell_text_utf8_length text =
     (let step = fst (inkwell_text_utf8_next text)
      in if step = 0 then 0 else Suc (inkwell_text_utf8_length (drop step text)))"
  by pat_completeness auto
termination
proof (relation "measure length", simp)
  fix t :: bytes and step
  assume "step = fst (inkwell_text_utf8_next t)" "step \<noteq> 0"
  then have "t \<noteq> []" "0 < step" using utf8_next_zero_iff [of t] by auto
  then show "(drop step t, t) \<in> measure length" by (cases t) auto
qed

fun inkwell_text_utf8_offset :: "bytes \<Rightarrow> nat \<Rightarrow> nat" where
  "inkwell_text_utf8_offset text 0 = 0"
| "inkwell_text_utf8_offset text (Suc index) =
     (let step = fst (inkwell_text_utf8_next text)
      in if step = 0 then 0 else step + inkwell_text_utf8_offset (drop step text) index)"

definition inkwell_text_utf8_truncate :: "bytes \<Rightarrow> nat \<Rightarrow> bytes" where
  "inkwell_text_utf8_truncate text max_chars = take (inkwell_text_utf8_offset text max_chars) text"

definition sanitise_ascii :: "u8 \<Rightarrow> u8" where
  "sanitise_ascii byte =
     (if byte = TAB \<or> byte = LF \<or> byte = CR then SPC
      else if byte < 0x20 \<or> byte = 0x7F then asc (CHR ''?'')
      else byte)"

function sanitise_loop :: "nat \<Rightarrow> bytes \<Rightarrow> bytes \<Rightarrow> bytes" where
  "sanitise_loop out_len out payload =
     (case payload of [] \<Rightarrow> out
      | byte # rest \<Rightarrow>
          if byte = NUL then out
          else if byte < 0x80 then
            if length out + 1 > out_len - 1 then out
            else sanitise_loop out_len (out @ [sanitise_ascii byte]) rest
          else
            let sequence = inkwell_text_utf8_sequence_len payload in
            if sequence = 0 then
              if length out + 1 > out_len - 1 then out
              else sanitise_loop out_len (out @ [asc (CHR ''?'')]) rest
            else if length out + sequence > out_len - 1 then out
            else sanitise_loop out_len (out @ take sequence payload) (drop sequence payload))"
  by pat_completeness auto
termination
  by (relation "measure (\<lambda>(_, _, payload). length payload)") auto

text \<open>
  \<open>None\<close> for a buffer of no bytes, which is left alone; otherwise the text written before the
  terminating NUL. \<open>payload = None\<close> is a NULL source.
\<close>

definition inkwell_text_sanitise :: "bytes option \<Rightarrow> nat \<Rightarrow> bytes option" where
  "inkwell_text_sanitise payload out_len =
     (if out_len = 0 then None
      else case payload of None \<Rightarrow> Some [] | Some p \<Rightarrow> Some (sanitise_loop out_len [] p))"

definition inkwell_text_sanitise_str :: "bytes option \<Rightarrow> nat \<Rightarrow> bytes option" where
  "inkwell_text_sanitise_str in_text out_len =
     (if out_len = 0 then None
      else case in_text of None \<Rightarrow> Some []
           | Some s \<Rightarrow> inkwell_text_sanitise (Some (takeWhile (\<lambda>b. b \<noteq> NUL) s)) out_len)"

fun str_copy_loop :: "nat \<Rightarrow> bytes \<Rightarrow> bytes \<Rightarrow> bytes \<times> bytes" where
  "str_copy_loop out_len out [] = (out, [])"
| "str_copy_loop out_len out (c # rest) =
     (if length out + 1 < out_len \<and> c \<noteq> NUL then str_copy_loop out_len (out @ [c]) rest
      else (out, c # rest))"

text \<open>Whether the whole source fitted, and the text written (\<open>None\<close>: nothing, not even a NUL).\<close>

definition inkwell_str_copy :: "nat \<Rightarrow> bytes option \<Rightarrow> bool \<times> bytes option" where
  "inkwell_str_copy out_len in_text =
     (if out_len = 0 then (False, None)
      else case in_text of None \<Rightarrow> (True, Some [])
           | Some s \<Rightarrow> (let (out, rest) = str_copy_loop out_len [] s
                        in (rest = [] \<or> hd rest = NUL, Some out)))"

declare inkwell_text_utf8_length.simps [simp del] sanitise_loop.simps [simp del]

section \<open>The encoding of RFC 3629\<close>

definition scalar :: "nat \<Rightarrow> bool" where
  "scalar cp \<longleftrightarrow> cp \<le> 0x10FFFF \<and> \<not> (0xD800 \<le> cp \<and> cp \<le> 0xDFFF)"

definition utf8_encode :: "nat \<Rightarrow> bytes" where
  "utf8_encode cp =
     (if cp < 0x80 then [of_nat cp]
      else if cp < 0x800 then [of_nat (0xC0 + cp div 64), of_nat (0x80 + cp mod 64)]
      else if cp < 0x10000 then
        [of_nat (0xE0 + cp div 4096), of_nat (0x80 + cp div 64 mod 64), of_nat (0x80 + cp mod 64)]
      else [of_nat (0xF0 + cp div 262144), of_nat (0x80 + cp div 4096 mod 64),
            of_nat (0x80 + cp div 64 mod 64), of_nat (0x80 + cp mod 64)])"

lemma length_utf8_encode:
  "length (utf8_encode cp) = (if cp < 0x80 then 1 else if cp < 0x800 then 2 else if cp < 0x10000 then 3 else 4)"
  by (simp add: utf8_encode_def)

lemma utf8_encode_not_Nil [simp]: "utf8_encode cp \<noteq> []"
  by (simp add: utf8_encode_def)

lemma unat_of_nat_u8: "n < 256 \<Longrightarrow> unat (of_nat n :: u8) = n"
  by (simp add: unat_of_nat)

text \<open>The byte tests of the source, as ranges of numbers.\<close>

lemma utf8_lead_unat:
  "utf8_lead a =
     (let n = unat a
      in if 194 \<le> n \<and> n \<le> 223 then Some (2, 0x80, 0xBF)
         else if n = 224 then Some (3, 0xA0, 0xBF)
         else if n = 237 then Some (3, 0x80, 0x9F)
         else if 225 \<le> n \<and> n \<le> 239 then Some (3, 0x80, 0xBF)
         else if n = 240 then Some (4, 0x90, 0xBF)
         else if 241 \<le> n \<and> n \<le> 243 then Some (4, 0x80, 0xBF)
         else if n = 244 then Some (4, 0x80, 0x8F) else None)"
  by (auto simp: utf8_lead_def Let_def byte_nat word_unat_eq_iff)

definition cont :: "u8 \<Rightarrow> bool" where
  "cont b \<longleftrightarrow> 128 \<le> unat b \<and> unat b \<le> 191"

lemma cont_iff: "(b < 0x80 \<or> b > (0xBF :: u8)) \<longleftrightarrow> \<not> cont b"
  by (auto simp: byte_nat cont_def)

definition well_formed2 :: "u8 \<Rightarrow> u8 \<Rightarrow> bool" where
  "well_formed2 a b \<longleftrightarrow> 194 \<le> unat a \<and> unat a \<le> 223 \<and> cont b"

definition well_formed3 :: "u8 \<Rightarrow> u8 \<Rightarrow> u8 \<Rightarrow> bool" where
  "well_formed3 a b c \<longleftrightarrow> 224 \<le> unat a \<and> unat a \<le> 239 \<and> cont b \<and> cont c
     \<and> (unat a = 224 \<longrightarrow> 160 \<le> unat b) \<and> (unat a = 237 \<longrightarrow> unat b \<le> 159)"

definition well_formed4 :: "u8 \<Rightarrow> u8 \<Rightarrow> u8 \<Rightarrow> u8 \<Rightarrow> bool" where
  "well_formed4 a b c d \<longleftrightarrow> 240 \<le> unat a \<and> unat a \<le> 244 \<and> cont b \<and> cont c \<and> cont d
     \<and> (unat a = 240 \<longrightarrow> 144 \<le> unat b) \<and> (unat a = 244 \<longrightarrow> unat b \<le> 143)"

lemma list_split4:
  "bs = [] \<or> (\<exists>a. bs = [a]) \<or> (\<exists>a b. bs = [a, b]) \<or> (\<exists>a b c. bs = [a, b, c]) \<or> (\<exists>a b c d r. bs = a # b # c # d # r)"
  by (metis list.exhaust)

lemma sequence_len_cases:
  "inkwell_text_utf8_sequence_len [] = 0"
  "unat a < 128 \<Longrightarrow> inkwell_text_utf8_sequence_len (a # r) = 1"
  "128 \<le> unat a \<Longrightarrow> inkwell_text_utf8_sequence_len [a] = 0"
  "128 \<le> unat a \<Longrightarrow> inkwell_text_utf8_sequence_len [a, b] = (if well_formed2 a b then 2 else 0)"
  "128 \<le> unat a \<Longrightarrow> inkwell_text_utf8_sequence_len [a, b, c] =
     (if well_formed2 a b then 2 else if well_formed3 a b c then 3 else 0)"
  "128 \<le> unat a \<Longrightarrow> inkwell_text_utf8_sequence_len (a # b # c # d # r) =
     (if well_formed2 a b then 2 else if well_formed3 a b c then 3 else if well_formed4 a b c d then 4 else 0)"
  by (auto simp: inkwell_text_utf8_sequence_len_def utf8_lead_unat Let_def byte_nat cont_def
      well_formed2_def well_formed3_def well_formed4_def)

text \<open>Every encoding is one of these shapes.\<close>

lemma encode1: "cp < 128 \<Longrightarrow> \<exists>a. utf8_encode cp = [a] \<and> unat a = cp"
  by (simp add: utf8_encode_def unat_of_nat)

lemma encode2:
  assumes "128 \<le> cp" "cp < 2048"
  shows "\<exists>a b. utf8_encode cp = [a, b] \<and> unat a = 192 + cp div 64 \<and> unat b = 128 + cp mod 64"
proof -
  have "unat (of_nat (192 + cp div 64) :: u8) = 192 + cp div 64" using assms by (intro unat_of_nat_u8) auto
  moreover have "unat (of_nat (128 + cp mod 64) :: u8) = 128 + cp mod 64"
    by (intro unat_of_nat_u8) (use mod_less_divisor [of 64 cp] in linarith)
  ultimately show ?thesis using assms unfolding utf8_encode_def by auto
qed

lemma encode3:
  assumes "2048 \<le> cp" "cp < 65536"
  shows "\<exists>a b c. utf8_encode cp = [a, b, c] \<and> unat a = 224 + cp div 4096 \<and>
    unat b = 128 + cp div 64 mod 64 \<and> unat c = 128 + cp mod 64"
proof -
  have "unat (of_nat (224 + cp div 4096) :: u8) = 224 + cp div 4096" using assms by (intro unat_of_nat_u8) auto
  moreover have "unat (of_nat (128 + k mod 64) :: u8) = 128 + k mod 64" for k
    by (intro unat_of_nat_u8) (use mod_less_divisor [of 64 k] in linarith)
  ultimately show ?thesis using assms unfolding utf8_encode_def by auto
qed

lemma encode4:
  assumes "65536 \<le> cp" "cp \<le> 0x10FFFF"
  shows "\<exists>a b c d. utf8_encode cp = [a, b, c, d] \<and> unat a = 240 + cp div 262144 \<and>
    unat b = 128 + cp div 4096 mod 64 \<and> unat c = 128 + cp div 64 mod 64 \<and> unat d = 128 + cp mod 64"
proof -
  have "unat (of_nat (240 + cp div 262144) :: u8) = 240 + cp div 262144" using assms by (intro unat_of_nat_u8) auto
  moreover have "unat (of_nat (128 + k mod 64) :: u8) = 128 + k mod 64" for k
    by (intro unat_of_nat_u8) (use mod_less_divisor [of 64 k] in linarith)
  ultimately show ?thesis using assms unfolding utf8_encode_def by auto
qed

lemma cont_mod: "unat b = 128 + k mod 64 \<Longrightarrow> cont b"
  using mod_less_divisor [of 64 k] unfolding cont_def by linarith

text \<open>Every encoding of a scalar value is accepted, at its own length, whatever follows it.\<close>

lemma well_formed3_encode:
  assumes "scalar cp" "2048 \<le> cp" "cp < 65536" "unat a = 224 + cp div 4096"
    "unat b = 128 + cp div 64 mod 64" "unat c = 128 + cp mod 64"
  shows "well_formed3 a b c"
proof -
  have "cp div 4096 = 0 \<Longrightarrow> 32 \<le> cp div 64 mod 64" using assms by auto
  moreover have "cp div 64 = 64 * (cp div 4096) + cp div 64 mod 64"
    using div_mult_mod_eq [of "cp div 64" 64] by (simp add: div_mult2_eq [symmetric])
  then have "cp div 4096 = 13 \<Longrightarrow> cp div 64 mod 64 \<le> 31"
    using assms unfolding scalar_def by linarith
  moreover have "cp div 4096 \<le> 15" using assms by auto
  ultimately show ?thesis
    using assms cont_mod [of b "cp div 64"] cont_mod [of c cp] unfolding well_formed3_def by auto
qed

lemma well_formed4_encode:
  assumes "65536 \<le> cp" "cp \<le> 0x10FFFF" "unat a = 240 + cp div 262144"
    "unat b = 128 + cp div 4096 mod 64" "unat c = 128 + cp div 64 mod 64" "unat d = 128 + cp mod 64"
  shows "well_formed4 a b c d"
proof -
  have "cp div 4096 = 64 * (cp div 262144) + cp div 4096 mod 64"
    using div_mult_mod_eq [of "cp div 4096" 64] by (simp add: div_mult2_eq [symmetric])
  then have "cp div 262144 = 0 \<Longrightarrow> 16 \<le> cp div 4096 mod 64" "cp div 262144 = 4 \<Longrightarrow> cp div 4096 mod 64 \<le> 15"
    using assms by linarith+
  moreover have "cp div 262144 \<le> 4" using assms by auto
  ultimately show ?thesis
    using assms cont_mod [of b "cp div 4096"] cont_mod [of c "cp div 64"] cont_mod [of d cp]
    unfolding well_formed4_def by auto
qed

lemma sequence_len_encode:
  assumes "scalar cp"
  shows "inkwell_text_utf8_sequence_len (utf8_encode cp @ rest) = length (utf8_encode cp)"
proof -
  consider "cp < 128" | "128 \<le> cp" "cp < 2048" | "2048 \<le> cp" "cp < 65536" | "65536 \<le> cp"
    by linarith
  then show ?thesis
  proof cases
    case 1
    then show ?thesis using encode1 [OF 1] by (auto simp: sequence_len_cases)
  next
    case 2
    from encode2 [OF 2] obtain a b where ab: "utf8_encode cp = [a, b]" "unat a = 192 + cp div 64" "unat b = 128 + cp mod 64"
      by auto
    have "cp div 64 < 32" "2 \<le> cp div 64" using 2 by auto
    then have "well_formed2 a b" using ab cont_mod [of b cp] by (simp add: well_formed2_def)
    then show ?thesis using ab list_split4 [of rest] by (auto simp: sequence_len_cases)
  next
    case 3
    from encode3 [OF 3] obtain a b c where abc: "utf8_encode cp = [a, b, c]" "unat a = 224 + cp div 4096"
      "unat b = 128 + cp div 64 mod 64" "unat c = 128 + cp mod 64" by auto
    then have w: "well_formed3 a b c" by (intro well_formed3_encode [OF assms 3]) auto
    then have "\<not> well_formed2 a b" by (auto simp: well_formed2_def well_formed3_def)
    with w show ?thesis using abc by (cases rest) (auto simp: sequence_len_cases)
  next
    case 4
    have le: "cp \<le> 0x10FFFF" using assms by (simp add: scalar_def)
    from encode4 [OF 4 le] obtain a b c d where abcd: "utf8_encode cp = [a, b, c, d]" "unat a = 240 + cp div 262144"
      "unat b = 128 + cp div 4096 mod 64" "unat c = 128 + cp div 64 mod 64" "unat d = 128 + cp mod 64" by auto
    then have w: "well_formed4 a b c d" by (intro well_formed4_encode [OF 4 le]) auto
    then have "\<not> well_formed2 a b" "\<not> well_formed3 a b c"
      by (auto simp: well_formed2_def well_formed3_def well_formed4_def)
    with w show ?thesis using abcd by (simp add: sequence_len_cases)
  qed
qed

text \<open>And what is accepted is the encoding of a scalar value: the number its bits spell.\<close>

lemma base64_digit: "y < (64::nat) \<Longrightarrow> (x * 64 + y) div 64 = x" "y < (64::nat) \<Longrightarrow> (x * 64 + y) mod 64 = y"
  by simp_all

lemma digits_scalar3:
  assumes "x \<le> (15::nat)" "y < 64" "z < 64" "0 < x \<or> 32 \<le> y" "x < 13 \<or> 14 \<le> x \<or> y \<le> 31"
  defines "cp \<equiv> (x * 64 + y) * 64 + z"
  shows "2048 \<le> cp" "cp < 65536" "scalar cp"
proof -
  have e: "cp = 4096 * x + 64 * y + z" by (simp add: cp_def)
  show "2048 \<le> cp" using assms(4) unfolding e by linarith
  show lt: "cp < 65536" using assms(1-3) unfolding e by linarith
  have "\<not> (55296 \<le> cp \<and> cp \<le> 57343)" using assms(1-3,5) unfolding e by (cases "x \<le> 13") linarith+
  with lt show "scalar cp" unfolding scalar_def by linarith
qed

lemma digits_scalar4:
  assumes "x \<le> (4::nat)" "y < 64" "z < 64" "t < 64" "0 < x \<or> 16 \<le> y" "x < 4 \<or> y \<le> 15"
  defines "cp \<equiv> ((x * 64 + y) * 64 + z) * 64 + t"
  shows "65536 \<le> cp" "cp \<le> 0x10FFFF" "scalar cp"
proof -
  have e: "cp = 262144 * x + 4096 * y + 64 * z + t" by (simp add: cp_def)
  show ge: "65536 \<le> cp" using assms(5) unfolding e by linarith
  show le: "cp \<le> 0x10FFFF" using assms(1-4,6) unfolding e by linarith
  from ge le show "scalar cp" unfolding scalar_def by linarith
qed

lemma cont_digit: "cont b \<Longrightarrow> \<exists>y<64. unat b = 128 + y"
  unfolding cont_def by (intro exI [of _ "unat b - 128"]) linarith

lemma well_formed2_decode: "well_formed2 a b \<Longrightarrow> \<exists>cp. scalar cp \<and> utf8_encode cp = [a, b]"
proof -
  assume w: "well_formed2 a b"
  then obtain y where y: "y < 64" "unat b = 128 + y" using cont_digit by (auto simp: well_formed2_def)
  define x where "x = unat a - 192"
  define cp where "cp = x * 64 + y"
  have x: "unat a = 192 + x" "2 \<le> x" "x \<le> 31" using w unfolding well_formed2_def x_def by linarith+
  have "cp div 64 = x" "cp mod 64 = y" using y by (simp_all add: cp_def)
  moreover have "128 \<le> cp" "cp < 2048" using x y unfolding cp_def by linarith+
  ultimately show ?thesis using x y encode2 [of cp]
    by (intro exI [of _ cp]) (auto simp: scalar_def word_unat_eq_iff)
qed

lemma well_formed3_decode: "well_formed3 a b c \<Longrightarrow> \<exists>cp. scalar cp \<and> utf8_encode cp = [a, b, c]"
proof -
  assume w: "well_formed3 a b c"
  then obtain y z where y: "y < 64" "unat b = 128 + y" and z: "z < 64" "unat c = 128 + z"
    using cont_digit by (metis well_formed3_def)
  define x where "x = unat a - 224"
  define q where "q = x * 64 + y"
  define cp where "cp = q * 64 + z"
  have x: "unat a = 224 + x" "x \<le> 15" "0 < x \<or> 32 \<le> y" "x < 13 \<or> 14 \<le> x \<or> y \<le> 31"
    using w y unfolding well_formed3_def x_def by linarith+
  have d: "cp div 64 = q" "cp mod 64 = z" "q div 64 = x" "q mod 64 = y"
    unfolding cp_def q_def using y(1) z(1) by (simp_all only: base64_digit)
  then have d2: "cp div 4096 = x" using div_mult2_eq [of cp 64 64] by simp
  note sc = digits_scalar3 [OF x(2) y(1) z(1) x(3,4), folded q_def, folded cp_def]
  obtain a' b' c' where e: "utf8_encode cp = [a', b', c']" "unat a' = unat a" "unat b' = unat b" "unat c' = unat c"
    using encode3 [OF sc(1,2)] unfolding d d2 x(1) y(2) z(2) by blast
  then show ?thesis using sc(3) by (metis word_unat_eq_iff)
qed

lemma well_formed4_decode: "well_formed4 a b c d \<Longrightarrow> \<exists>cp. scalar cp \<and> utf8_encode cp = [a, b, c, d]"
proof -
  assume w: "well_formed4 a b c d"
  then obtain y z t where y: "y < 64" "unat b = 128 + y" and z: "z < 64" "unat c = 128 + z"
    and t: "t < 64" "unat d = 128 + t"
    using cont_digit by (metis well_formed4_def)
  define x where "x = unat a - 240"
  define p where "p = x * 64 + y"
  define q where "q = p * 64 + z"
  define cp where "cp = q * 64 + t"
  have x: "unat a = 240 + x" "x \<le> 4" "0 < x \<or> 16 \<le> y" "x < 4 \<or> y \<le> 15"
    using w y unfolding well_formed4_def x_def by linarith+
  have d: "cp div 64 = q" "cp mod 64 = t" "q div 64 = p" "q mod 64 = z" "p div 64 = x" "p mod 64 = y"
    unfolding cp_def q_def p_def using y(1) z(1) t(1) by (simp_all only: base64_digit)
  then have d2: "cp div 4096 = p" using div_mult2_eq [of cp 64 64] by simp
  with d have d3: "cp div 262144 = x" using div_mult2_eq [of cp 4096 64] by simp
  note sc = digits_scalar4 [OF x(2) y(1) z(1) t(1) x(3,4), folded p_def, folded q_def, folded cp_def]
  obtain a' b' c' d' where e: "utf8_encode cp = [a', b', c', d']" "unat a' = unat a" "unat b' = unat b"
      "unat c' = unat c" "unat d' = unat d"
    using encode4 [OF sc(1,2)] unfolding d d2 d3 x(1) y(2) z(2) t(2) by blast
  then show ?thesis using sc(3) by (metis word_unat_eq_iff)
qed

lemma sequence_len_decode:
  assumes "inkwell_text_utf8_sequence_len bs \<noteq> 0"
  shows "\<exists>cp. scalar cp \<and> take (inkwell_text_utf8_sequence_len bs) bs = utf8_encode cp
    \<and> inkwell_text_utf8_sequence_len bs = length (utf8_encode cp)"
proof (cases bs)
  case Nil
  then show ?thesis using assms by (simp add: sequence_len_cases)
next
  case (Cons a r)
  show ?thesis
  proof (cases "unat a < 128")
    case True
    then have "scalar (unat a)" "utf8_encode (unat a) = [a]" by (auto simp: scalar_def utf8_encode_def)
    then show ?thesis using Cons True by (intro exI [of _ "unat a"]) (simp add: sequence_len_cases)
  next
    case False
    then have ge: "128 \<le> unat a" by simp
    note split = list_split4 [of bs] sequence_len_cases(3-6) [OF ge]
    from split Cons assms have "(\<exists>b r'. r = b # r' \<and> well_formed2 a b \<and> inkwell_text_utf8_sequence_len bs = 2)
      \<or> (\<exists>b c r'. r = b # c # r' \<and> well_formed3 a b c \<and> inkwell_text_utf8_sequence_len bs = 3)
      \<or> (\<exists>b c d r'. r = b # c # d # r' \<and> well_formed4 a b c d \<and> inkwell_text_utf8_sequence_len bs = 4)"
      by (auto split: if_splits)
    then show ?thesis
      using Cons by (elim disjE exE conjE)
        (force dest!: well_formed2_decode well_formed3_decode well_formed4_decode)+
  qed
qed

lemma utf8_lead_len: "utf8_lead a = Some (n, lo, hi) \<Longrightarrow> 2 \<le> n \<and> n \<le> 4"
  by (auto simp: utf8_lead_def split: if_splits)

lemma sequence_len_le: "inkwell_text_utf8_sequence_len bs \<le> length bs"
  by (auto simp: inkwell_text_utf8_sequence_len_def split: list.split option.split)

lemma sequence_len_le_4: "inkwell_text_utf8_sequence_len bs \<le> 4"
  using utf8_lead_len by (fastforce simp: inkwell_text_utf8_sequence_len_def split: list.split option.split)

section \<open>The decoder\<close>

text \<open>The bits the decoder assembles are the base-64 digits of the code point.\<close>

lemma unat_ucast32 [simp]: "unat (ucast (x :: u8) :: u32) = unat x"
  by (rule unat_ucast_u8) simp

lemma unat_push_or32:
  assumes "n \<le> 24" "unat w < 2 ^ n"
  shows "unat (push_bit n (ucast (x :: u8)) OR w :: u32) = unat x * 2 ^ n + unat w"
proof -
  have "unat x * 2 ^ n < 2 ^ 8 * 2 ^ n" by simp
  also have "\<dots> \<le> 2 ^ 32" using assms(1) power_increasing [of "8 + n" 32 "2::nat"] by (simp add: power_add)
  finally show ?thesis using unat_push_or [of "ucast x :: u32" n w] assms(2) by simp
qed

lemma unat_and32:
  "unat (ucast (x AND 0x3F :: u8) :: u32) = unat x mod 64" "unat (ucast (x AND 0x1F :: u8) :: u32) = unat x mod 32"
  "unat (ucast (x AND 0x0F :: u8) :: u32) = unat x mod 16" "unat (ucast (x AND 0x07 :: u8) :: u32) = unat x mod 8"
  unfolding unat_ucast32 by (rule unat_and_low)+

lemma utf8_value_1: "unat (utf8_value (a # r) 1) = unat a"
  unfolding utf8_value_def by simp

lemma utf8_value_2: "unat (utf8_value (a # b # r) 2) = unat a mod 32 * 64 + unat b mod 64"
proof -
  let ?v = "push_bit 6 (ucast (a AND 0x1F)) OR ucast (b AND 0x3F) :: u32"
  have "unat ?v = unat (a AND 0x1F) * 2 ^ 6 + unat (ucast (b AND 0x3F) :: u32)"
    by (rule unat_push_or32) (simp_all only: unat_and32, simp_all)
  moreover have "utf8_value (a # b # r) 2 = ?v" unfolding utf8_value_def by simp
  ultimately show ?thesis by (simp only: unat_and32 unat_and_low) simp
qed

lemma utf8_value_3:
  "unat (utf8_value (a # b # c # r) 3) = unat a mod 16 * 4096 + unat b mod 64 * 64 + unat c mod 64"
proof -
  let ?w = "push_bit 6 (ucast (b AND 0x3F)) OR ucast (c AND 0x3F) :: u32"
  let ?v = "push_bit 12 (ucast (a AND 0x0F)) OR ?w"
  have w: "unat ?w = unat (b AND 0x3F) * 2 ^ 6 + unat (ucast (c AND 0x3F) :: u32)"
    by (rule unat_push_or32) (simp_all only: unat_and32, simp_all)
  have "unat ?w < 2 ^ 12"
    unfolding w unat_and32 unat_and_low using mod_less_divisor [of 64 "unat b"] mod_less_divisor [of 64 "unat c"] by simp
  then have "unat ?v = unat (a AND 0x0F) * 2 ^ 12 + unat ?w" by (rule unat_push_or32 [rotated]) simp
  moreover have "utf8_value (a # b # c # r) 3 = ?v" unfolding utf8_value_def by (simp add: or.assoc)
  ultimately show ?thesis unfolding w by (simp only: unat_and32 unat_and_low) simp
qed

lemma utf8_value_4:
  "unat (utf8_value (a # b # c # d # r) 4)
     = unat a mod 8 * 262144 + unat b mod 64 * 4096 + unat c mod 64 * 64 + unat d mod 64"
proof -
  let ?u = "push_bit 6 (ucast (c AND 0x3F)) OR ucast (d AND 0x3F) :: u32"
  let ?w = "push_bit 12 (ucast (b AND 0x3F)) OR ?u"
  let ?v = "push_bit 18 (ucast (a AND 0x07)) OR ?w"
  note lt = mod_less_divisor [of 64 "unat b"] mod_less_divisor [of 64 "unat c"] mod_less_divisor [of 64 "unat d"]
  have u: "unat ?u = unat (c AND 0x3F) * 2 ^ 6 + unat (ucast (d AND 0x3F) :: u32)"
    by (rule unat_push_or32) (simp_all only: unat_and32, simp_all)
  have "unat ?u < 2 ^ 12" unfolding u unat_and32 unat_and_low using lt by simp
  then have w: "unat ?w = unat (b AND 0x3F) * 2 ^ 12 + unat ?u" by (rule unat_push_or32 [rotated]) simp
  have "unat ?w < 2 ^ 18" unfolding w u unat_and32 unat_and_low using lt by simp
  then have "unat ?v = unat (a AND 0x07) * 2 ^ 18 + unat ?w" by (rule unat_push_or32 [rotated]) simp
  moreover have "utf8_value (a # b # c # d # r) 4 = ?v" unfolding utf8_value_def by (simp add: or.assoc)
  ultimately show ?thesis unfolding w u by (simp only: unat_and32 unat_and_low) simp
qed

lemma strip_mark:
  "m < 32 \<Longrightarrow> (192 + m) mod 32 = (m :: nat)" "m < 16 \<Longrightarrow> (224 + m) mod 16 = m" "m < 8 \<Longrightarrow> (240 + m) mod 8 = m"
  "(128 + m) mod 64 = m mod 64"
  using mod_mult_self2 [of m 32 6] mod_mult_self2 [of m 16 14] mod_mult_self2 [of m 8 30]
    mod_mult_self2 [of m 64 2] by (simp_all add: add.commute)

lemma base64_digits3: "(n::nat) div 4096 * 4096 + n div 64 mod 64 * 64 + n mod 64 = n"
proof -
  have "n div 4096 = n div 64 div 64" using div_mult2_eq [of n 64 64] by simp
  then show ?thesis using div_mult_mod_eq [of n 64] div_mult_mod_eq [of "n div 64" 64] by linarith
qed

lemma base64_digits4: "(n::nat) div 262144 * 262144 + n div 4096 mod 64 * 4096 + n div 64 mod 64 * 64 + n mod 64 = n"
proof -
  have "n div 262144 = n div 4096 div 64" using div_mult2_eq [of n 4096 64] by simp
  then show ?thesis using base64_digits3 [of n] div_mult_mod_eq [of "n div 4096" 64] by linarith
qed

lemma utf8_value_encode:
  assumes "scalar cp"
  shows "unat (utf8_value (utf8_encode cp @ r) (length (utf8_encode cp))) = cp"
proof -
  consider "cp < 128" | "128 \<le> cp" "cp < 2048" | "2048 \<le> cp" "cp < 65536" | "65536 \<le> cp"
    by linarith
  then show ?thesis
  proof cases
    case 1
    then show ?thesis using encode1 [OF 1] utf8_value_1 by auto
  next
    case 2
    from encode2 [OF 2] obtain a b where ab: "utf8_encode cp = [a, b]" "unat a = 192 + cp div 64" "unat b = 128 + cp mod 64"
      by auto
    have "cp div 64 < 32" using 2 by auto
    then have "(192 + cp div 64) mod 32 = cp div 64" "(128 + cp mod 64) mod 64 = cp mod 64"
      by (simp_all only: strip_mark mod_mod_trivial)
    moreover have "length (utf8_encode cp) = 2" using ab(1) by simp
    ultimately show ?thesis
      using utf8_value_2 [of a b r] div_mult_mod_eq [of cp 64] by (simp only: ab append.simps)
  next
    case 3
    from encode3 [OF 3] obtain a b c where abc: "utf8_encode cp = [a, b, c]" "unat a = 224 + cp div 4096"
      "unat b = 128 + cp div 64 mod 64" "unat c = 128 + cp mod 64" by auto
    have "cp div 4096 < 16" using 3 by auto
    then have "(224 + cp div 4096) mod 16 = cp div 4096" "(128 + k mod 64) mod 64 = k mod 64" for k :: nat
      by (simp_all only: strip_mark mod_mod_trivial)
    moreover have "cp div 4096 * 4096 + cp div 64 mod 64 * 64 + cp mod 64 = cp"
      by (rule base64_digits3)
    moreover have "length (utf8_encode cp) = 3" using abc(1) by simp
    ultimately show ?thesis using utf8_value_3 [of a b c r] by (simp only: abc append.simps)
  next
    case 4
    have le: "cp \<le> 0x10FFFF" using assms by (simp add: scalar_def)
    from encode4 [OF 4 le] obtain a b c d where abcd: "utf8_encode cp = [a, b, c, d]" "unat a = 240 + cp div 262144"
      "unat b = 128 + cp div 4096 mod 64" "unat c = 128 + cp div 64 mod 64" "unat d = 128 + cp mod 64" by auto
    have "cp div 262144 < 8" using le by auto
    then have "(240 + cp div 262144) mod 8 = cp div 262144" "(128 + k mod 64) mod 64 = k mod 64" for k :: nat
      by (simp_all only: strip_mark mod_mod_trivial)
    moreover have "cp div 262144 * 262144 + cp div 4096 mod 64 * 4096 + cp div 64 mod 64 * 64 + cp mod 64 = cp"
      by (rule base64_digits4)
    moreover have "length (utf8_encode cp) = 4" using abcd(1) by simp
    ultimately show ?thesis using utf8_value_4 [of a b c d r] by (simp only: abcd append.simps)
  qed
qed

lemma unat_zero_u8: "unat (b :: u8) \<noteq> 0 \<longleftrightarrow> b \<noteq> 0"
  by (simp add: unat_eq_0)

lemma encode_nonzero:
  assumes "scalar cp" "cp \<noteq> 0"
  shows "NUL \<notin> set (utf8_encode cp)"
proof -
  consider "cp < 128" | "128 \<le> cp" "cp < 2048" | "2048 \<le> cp" "cp < 65536" | "65536 \<le> cp"
    by linarith
  then show ?thesis
  proof cases
    case 1
    then show ?thesis using encode1 [OF 1] assms(2) by (auto simp: unat_zero_u8 [symmetric])
  next
    case 2
    then show ?thesis using encode2 [OF 2] by (auto simp: unat_zero_u8 [symmetric])
  next
    case 3
    then show ?thesis using encode3 [OF 3] by (auto simp: unat_zero_u8 [symmetric])
  next
    case 4
    moreover have "cp \<le> 0x10FFFF" using assms by (simp add: scalar_def)
    ultimately show ?thesis using encode4 [of cp] by (auto simp: unat_zero_u8 [symmetric])
  qed
qed

lemma length_utf8_encode_le: "length (utf8_encode cp) \<le> 4"
  by (simp add: length_utf8_encode)

lemma available_encode:
  assumes "scalar cp" "cp \<noteq> 0"
  shows "takeWhile (\<lambda>b. b \<noteq> NUL) (take 4 (utf8_encode cp @ rest))
    = utf8_encode cp @ takeWhile (\<lambda>b. b \<noteq> NUL) (take (4 - length (utf8_encode cp)) rest)"
proof -
  have "take 4 (utf8_encode cp @ rest) = utf8_encode cp @ take (4 - length (utf8_encode cp)) rest"
    using length_utf8_encode_le [of cp] by simp
  moreover have "b \<noteq> NUL" if "b \<in> set (utf8_encode cp)" for b
    using encode_nonzero [OF assms] that by metis
  then have "takeWhile (\<lambda>b. b \<noteq> NUL) (utf8_encode cp @ r) = utf8_encode cp @ takeWhile (\<lambda>b. b \<noteq> NUL) r" for r
    by (rule takeWhile_append2)
  ultimately show ?thesis by simp
qed

lemma utf8_next_encode:
  assumes "scalar cp" "cp \<noteq> 0"
  shows "inkwell_text_utf8_next (utf8_encode cp @ rest) = (length (utf8_encode cp), of_nat cp)"
proof -
  have hd: "hd (utf8_encode cp @ rest) \<noteq> NUL"
    using encode_nonzero [OF assms] hd_in_set [OF utf8_encode_not_Nil [of cp]]
    unfolding hd_append2 [OF utf8_encode_not_Nil] by metis
  let ?r = "takeWhile (\<lambda>b. b \<noteq> NUL) (take (4 - length (utf8_encode cp)) rest)"
  have "of_nat cp = utf8_value (utf8_encode cp @ ?r) (length (utf8_encode cp))"
    using arg_cong [OF utf8_value_encode [OF assms(1), of ?r], of "of_nat :: nat \<Rightarrow> u32"] by simp
  then show ?thesis
    using hd unfolding inkwell_text_utf8_next_def available_encode [OF assms]
    by (simp add: sequence_len_encode [OF assms(1)] Let_def)
qed

text \<open>A character is the same character when the text is cut after it.\<close>

lemma takeWhile_take: "takeWhile P (take n xs) = take n (takeWhile P xs)"
  by (induction xs arbitrary: n) (auto simp: take_Cons split: nat.split)

lemma sequence_len_prefix: "inkwell_text_utf8_sequence_len xs \<noteq> 0 \<Longrightarrow>
    inkwell_text_utf8_sequence_len (xs @ ys) = inkwell_text_utf8_sequence_len xs"
proof -
  assume nz: "inkwell_text_utf8_sequence_len xs \<noteq> 0"
  obtain cp where cp: "scalar cp" "take (inkwell_text_utf8_sequence_len xs) xs = utf8_encode cp"
      "inkwell_text_utf8_sequence_len xs = length (utf8_encode cp)"
    using sequence_len_decode [OF nz] by blast
  then have "xs @ ys = utf8_encode cp @ (drop (inkwell_text_utf8_sequence_len xs) xs @ ys)"
    by (metis append.assoc append_take_drop_id)
  then show ?thesis using sequence_len_encode [OF cp(1)] cp(3) by metis
qed

lemma sequence_len_take:
  "inkwell_text_utf8_sequence_len xs \<le> n \<Longrightarrow>
    inkwell_text_utf8_sequence_len (take n xs) = inkwell_text_utf8_sequence_len xs"
proof (cases "inkwell_text_utf8_sequence_len xs = 0")
  case True
  then show ?thesis
    using sequence_len_prefix [of "take n xs" "drop n xs"] by (metis append_take_drop_id)
next
  case False
  assume le: "inkwell_text_utf8_sequence_len xs \<le> n"
  obtain cp where cp: "scalar cp" "take (inkwell_text_utf8_sequence_len xs) xs = utf8_encode cp"
      "inkwell_text_utf8_sequence_len xs = length (utf8_encode cp)"
    using sequence_len_decode [OF False] by blast
  then have "take n xs = utf8_encode cp @ take (n - inkwell_text_utf8_sequence_len xs) (drop (inkwell_text_utf8_sequence_len xs) xs)"
    by (metis le le_add_diff_inverse take_add)
  then show ?thesis using sequence_len_encode [OF cp(1)] cp(3) by simp
qed

lemma utf8_step_eq:
  "fst (inkwell_text_utf8_next t) =
     (if t = [] \<or> hd t = NUL then 0
      else max 1 (inkwell_text_utf8_sequence_len (takeWhile (\<lambda>b. b \<noteq> NUL) (take 4 t))))"
  by (auto simp: inkwell_text_utf8_next_def Let_def)

lemma utf8_step_le: "fst (inkwell_text_utf8_next t) \<le> length t"
proof -
  have "inkwell_text_utf8_sequence_len (takeWhile (\<lambda>b. b \<noteq> NUL) (take 4 t)) \<le> length t"
    using sequence_len_le length_takeWhile_le [of _ "take 4 t"] by (metis (no_types, lifting) le_trans length_take min.cobounded1)
  then show ?thesis by (cases t) (auto simp: utf8_step_eq)
qed

lemma utf8_step_take:
  assumes "fst (inkwell_text_utf8_next t) \<le> n" "0 < n"
  shows "fst (inkwell_text_utf8_next (take n t)) = fst (inkwell_text_utf8_next t)"
proof -
  have "takeWhile (\<lambda>b. b \<noteq> NUL) (take 4 (take n t)) = take n (takeWhile (\<lambda>b. b \<noteq> NUL) (take 4 t))"
    by (simp add: takeWhile_take min.commute)
  then show ?thesis
    using assms sequence_len_take [of "takeWhile (\<lambda>b. b \<noteq> NUL) (take 4 t)" n]
    by (cases "t = [] \<or> hd t = NUL") (auto simp: utf8_step_eq)
qed

lemma utf8_offset_le: "inkwell_text_utf8_offset t n \<le> length t"
proof (induction n arbitrary: t)
  case (Suc n)
  then show ?case
    using Suc [of "drop (fst (inkwell_text_utf8_next t)) t"] utf8_step_le [of t] by (auto simp: Let_def)
qed simp

lemma utf8_length_take_offset:
  "inkwell_text_utf8_length (take (inkwell_text_utf8_offset t n) t) = min n (inkwell_text_utf8_length t)"
proof (induction n arbitrary: t)
  case 0
  then show ?case by (simp add: inkwell_text_utf8_length.simps inkwell_text_utf8_next_def)
next
  case (Suc n)
  let ?step = "fst (inkwell_text_utf8_next t)"
  show ?case
  proof (cases "?step = 0")
    case True
    then show ?thesis
      by (simp add: inkwell_text_utf8_length.simps [of t] inkwell_text_utf8_length.simps [of "[]"]
          inkwell_text_utf8_next_def)
  next
    case False
    let ?o = "inkwell_text_utf8_offset (drop ?step t) n"
    have o: "inkwell_text_utf8_offset t (Suc n) = ?step + ?o" using False by (simp add: Let_def)
    have "fst (inkwell_text_utf8_next (take (?step + ?o) t)) = ?step"
      using False by (intro utf8_step_take) simp_all
    moreover have "drop ?step (take (?step + ?o) t) = take ?o (drop ?step t)"
      by (simp add: drop_take)
    ultimately show ?thesis
      unfolding o using False Suc.IH [of "drop ?step t"]
      by (simp add: inkwell_text_utf8_length.simps [of t] inkwell_text_utf8_length.simps [of "take (?step + ?o) t"] Let_def)
  qed
qed

section \<open>The sanitiser\<close>

text \<open>Text every consumer can take: encoded scalar values, none of them a control character.\<close>

definition printable :: "nat \<Rightarrow> bool" where
  "printable cp \<longleftrightarrow> scalar cp \<and> 32 \<le> cp \<and> cp \<noteq> 127"

lemma encode_unat: "unat c < 128 \<Longrightarrow> utf8_encode (unat c) = [c]"
  by (simp add: utf8_encode_def)

lemma printable_sanitise_ascii: "byte < 0x80 \<Longrightarrow> printable (unat (sanitise_ascii byte)) \<and> unat (sanitise_ascii byte) < 128"
  by (auto simp: sanitise_ascii_def printable_def scalar_def byte_nat word_unat_eq_iff)

lemma sequence_len_printable:
  assumes "\<not> byte < 0x80" "inkwell_text_utf8_sequence_len (byte # rest) = n" "n \<noteq> 0"
  shows "\<exists>cp. printable cp \<and> take n (byte # rest) = utf8_encode cp"
proof -
  obtain cp where cp: "scalar cp" "take n (byte # rest) = utf8_encode cp"
    using sequence_len_decode [of "byte # rest"] assms(2,3) by auto
  have "128 \<le> cp"
  proof (rule ccontr)
    assume "\<not> 128 \<le> cp"
    then have lt: "cp < 128" by simp
    then obtain a where "utf8_encode cp = [a]" "unat a = cp" using encode1 by blast
    moreover have "hd (take n (byte # rest)) = byte" using assms(3) by (cases n) auto
    ultimately show False using cp(2) assms(1) lt by (auto simp: byte_nat)
  qed
  with cp show ?thesis by (auto simp: printable_def)
qed

text \<open>One turn of the loop: it stops, or it appends one printable character that fits.\<close>

lemma sanitise_loop_turn:
  "sanitise_loop out_len out payload = out \<or>
   (\<exists>cp q. printable cp \<and> length q < length payload \<and> length out + length (utf8_encode cp) \<le> out_len - 1
     \<and> sanitise_loop out_len out payload = sanitise_loop out_len (out @ utf8_encode cp) q)"
proof (cases payload)
  case Nil
  then show ?thesis by (simp add: sanitise_loop.simps)
next
  case (Cons byte rest)
  note unfold = sanitise_loop.simps [of out_len out payload]
  have q: "utf8_encode 63 = [asc (CHR ''?'')]" "printable 63"
    by (simp_all add: utf8_encode_def printable_def scalar_def)
  have one: ?thesis
    if "sanitise_loop out_len out payload = sanitise_loop out_len (out @ [c]) rest" "length out + 1 \<le> out_len - 1"
      "utf8_encode cp = [c]" "printable cp" for c cp
    using that Cons by (intro disjI2 exI [of _ cp] exI [of _ rest]) simp
  consider "byte = NUL" | "byte \<noteq> NUL" "byte < 0x80" | "\<not> byte < 0x80" by blast
  then show ?thesis
  proof cases
    case 1
    then show ?thesis using unfold Cons by simp
  next
    case 2
    then show ?thesis
      using unfold Cons printable_sanitise_ascii [OF 2(2)] encode_unat [of "sanitise_ascii byte"]
        one [of "sanitise_ascii byte" "unat (sanitise_ascii byte)"]
      by (cases "length out + 1 > out_len - 1") auto
  next
    case 3
    let ?n = "inkwell_text_utf8_sequence_len payload"
    have nz: "byte \<noteq> NUL" using 3 by auto
    show ?thesis
    proof (cases "?n = 0")
      case True
      then show ?thesis
        using unfold Cons 3 nz q one [of "asc (CHR ''?'')" 63]
        by (cases "length out + 1 > out_len - 1") (auto simp: Let_def)
    next
      case False
      obtain cp where cp: "printable cp" "take ?n payload = utf8_encode cp"
        using sequence_len_printable [OF 3 _ False] Cons by auto
      have len: "length (utf8_encode cp) = ?n"
        using cp(2) sequence_len_le [of payload] by (metis length_take min.absorb2)
      show ?thesis
      proof (cases "length out + ?n > out_len - 1")
        case True
        then show ?thesis using unfold Cons 3 nz False by (simp add: Let_def)
      next
        case fits: False
        then have "sanitise_loop out_len out payload = sanitise_loop out_len (out @ utf8_encode cp) (drop ?n payload)"
          using unfold Cons 3 nz False cp(2) by (simp add: Let_def)
        then show ?thesis
          using cp(1) len fits False Cons by (intro disjI2 exI [of _ cp] exI [of _ "drop ?n payload"]) simp
      qed
    qed
  qed
qed

lemma sanitise_loop_text:
  "length out \<le> out_len - 1 \<Longrightarrow>
   \<exists>cps. list_all printable cps \<and> sanitise_loop out_len out payload = out @ concat (map utf8_encode cps)
     \<and> length (sanitise_loop out_len out payload) \<le> out_len - 1"
proof (induction payload arbitrary: out rule: length_induct)
  case (1 payload)
  from sanitise_loop_turn [of out_len out payload] show ?case
  proof (elim disjE exE conjE)
    assume "sanitise_loop out_len out payload = out"
    then show ?thesis using "1.prems" by (intro exI [of _ "[]"]) simp
  next
    fix cp q
    assume cp: "printable cp" and "length q < length payload" "length out + length (utf8_encode cp) \<le> out_len - 1"
      and eq: "sanitise_loop out_len out payload = sanitise_loop out_len (out @ utf8_encode cp) q"
    then obtain cps where "list_all printable cps"
        "sanitise_loop out_len (out @ utf8_encode cp) q = (out @ utf8_encode cp) @ concat (map utf8_encode cps)"
        "length (sanitise_loop out_len (out @ utf8_encode cp) q) \<le> out_len - 1"
      using "1.IH" [rule_format, of q "out @ utf8_encode cp"] by auto
    then show ?thesis using cp eq by (intro exI [of _ "cp # cps"]) simp
  qed
qed

text \<open>What is already clean and fits goes through unchanged.\<close>

lemma sanitise_loop_printable:
  assumes "printable cp" "length out + length (utf8_encode cp) \<le> out_len - 1"
  shows "sanitise_loop out_len out (utf8_encode cp @ rest) = sanitise_loop out_len (out @ utf8_encode cp) rest"
proof (cases "cp < 128")
  case True
  then obtain a where a: "utf8_encode cp = [a]" "unat a = cp" using encode1 by blast
  have "a < 0x80" "a \<noteq> NUL" "sanitise_ascii a = a"
    using a(2) True assms(1) by (auto simp: byte_nat printable_def sanitise_ascii_def word_unat_eq_iff)
  then show ?thesis using a assms(2) by (simp add: sanitise_loop.simps [of out_len out "a # rest"])
next
  case False
  have sc: "scalar cp" using assms(1) by (simp add: printable_def)
  obtain a r where enc: "utf8_encode cp = a # r" using utf8_encode_not_Nil [of cp] by (cases "utf8_encode cp") auto
  have len: "inkwell_text_utf8_sequence_len (utf8_encode cp @ rest) = length (utf8_encode cp)"
    by (rule sequence_len_encode [OF sc])
  have "\<not> a < 0x80"
  proof
    assume "a < 0x80"
    then have lt: "unat a < 128" by (simp add: byte_nat)
    then have "inkwell_text_utf8_sequence_len (utf8_encode cp @ rest) = 1" using enc by (simp add: sequence_len_cases)
    then show False using len False by (simp add: length_utf8_encode split: if_splits)
  qed
  moreover from this have "a \<noteq> NUL" by auto
  ultimately show ?thesis
    using assms(2) len enc sanitise_loop.simps [of out_len out "utf8_encode cp @ rest"] by (simp add: Let_def)
qed

lemma sanitise_loop_clean:
  "list_all printable cps \<Longrightarrow> length out + length (concat (map utf8_encode cps)) \<le> out_len - 1 \<Longrightarrow>
    sanitise_loop out_len out (concat (map utf8_encode cps)) = out @ concat (map utf8_encode cps)"
proof (induction cps arbitrary: out)
  case Nil
  then show ?case by (simp add: sanitise_loop.simps)
next
  case (Cons cp cps)
  then show ?case by (simp add: sanitise_loop_printable)
qed

section \<open>Properties\<close>

text \<open>
  The sequence test of \<open>inkwell_text_utf8_sequence_len\<close> is exactly RFC 3629: it answers a nonzero
  length \<open>n\<close> if and only if the first \<open>n\<close> bytes are the encoding of a Unicode scalar value. Overlong
  forms, surrogates, values above U+10FFFF and truncated sequences are therefore all refused, and
  nothing well-formed is.
\<close>

theorem utf8_sequence_len_rfc3629:
  "(inkwell_text_utf8_sequence_len bs = n \<and> n \<noteq> 0) \<longleftrightarrow>
   (\<exists>cp. scalar cp \<and> n = length (utf8_encode cp) \<and> take n bs = utf8_encode cp)"
proof
  assume "inkwell_text_utf8_sequence_len bs = n \<and> n \<noteq> 0"
  then show "\<exists>cp. scalar cp \<and> n = length (utf8_encode cp) \<and> take n bs = utf8_encode cp"
    using sequence_len_decode [of bs] by auto
next
  assume "\<exists>cp. scalar cp \<and> n = length (utf8_encode cp) \<and> take n bs = utf8_encode cp"
  then obtain cp where "scalar cp" "n = length (utf8_encode cp)" "bs = utf8_encode cp @ drop n bs"
    by (metis append_take_drop_id)
  then show "inkwell_text_utf8_sequence_len bs = n \<and> n \<noteq> 0"
    using sequence_len_encode [of cp "drop n bs"] by auto
qed

text \<open>
  C39. Decoding inverts encoding: at a character \<open>cp\<close> other than NUL, whatever follows it,
  \<open>inkwell_text_utf8_next\<close> answers the number of bytes of its encoding and \<open>cp\<close> itself; and at any
  position that is not the end it consumes at least one byte and never more than the text has.
\<close>

theorem utf8_next_decodes:
  assumes "scalar cp" "cp \<noteq> 0" "t \<noteq> []" "hd t \<noteq> NUL"
  shows "inkwell_text_utf8_next (utf8_encode cp @ rest) = (length (utf8_encode cp), of_nat cp)
    \<and> 1 \<le> fst (inkwell_text_utf8_next t) \<and> fst (inkwell_text_utf8_next t) \<le> length t"
  using utf8_next_encode [OF assms(1,2)] utf8_next_zero_iff [of t] utf8_step_le [of t] assms(3,4)
  by simp

theorem utf8_next_decodes_witness:
  "inkwell_text_utf8_next ([0xE2, 0x82, 0xAC] @ [0x41]) = (3, 0x20AC) \<and> 1 \<le> fst (inkwell_text_utf8_next [0xFF])"
proof -
  have e: "utf8_encode 0x20AC = [0xE2, 0x82, 0xAC]" by (simp add: utf8_encode_def)
  have "scalar 0x20AC" by (simp add: scalar_def)
  from utf8_next_decodes [OF this, of "[0xFF]" "[0x41]"] show ?thesis unfolding e by simp
qed

text \<open>
  Truncation is by characters: the result of \<open>inkwell_text_utf8_truncate\<close> is a prefix of the text
  that holds exactly the first \<open>max_chars\<close> characters, or all of them when there are fewer. No
  character is split, malformed bytes counting as one character each.
\<close>

theorem utf8_truncate_characters:
  "inkwell_text_utf8_length (inkwell_text_utf8_truncate t max_chars) = min max_chars (inkwell_text_utf8_length t)
   \<and> (\<exists>k \<le> length t. inkwell_text_utf8_truncate t max_chars = take k t)"
  using utf8_length_take_offset [of t max_chars] utf8_offset_le [of t max_chars]
  by (auto simp: inkwell_text_utf8_truncate_def)

text \<open>
  C40. Whatever the bytes, the text \<open>inkwell_text_sanitise\<close> leaves in a buffer of \<open>out_len\<close> bytes is a
  sequence of whole, well-formed characters with no control character and no DEL among them, shorter
  than the buffer so that its NUL fits; and sanitising it again into the same buffer changes nothing.
\<close>

theorem sanitise_sound:
  assumes "0 < out_len"
  shows "\<exists>cps. list_all printable cps
     \<and> inkwell_text_sanitise (Some payload) out_len = Some (concat (map utf8_encode cps))
     \<and> length (concat (map utf8_encode cps)) < out_len
     \<and> inkwell_text_sanitise (Some (concat (map utf8_encode cps))) out_len = Some (concat (map utf8_encode cps))"
proof -
  obtain cps where "list_all printable cps" "sanitise_loop out_len [] payload = concat (map utf8_encode cps)"
      "length (concat (map utf8_encode cps)) \<le> out_len - 1"
    using sanitise_loop_text [of "[]" out_len payload] by auto
  then show ?thesis
    using assms sanitise_loop_clean [of cps "[]" out_len]
    by (intro exI [of _ cps]) (auto simp: inkwell_text_sanitise_def)
qed

theorem sanitise_sound_witness:
  "(0::nat) < 8 \<and> (\<exists>cps. list_all printable cps
     \<and> inkwell_text_sanitise (Some [0x41, 0x0A, 0xFF, 0xE2, 0x82, 0xAC]) 8 = Some (concat (map utf8_encode cps)))
   \<and> inkwell_text_sanitise (Some [0x41, 0x0A, 0xFF, 0xE2, 0x82, 0xAC]) 8 = Some [0x41, 0x20, 0x3F, 0xE2, 0x82, 0xAC]"
proof -
  have "inkwell_text_sanitise (Some [0x41, 0x0A, 0xFF, 0xE2, 0x82, 0xAC]) 8 = Some [0x41, 0x20, 0x3F, 0xE2, 0x82, 0xAC]"
    by code_simp
  then show ?thesis
    using sanitise_sound [of 8 "[0x41, 0x0A, 0xFF, 0xE2, 0x82, 0xAC]"] by auto
qed

end
