(* ===== verification/Base64.thy ===== *)
theory Base64
  imports Inkwell_Prelude
begin

text \<open>
  Base64 in both alphabets (\<open>src/codec/base64.c\<close>). The encoder is the loop over groups of three
  bytes, the decoder the loop over groups of four characters, each on the 32-bit word the source
  assembles. A decoder run answers its boolean together with the bytes it has put into the output
  buffer, because the source writes group by group and can refuse a later group.
\<close>

section \<open>Model\<close>

definition k_standard :: bytes where
  "k_standard = ascii ''ABCDEFGHIJKLMNOPQRSTUVWXYZabcdefghijklmnopqrstuvwxyz0123456789+/''"

definition k_url_safe :: bytes where
  "k_url_safe = ascii ''ABCDEFGHIJKLMNOPQRSTUVWXYZabcdefghijklmnopqrstuvwxyz0123456789-_''"

text \<open>\<open>INKWELL_BASE64_ENCODED_MAX\<close> and \<open>INKWELL_BASE64_DECODED_MAX\<close>.\<close>

definition encoded_max :: "nat \<Rightarrow> nat" where
  "encoded_max n = (n + 2) div 3 * 4 + 1"

definition decoded_max :: "nat \<Rightarrow> nat" where
  "decoded_max chars = (chars + 3) div 4 * 3"

datatype base64_form = BASE64_PADDED | BASE64_ANY

definition base64_triple :: "bytes \<Rightarrow> u32" where
  "base64_triple data =
     (let b0 = ucast (data ! 0);
          b1 = (if 1 < length data then ucast (data ! 1) else 0);
          b2 = (if 2 < length data then ucast (data ! 2) else 0)
      in push_bit 16 b0 OR push_bit 8 b1 OR b2)"

fun encode_loop :: "bytes \<Rightarrow> bool \<Rightarrow> bytes \<Rightarrow> bytes" where
  "encode_loop alphabet url_safe [] = []"
| "encode_loop alphabet url_safe (d # ds) =
     (let data = d # ds; triple = base64_triple data
      in [alphabet ! unat (drop_bit 18 triple AND 0x3F), alphabet ! unat (drop_bit 12 triple AND 0x3F)]
         @ (if 1 < length data then [alphabet ! unat (drop_bit 6 triple AND 0x3F)]
            else if \<not> url_safe then [asc (CHR ''='')] else [])
         @ (if 2 < length data then [alphabet ! unat (triple AND 0x3F)]
            else if \<not> url_safe then [asc (CHR ''='')] else [])
         @ encode_loop alphabet url_safe (drop 2 ds))"

definition encoded_chars :: "nat \<Rightarrow> bool \<Rightarrow> nat" where
  "encoded_chars len url_safe =
     (let tail = len mod 3; chars = (len + 2) div 3 * 4
      in if url_safe \<and> tail \<noteq> 0 then chars - (3 - tail) else chars)"

text \<open>
  The count returned and the text left in the buffer; \<open>None\<close> for a buffer that is not there, which is
  not touched. \<open>data = None\<close> is a NULL source with a nonzero length.
\<close>

definition inkwell_base64_encode :: "bytes option \<Rightarrow> bool \<Rightarrow> nat \<Rightarrow> nat \<times> bytes option" where
  "inkwell_base64_encode data url_safe out_len =
     (if out_len = 0 then (0, None)
      else case data of None \<Rightarrow> (0, Some [])
           | Some d \<Rightarrow>
               if encoded_chars (length d) url_safe + 1 > out_len then (0, Some [])
               else let text = encode_loop (if url_safe then k_url_safe else k_standard) url_safe d
                    in (length text, Some text))"

definition base64_value :: "u8 \<Rightarrow> int" where
  "base64_value c =
     (if c \<ge> asc (CHR ''A'') \<and> c \<le> asc (CHR ''Z'') then uint c - uint (asc (CHR ''A''))
      else if c \<ge> asc (CHR ''a'') \<and> c \<le> asc (CHR ''z'') then uint c - uint (asc (CHR ''a'')) + 26
      else if c \<ge> asc (CHR ''0'') \<and> c \<le> asc (CHR ''9'') then uint c - uint (asc (CHR ''0'')) + 52
      else if c = asc (CHR ''+'') \<or> c = asc (CHR ''-'') then 62
      else if c = asc (CHR ''/'') \<or> c = asc (CHR ''_'') then 63
      else -1)"

definition base64_quad :: "int list \<Rightarrow> u32" where
  "base64_quad values = foldl (\<lambda>quad v. push_bit 6 quad OR of_int v) 0 (values @ replicate (4 - length values) 0)"

function decode_loop :: "nat \<Rightarrow> bytes \<Rightarrow> bytes \<Rightarrow> bool \<times> bytes" where
  "decode_loop out_cap out text =
     (if text = [] then (True, out)
      else let group = min (length text) 4;
               values = map base64_value (take group text)
           in if list_ex (\<lambda>v. v < 0) values then (False, out)
              else let quad = base64_quad values; bytes = group - 1
                   in if length out + bytes > out_cap then (False, out)
                      else decode_loop out_cap
                             (out @ take bytes [ucast (drop_bit 16 quad), ucast (drop_bit 8 quad), ucast quad])
                             (drop 4 text))"
  by pat_completeness auto
termination
  by (relation "measure (\<lambda>(_, _, text). length text)") auto

declare decode_loop.simps [simp del]

definition base64_payload :: "bytes \<Rightarrow> bytes" where
  "base64_payload text = rev (dropWhile (\<lambda>c. c = asc (CHR ''='')) (rev text))"

text \<open>The boolean and the bytes written; \<open>out_cap\<close> is the room in the output buffer.\<close>

definition inkwell_base64_decode :: "bytes option \<Rightarrow> base64_form \<Rightarrow> nat \<Rightarrow> bool \<times> bytes" where
  "inkwell_base64_decode text form out_cap =
     (case text of None \<Rightarrow> (False, [])
      | Some t \<Rightarrow>
          if form = BASE64_PADDED \<and> length t mod 4 \<noteq> 0 then (False, [])
          else let payload = base64_payload t
               in if length t - length payload > 2 \<or> length payload mod 4 = 1 then (False, [])
                  else decode_loop out_cap [] payload)"

section \<open>Characters and values\<close>

lemma alphabet_length [simp]: "length k_standard = 64" "length k_url_safe = 64"
  by (simp_all add: k_standard_def k_url_safe_def)

lemma alphabet_values:
  "map base64_value k_standard = map int [0..<64]" "map base64_value k_url_safe = map int [0..<64]"
  unfolding k_standard_def k_url_safe_def by (simp_all add: base64_value_def upt_rec)

lemma base64_value_pad: "base64_value (asc (CHR ''='')) = -1"
  by (simp add: base64_value_def)

lemma base64_value_alphabet:
  assumes "i < 64" "alphabet = k_standard \<or> alphabet = k_url_safe"
  shows "base64_value (alphabet ! i) = int i" "alphabet ! i \<noteq> asc (CHR ''='')"
proof -
  have "map base64_value alphabet ! i = map int [0..<64] ! i" using assms(2) alphabet_values by auto
  then show v: "base64_value (alphabet ! i) = int i" using assms by auto
  show "alphabet ! i \<noteq> asc (CHR ''='')" using v base64_value_pad by (metis of_nat_0_le_iff neg_0_le_iff_le not_one_le_zero)
qed

lemma base64_value_less: "base64_value c < 64"
  by (auto simp: base64_value_def word_le_def)

text \<open>The word of a group, as a number.\<close>

lemma base64_triple_unat:
  "unat (base64_triple (d # ds)) = unat d * 65536
     + (if ds = [] then 0 else unat (ds ! 0)) * 256 + (if length ds < 2 then 0 else unat (ds ! 1))"
proof -
  define b1 :: u32 where "b1 = (if ds = [] then 0 else ucast (ds ! 0))"
  define b2 :: u32 where "b2 = (if length ds < 2 then 0 else ucast (ds ! 1))"
  have b1: "unat b1 = (if ds = [] then 0 else unat (ds ! 0))"
    using unat_ucast_u8 [of "ds ! 0", where 'b = 32] by (simp add: b1_def)
  have b2: "unat b2 = (if length ds < 2 then 0 else unat (ds ! 1))"
    using unat_ucast_u8 [of "ds ! 1", where 'b = 32] by (simp add: b2_def)
  have lt: "unat b1 < 256" "unat b2 < 256" "unat (ucast d :: u32) = unat d" "unat d < 65536"
    using unat_ucast_u8 [of d, where 'b = 32] less_trans [OF unat_u8_lt [of d], of 65536] by (simp_all add: b1 b2)
  have "base64_triple (d # ds) = push_bit 16 (ucast d) OR (push_bit 8 b1 OR b2)"
  proof (cases ds)
    case (Cons x xs)
    then show ?thesis
      by (cases xs) (simp_all add: base64_triple_def Let_def b1_def b2_def or.assoc)
  qed (simp add: base64_triple_def Let_def b1_def b2_def)
  moreover have w: "unat (push_bit 8 b1 OR b2) = unat b1 * 2 ^ 8 + unat b2"
    by (rule unat_push_or) (use lt in simp_all)
  moreover have "unat (push_bit 16 (ucast d) OR (push_bit 8 b1 OR b2))
      = unat (ucast d :: u32) * 2 ^ 16 + unat (push_bit 8 b1 OR b2)"
    by (rule unat_push_or) (use lt w in simp_all)
  ultimately show ?thesis using lt(3) b1 b2 by simp
qed

text \<open>The word the decoder assembles from four values is the number they spell in base 64.\<close>

lemma unat_of_int_digit: "0 \<le> v \<Longrightarrow> v < 64 \<Longrightarrow> unat (of_int v :: u32) = nat v"
  by (simp add: unat_eq_nat_uint uint_word_of_int)

lemma quad_step:
  assumes "unat q < 2 ^ 26" "0 \<le> v" "v < 64"
  shows "unat (push_bit 6 q OR of_int v :: u32) = unat q * 64 + nat v"
  using unat_push_or [of q 6 "of_int v"] assms by (simp add: unat_of_int_digit)

lemma base64_quad_unat:
  assumes "list_all (\<lambda>v. 0 \<le> v \<and> v < 64) [v0, v1, v2, v3]"
  shows "unat (base64_quad [v0, v1, v2, v3]) = nat v0 * 262144 + nat v1 * 4096 + nat v2 * 64 + nat v3"
proof -
  define q1 :: u32 where "q1 = push_bit 6 0 OR of_int v0"
  define q2 where "q2 = push_bit 6 q1 OR of_int v1"
  define q3 where "q3 = push_bit 6 q2 OR of_int v2"
  have v: "nat v0 < 64" "nat v1 < 64" "nat v2 < 64" "nat v3 < 64" using assms by auto
  have q1: "unat q1 = nat v0" using quad_step [of 0 v0] assms by (simp add: q1_def)
  have q2: "unat q2 = unat q1 * 64 + nat v1" unfolding q2_def
    by (rule quad_step) (use assms q1 v in auto)
  have q3: "unat q3 = unat q2 * 64 + nat v2" unfolding q3_def
    by (rule quad_step) (use assms q1 q2 v in auto)
  have "unat (push_bit 6 q3 OR of_int v3) = unat q3 * 64 + nat v3"
    by (rule quad_step) (use assms q1 q2 q3 v in auto)
  moreover have "[v0, v1, v2, v3] @ replicate (4 - length [v0, v1, v2, v3]) 0 = [v0, v1, v2, v3]" by simp
  then have "base64_quad [v0, v1, v2, v3] = push_bit 6 q3 OR of_int v3"
    by (simp only: base64_quad_def foldl.simps q1_def q2_def q3_def)
  ultimately show ?thesis by (simp add: q1 q2 q3)
qed

lemma base64_spelled: "(n::nat) div 262144 mod 64 * 262144 + n div 4096 mod 64 * 4096 + n div 64 mod 64 * 64 + n mod 64 = n"
  if "n < 16777216"
proof -
  have "n div 262144 mod 64 = n div 262144" using that by (simp add: div_less_dividend less_mult_imp_div_less)
  moreover have "n div 262144 = n div 4096 div 64" "n div 4096 = n div 64 div 64"
    using div_mult2_eq [of n 4096 64] div_mult2_eq [of n 64 64] by simp_all
  ultimately show ?thesis
    using div_mult_mod_eq [of n 64] div_mult_mod_eq [of "n div 64" 64] div_mult_mod_eq [of "n div 4096" 64] by linarith
qed

lemma unat_and63: "unat (x AND 0x3F :: u32) = unat x mod 64"
  using unat_and_mask [of x 6] by (simp add: mask_eq_exp_minus_1)

lemma unat_digit: "unat (drop_bit n x AND 0x3F :: u32) = unat x div 2 ^ n mod 64"
  unfolding unat_and63 unat_drop_bit by (rule refl)

lemma base64_quad_triple:
  fixes t :: u32
  assumes "unat t < 16777216"
  shows "base64_quad [int (unat (drop_bit 18 t AND 0x3F)), int (unat (drop_bit 12 t AND 0x3F)),
      int (unat (drop_bit 6 t AND 0x3F)), int (unat (t AND 0x3F))] = t"
proof -
  have "unat (base64_quad [int (unat (drop_bit 18 t AND 0x3F)), int (unat (drop_bit 12 t AND 0x3F)),
      int (unat (drop_bit 6 t AND 0x3F)), int (unat (t AND 0x3F))])
    = unat t div 262144 mod 64 * 262144 + unat t div 4096 mod 64 * 4096 + unat t div 64 mod 64 * 64 + unat t mod 64"
    by (subst base64_quad_unat) (simp_all add: unat_digit unat_and63 unat_drop_bit)
  then show ?thesis using base64_spelled [OF assms] by (simp only: word_unat_eq_iff)
qed

section \<open>The decoder's loop\<close>

lemma decode_loop_Nil [simp]: "decode_loop cap out [] = (True, out)"
  by (simp add: decode_loop.simps)

lemma decode_loop_bad:
  "t \<noteq> [] \<Longrightarrow> \<not> list_all (\<lambda>c. 0 \<le> base64_value c) (take 4 t) \<Longrightarrow> decode_loop cap out t = (False, out)"
  by (subst decode_loop.simps) (auto simp: Let_def list_ex_iff list_all_iff not_le min_def)

lemma decode_loop_full:
  "t \<noteq> [] \<Longrightarrow> length out + (min (length t) 4 - 1) > cap \<Longrightarrow> decode_loop cap out t = (False, out)"
  by (subst decode_loop.simps) (auto simp: Let_def)

lemma decode_loop_group:
  assumes "t \<noteq> []" "list_all (\<lambda>c. 0 \<le> base64_value c) (take 4 t)"
    "length out + (min (length t) 4 - 1) \<le> cap"
  shows "decode_loop cap out t = decode_loop cap
     (out @ take (min (length t) 4 - 1)
       (let quad = base64_quad (map base64_value (take 4 t)) in [ucast (drop_bit 16 quad), ucast (drop_bit 8 quad), ucast quad]))
     (drop 4 t)"
proof -
  have "take (min (length t) 4) t = take 4 t" by (simp add: min_def)
  moreover have "\<not> list_ex (\<lambda>v. v < 0) (map base64_value (take 4 t))"
    using assms(2) by (auto simp: list_ex_iff list_all_iff not_less)
  ultimately show ?thesis
    using assms(1,3) by (subst decode_loop.simps) (simp only: Let_def not_less if_False, simp)
qed

text \<open>
  The decoder accepts a payload exactly when all of its characters are in an alphabet and what they
  carry fits, and then has written three bytes for every four characters.
\<close>

lemma decode_loop_accepts:
  "length t mod 4 \<noteq> 1 \<Longrightarrow> length out \<le> cap \<Longrightarrow>
   (fst (decode_loop cap out t) \<longleftrightarrow>
      list_all (\<lambda>c. 0 \<le> base64_value c) t \<and> length out + length t * 3 div 4 \<le> cap)
   \<and> (fst (decode_loop cap out t) \<longrightarrow> length (snd (decode_loop cap out t)) = length out + length t * 3 div 4)"
proof (induction t arbitrary: out rule: length_induct)
  case (1 t)
  consider "t = []" | "t \<noteq> []" "\<not> list_all (\<lambda>c. 0 \<le> base64_value c) (take 4 t)"
    | "t \<noteq> []" "list_all (\<lambda>c. 0 \<le> base64_value c) (take 4 t)" "length out + (min (length t) 4 - 1) > cap"
    | "t \<noteq> []" "list_all (\<lambda>c. 0 \<le> base64_value c) (take 4 t)" "length out + (min (length t) 4 - 1) \<le> cap"
    by linarith
  then show ?case
  proof cases
    case 1
    then show ?thesis using "1.prems" by simp
  next
    case 2
    then have "\<not> list_all (\<lambda>c. 0 \<le> base64_value c) t"
      by (metis append_take_drop_id list_all_append)
    then show ?thesis using decode_loop_bad [OF 2] by simp
  next
    case 3
    have "min (length t) 4 - 1 \<le> length t * 3 div 4" by (cases "length t \<le> 4") auto
    then show ?thesis using decode_loop_full [OF 3(1,3)] 3(3) by auto
  next
    case 4
    define out' where "out' = out @ take (min (length t) 4 - 1)
       (let quad = base64_quad (map base64_value (take 4 t)) in [ucast (drop_bit 16 quad), ucast (drop_bit 8 quad), ucast quad])"
    have step: "decode_loop cap out t = decode_loop cap out' (drop 4 t)"
      unfolding out'_def by (rule decode_loop_group [OF 4])
    have len': "length out' = length out + (min (length t) 4 - 1)"
      by (simp add: out'_def Let_def)
    have all: "list_all (\<lambda>c. 0 \<le> base64_value c) t \<longleftrightarrow> list_all (\<lambda>c. 0 \<le> base64_value c) (drop 4 t)"
      using 4(2) by (metis append_take_drop_id list_all_append)
    have mod: "length (drop 4 t) mod 4 \<noteq> 1"
      using "1.prems"(1) by (cases "length t \<le> 4") (auto simp: le_mod_geq)
    have sum: "length out' + length (drop 4 t) * 3 div 4 = length out + length t * 3 div 4"
    proof (cases "4 \<le> length t")
      case True
      then have "length t * 3 div 4 = (length t - 4) * 3 div 4 + 3" by linarith
      then show ?thesis using True by (simp only: len' length_drop min_absorb2)
    next
      case False
      moreover have "length t \<noteq> 0" "length t \<noteq> 1" using "1.prems"(1) 4(1) by auto
      ultimately have "length t = 2 \<or> length t = 3" by linarith
      then show ?thesis by (auto simp: len')
    qed
    have "length (drop 4 t) < length t" "length out' \<le> cap" using 4 len' by auto
    from "1.IH" [rule_format, OF this(1) mod this(2)] show ?thesis
      unfolding step all sum .
  qed
qed

section \<open>Encoding\<close>

definition pad_chars :: "nat \<Rightarrow> nat" where
  "pad_chars n = (3 - n mod 3) mod 3"

lemma encode_loop_padding:
  "encode_loop alphabet False d = encode_loop alphabet True d @ replicate (pad_chars (length d)) (asc (CHR ''=''))"
proof (induction alphabet True d rule: encode_loop.induct)
  case (2 alphabet d ds)
  show ?case
  proof (cases "2 \<le> length ds")
    case True
    then have "pad_chars (length (drop 2 ds)) = pad_chars (length (d # ds))"
      by (simp add: pad_chars_def le_mod_geq)
    then show ?thesis using 2 True by (auto simp: Let_def)
  next
    case False
    then have "ds = [] \<or> length ds = 1" by (cases ds) (auto simp: not_le)
    then show ?thesis using 2 by (auto simp: Let_def pad_chars_def numeral_2_eq_2)
  qed
qed (simp add: pad_chars_def)

lemma digit_in_alphabet: "alphabet = k_standard \<or> alphabet = k_url_safe \<Longrightarrow> alphabet ! unat (x AND 0x3F :: u32) \<in> set alphabet"
  by (rule nth_mem) (auto simp: unat_and63)

lemma encode_loop_alphabet:
  "alphabet = k_standard \<or> alphabet = k_url_safe \<Longrightarrow> set (encode_loop alphabet True d) \<subseteq> set alphabet"
  by (induction alphabet True d rule: encode_loop.induct) (simp_all add: Let_def digit_in_alphabet)

lemma encoded_chars_le: "encoded_chars n url_safe \<le> (n + 2) div 3 * 4"
  by (auto simp only: encoded_chars_def Let_def diff_le_self order_refl split: if_split)

lemma encode_loop_plain_length: "length (encode_loop alphabet True d) = (4 * length d + 2) div 3"
proof (induction alphabet True d rule: encode_loop.induct)
  case (2 alphabet d ds)
  show ?case
  proof (cases "2 \<le> length ds")
    case True
    then obtain k where k: "length ds = k + 2" by (metis le_add_diff_inverse2)
    have "(4 * k + 2) div 3 + 4 = (4 * (k + 3) + 2) div 3" by presburger
    then show ?thesis using 2 k by (auto simp: Let_def)
  next
    case False
    then have "ds = [] \<or> length ds = 1" by (cases ds) (auto simp: not_le)
    then show ?thesis by (auto simp: Let_def)
  qed
qed simp

lemma encode_loop_length: "length (encode_loop alphabet url_safe d) = encoded_chars (length d) url_safe"
proof -
  obtain q r where n: "length d = 3 * q + r" "r < 3"
    by (metis div_mult_mod_eq mod_less_divisor mult.commute zero_less_numeral)
  have "(12 * q + 2) div 3 = 4 * q" "(3 * q + 2) div 3 = q" by presburger+
  moreover have "r = 0 \<or> r = 1 \<or> r = 2" using n(2) by auto
  ultimately show ?thesis using n(1)
    by (cases url_safe) (auto simp: encode_loop_padding encode_loop_plain_length encoded_chars_def pad_chars_def Let_def)
qed

lemma alphabet_no_pad: "alphabet = k_standard \<or> alphabet = k_url_safe \<Longrightarrow> c \<in> set alphabet \<Longrightarrow> c \<noteq> asc (CHR ''='')"
  using base64_value_alphabet(2) alphabet_length by (metis in_set_conv_nth)

lemma payload_strips:
  assumes "asc (CHR ''='') \<notin> set t"
  shows "base64_payload (t @ replicate k (asc (CHR ''=''))) = t"
proof -
  have "dropWhile (\<lambda>c. c = asc (CHR ''='')) (rev t) = rev t"
    using assms by (cases t rule: rev_cases) auto
  moreover have "dropWhile (\<lambda>c. c = asc (CHR ''='')) (replicate k (asc (CHR ''='')) @ rev t)
      = dropWhile (\<lambda>c. c = asc (CHR ''='')) (rev t)"
    by (induction k) auto
  ultimately show ?thesis
    by (simp add: base64_payload_def)
qed

lemma payload_encode_loop:
  assumes "alphabet = k_standard \<or> alphabet = k_url_safe"
  shows "base64_payload (encode_loop alphabet url_safe d) = encode_loop alphabet True d"
proof -
  have n: "asc (CHR ''='') \<notin> set (encode_loop alphabet True d)"
    using encode_loop_alphabet [OF assms] alphabet_no_pad [OF assms] by blast
  show ?thesis
    using payload_strips [OF n, of "pad_chars (length d)"] payload_strips [OF n, of 0]
    by (cases url_safe) (simp_all add: encode_loop_padding)
qed

section \<open>Round trip\<close>

text \<open>A group the encoder wrote is read back as the word it was written from.\<close>

lemma base64_quad_pad: "base64_quad [a, b, c] = base64_quad [a, b, c, 0]" "base64_quad [a, b] = base64_quad [a, b, 0, 0]"
  by (simp_all add: base64_quad_def numeral_2_eq_2)

lemma base64_triple_lt: "unat (base64_triple (d # ds)) < 16777216"
proof -
  have "unat d < 256" "(if ds = [] then 0 else unat (ds ! 0)) < 256" "(if length ds < 2 then 0 else unat (ds ! 1)) < 256"
    by simp_all
  then show ?thesis unfolding base64_triple_unat by linarith
qed

lemma base256_parts:
  fixes a b c :: nat
  assumes "b < 256" "c < 256"
  shows "(a * 65536 + b * 256 + c) div 65536 = a" "(a * 65536 + b * 256 + c) div 256 = a * 256 + b"
    "(a * 65536 + b * 256 + c) mod 256 = c"
proof -
  have "b * 256 + c < 65536" using assms by linarith
  then show "(a * 65536 + b * 256 + c) div 65536 = a" by (intro div_nat_eqI) simp_all
  have e: "a * 65536 + b * 256 + c = (a * 256 + b) * 256 + c" by simp
  show "(a * 65536 + b * 256 + c) div 256 = a * 256 + b" "(a * 65536 + b * 256 + c) mod 256 = c"
    unfolding e using div_mult_self3 [of "256::nat" "a * 256 + b" c] mod_mult_self3 [of "a * 256 + b" "256::nat" c] assms(2)
    by simp_all
qed

lemma triple_bytes3:
  "[ucast (drop_bit 16 (base64_triple (d # e # f # ds))), ucast (drop_bit 8 (base64_triple (d # e # f # ds))),
     ucast (base64_triple (d # e # f # ds))] = [d, e, f :: u8]"
proof -
  let ?t = "base64_triple (d # e # f # ds)"
  have t: "unat ?t = unat d * 65536 + unat e * 256 + unat f" by (simp add: base64_triple_unat)
  have "unat (ucast ?t :: u8) = unat ?t mod 256" using unat_ucast_drop [of 0 ?t] by simp
  then show ?thesis
    by (simp add: word_unat_eq_iff unat_ucast_drop t base256_parts)
qed

text \<open>The four characters of a full group, and the values they stand for.\<close>

definition group_chars :: "bytes \<Rightarrow> u32 \<Rightarrow> bytes" where
  "group_chars alphabet t = [alphabet ! unat (drop_bit 18 t AND 0x3F), alphabet ! unat (drop_bit 12 t AND 0x3F),
     alphabet ! unat (drop_bit 6 t AND 0x3F), alphabet ! unat (t AND 0x3F)]"

lemma group_values:
  assumes "alphabet = k_standard \<or> alphabet = k_url_safe"
  shows "map base64_value (group_chars alphabet t) = [int (unat (drop_bit 18 t AND 0x3F)), int (unat (drop_bit 12 t AND 0x3F)),
      int (unat (drop_bit 6 t AND 0x3F)), int (unat (t AND 0x3F))]"
proof -
  have "base64_value (alphabet ! unat (x AND 0x3F :: u32)) = int (unat (x AND 0x3F))" for x
    by (rule base64_value_alphabet(1)) (use assms in \<open>simp_all add: unat_and63\<close>)
  then show ?thesis by (simp only: group_chars_def list.map)
qed

lemma group_values_nonneg:
  assumes "alphabet = k_standard \<or> alphabet = k_url_safe"
  shows "list_all (\<lambda>c. 0 \<le> base64_value c) (group_chars alphabet t)"
proof -
  have "list_all (\<lambda>v. 0 \<le> v) (map base64_value (group_chars alphabet t))"
    unfolding group_values [OF assms] by simp
  then show ?thesis by (simp add: list_all_iff)
qed

lemma base64_triple_short: "base64_triple [d] = base64_triple [d, 0, 0]" "base64_triple [d, e] = base64_triple [d, e, 0]"
  by (simp_all add: base64_triple_def)

lemma triple_low_digits:
  "unat (base64_triple [d, e, 0] AND 0x3F) = 0" "unat (drop_bit 6 (base64_triple [d, 0, 0]) AND 0x3F) = 0"
proof -
  have "unat (base64_triple [d, e, 0]) = (unat d * 1024 + unat e * 4) * 64"
    "unat (base64_triple [d, 0, 0]) = (unat d * 16 * 64) * 64" by (simp_all add: base64_triple_unat)
  then show "unat (base64_triple [d, e, 0] AND 0x3F) = 0" "unat (drop_bit 6 (base64_triple [d, 0, 0]) AND 0x3F) = 0"
    by (simp_all add: unat_and63 unat_drop_bit)
qed

lemma encode_loop_groups:
  "encode_loop alphabet True [d] = take 2 (group_chars alphabet (base64_triple [d, 0, 0]))"
  "encode_loop alphabet True [d, e] = take 3 (group_chars alphabet (base64_triple [d, e, 0]))"
  "encode_loop alphabet True (d # e # f # ds) = group_chars alphabet (base64_triple [d, e, f]) @ encode_loop alphabet True ds"
  unfolding base64_triple_short [symmetric]
  by (simp_all add: group_chars_def Let_def base64_triple_def)

lemma quad_group:
  assumes "alphabet = k_standard \<or> alphabet = k_url_safe"
  shows "base64_quad (map base64_value (group_chars alphabet (base64_triple [d, e, f]))) = base64_triple [d, e, f]"
    "base64_quad (map base64_value (take 3 (group_chars alphabet (base64_triple [d, e, 0])))) = base64_triple [d, e, 0]"
    "base64_quad (map base64_value (take 2 (group_chars alphabet (base64_triple [d, 0, 0])))) = base64_triple [d, 0, 0]"
proof -
  show "base64_quad (map base64_value (group_chars alphabet (base64_triple [d, e, f]))) = base64_triple [d, e, f]"
    for d e f unfolding group_values [OF assms] by (rule base64_quad_triple [OF base64_triple_lt])
  note full = base64_quad_triple [OF base64_triple_lt]
  show "base64_quad (map base64_value (take 3 (group_chars alphabet (base64_triple [d, e, 0])))) = base64_triple [d, e, 0]"
    using full [of d "[e, 0]"] unfolding take_map [symmetric] group_values [OF assms] triple_low_digits
    by (simp add: base64_quad_pad)
  show "base64_quad (map base64_value (take 2 (group_chars alphabet (base64_triple [d, 0, 0])))) = base64_triple [d, 0, 0]"
    using full [of d "[0, 0]"] unfolding take_map [symmetric] group_values [OF assms] triple_low_digits
    by (simp add: base64_quad_pad)
qed

lemma decode_loop_encode:
  assumes "alphabet = k_standard \<or> alphabet = k_url_safe"
  shows "length out + length d \<le> cap \<Longrightarrow> decode_loop cap out (encode_loop alphabet True d) = (True, out @ d)"
proof (induction d arbitrary: out rule: length_induct)
  case (1 d)
  note nonneg = group_values_nonneg [OF assms]
  have len: "length (group_chars alphabet t) = 4" "group_chars alphabet t \<noteq> []" for t by (simp_all add: group_chars_def)
  have sub: "list_all (\<lambda>c. 0 \<le> base64_value c) (take n (group_chars alphabet t))" for n t
    using nonneg [of t] by (auto simp: list_all_iff dest: in_set_takeD)
  consider "d = []" | x where "d = [x]" | x y where "d = [x, y]" | x y z ds where "d = x # y # z # ds"
    by (metis list.exhaust)
  then show ?case
  proof cases
    case (2 x)
    let ?g = "take 2 (group_chars alphabet (base64_triple [x, 0, 0]))"
    have "decode_loop cap out ?g = decode_loop cap (out @ take 1 [x, 0, 0]) (drop 4 ?g)"
      using decode_loop_group [of ?g out cap] 1(2) 2 len sub [of 2] quad_group(3) [OF assms, of x] triple_bytes3 [of x 0 0 "[]"]
      by (auto simp: Let_def take_Suc)
    then show ?thesis unfolding 2 encode_loop_groups by (simp add: len)
  next
    case (3 x y)
    let ?g = "take 3 (group_chars alphabet (base64_triple [x, y, 0]))"
    have "decode_loop cap out ?g = decode_loop cap (out @ take 2 [x, y, 0]) (drop 4 ?g)"
      using decode_loop_group [of ?g out cap] 1(2) 3 len sub [of 3] quad_group(2) [OF assms, of x y] triple_bytes3 [of x y 0 "[]"]
      by (auto simp: Let_def take_Suc)
    then show ?thesis unfolding 3 encode_loop_groups by (simp add: len)
  next
    case (4 x y z ds)
    let ?g = "group_chars alphabet (base64_triple [x, y, z])"
    have "decode_loop cap out (?g @ encode_loop alphabet True ds)
        = decode_loop cap (out @ [x, y, z]) (encode_loop alphabet True ds)"
      using decode_loop_group [of "?g @ encode_loop alphabet True ds" out cap] 1(2) 4 len nonneg
        quad_group(1) [OF assms, of x y z] triple_bytes3 [of x y z "[]"]
      by (auto simp: Let_def min_def)
    moreover have "decode_loop cap (out @ [x, y, z]) (encode_loop alphabet True ds) = (True, (out @ [x, y, z]) @ ds)"
      using 1 4 by (intro 1(1) [rule_format]) auto
    ultimately show ?thesis unfolding 4 encode_loop_groups by simp
  qed simp
qed

section \<open>Which characters the decoder takes\<close>

lemma alphabet_codes:
  "k_standard = map of_nat ([65..<91] @ [97..<123] @ [48..<58] @ [43, 47])"
  "k_url_safe = map of_nat ([65..<91] @ [97..<123] @ [48..<58] @ [45, 95])"
  by (simp_all add: k_standard_def k_url_safe_def upt_rec)

lemma base64_value_nonneg: "0 \<le> base64_value c \<longleftrightarrow> c \<in> set k_standard \<union> set k_url_safe"
proof -
  let ?S = "set ([65..<91] @ [97..<123] @ [48..<58] @ [43, 47] @ [45, 95]) :: nat set"
  have small: "n < 256" if "n \<in> ?S" for n using that by auto
  have S: "set k_standard \<union> set k_url_safe = of_nat ` ?S"
    unfolding alphabet_codes set_map set_append image_Un by blast
  have "c \<in> of_nat ` ?S \<longleftrightarrow> unat c \<in> ?S"
  proof
    assume "c \<in> of_nat ` ?S"
    then obtain n where n: "n \<in> ?S" "c = of_nat n" by (rule imageE)
    then show "unat c \<in> ?S" using small [OF n(1)] by (simp add: unat_of_nat)
  next
    assume "unat c \<in> ?S"
    then have "(of_nat (unat c) :: u8) \<in> of_nat ` ?S" by (rule imageI)
    then show "c \<in> of_nat ` ?S" by simp
  qed
  moreover have "0 \<le> base64_value c \<longleftrightarrow> unat c \<in> ?S"
  proof -
    define n where "n = unat c"
    have "base64_value c = (if 65 \<le> n \<and> n \<le> 90 then int n - 65 else if 97 \<le> n \<and> n \<le> 122 then int n - 71
        else if 48 \<le> n \<and> n \<le> 57 then int n + 4 else if n = 43 \<or> n = 45 then 62 else if n = 47 \<or> n = 95 then 63 else -1)"
      unfolding base64_value_def word_le_nat_alt word_unat_eq_iff uint_nat n_def by simp
    then have "0 \<le> base64_value c \<longleftrightarrow> (65 \<le> n \<and> n < 91) \<or> (97 \<le> n \<and> n < 123) \<or> (48 \<le> n \<and> n < 58)
        \<or> n = 43 \<or> n = 47 \<or> n = 45 \<or> n = 95" by auto
    then show ?thesis
      unfolding n_def [symmetric] set_append set_upt Un_iff atLeastLessThan_iff list.set insert_iff empty_iff by blast
  qed
  ultimately show ?thesis unfolding S by simp
qed

lemma base64_payload_split:
  obtains k where "t = base64_payload t @ replicate k (asc (CHR ''=''))" "k = length t - length (base64_payload t)"
    "base64_payload t = [] \<or> last (base64_payload t) \<noteq> asc (CHR ''='')"
proof -
  let ?P = "\<lambda>c. c = asc (CHR ''='')"
  have "takeWhile ?P (rev t) = replicate (length (takeWhile ?P (rev t))) (asc (CHR ''=''))"
    by (metis (full_types) replicate_length_same set_takeWhileD)
  moreover have "t = rev (dropWhile ?P (rev t)) @ rev (takeWhile ?P (rev t))"
    by (metis rev_append rev_rev_ident takeWhile_dropWhile_id)
  ultimately have "t = base64_payload t @ replicate (length (takeWhile ?P (rev t))) (asc (CHR ''=''))"
    unfolding base64_payload_def by (metis rev_replicate)
  moreover from this have "length (takeWhile ?P (rev t)) = length t - length (base64_payload t)"
    by (metis add_diff_cancel_left' length_append length_replicate)
  moreover have "base64_payload t = [] \<or> last (base64_payload t) \<noteq> asc (CHR ''='')"
    using hd_dropWhile [of ?P "rev t"] by (auto simp: base64_payload_def last_rev)
  ultimately show thesis by (rule that)
qed

section \<open>Properties\<close>

text \<open>
  C37. Decoding an encoding gives the bytes back, for both alphabets. Whenever the text and its
  terminating NUL fit the buffer, the encoder returns the text's length, and the decoder, given room
  for the bytes, answers true and writes exactly them; text in the unpadded alphabet has to be
  offered to the lenient form.
\<close>

theorem base64_roundtrip:
  assumes "encoded_chars (length d) url_safe < out_len" "length d \<le> cap" "form = BASE64_ANY \<or> \<not> url_safe"
  shows "\<exists>t. inkwell_base64_encode (Some d) url_safe out_len = (length t, Some t) \<and> length t < out_len
      \<and> length t < encoded_max (length d) \<and> inkwell_base64_decode (Some t) form cap = (True, d)"
proof -
  define alphabet where "alphabet = (if url_safe then k_url_safe else k_standard)"
  define t where "t = encode_loop alphabet url_safe d"
  have alph: "alphabet = k_standard \<or> alphabet = k_url_safe" by (simp add: alphabet_def)
  have len: "length t = encoded_chars (length d) url_safe" unfolding t_def by (rule encode_loop_length)
  have payload: "base64_payload t = encode_loop alphabet True d" unfolding t_def by (rule payload_encode_loop [OF alph])
  have plain: "length t - length (encode_loop alphabet True d) \<le> 2"
    unfolding t_def by (cases url_safe) (auto simp: encode_loop_padding pad_chars_def)
  have mod1: "(4 * length d + 2) div 3 mod 4 \<noteq> 1" by presburger
  have padded: "form = BASE64_PADDED \<Longrightarrow> length t mod 4 = 0"
    using assms(3) len by (auto simp: encoded_chars_def Let_def)
  have "inkwell_base64_decode (Some t) form cap = decode_loop cap [] (encode_loop alphabet True d)"
    using padded plain mod1 by (auto simp: inkwell_base64_decode_def payload Let_def encode_loop_plain_length)
  then have "inkwell_base64_decode (Some t) form cap = (True, d)"
    using decode_loop_encode [OF alph, of "[]" d cap] assms(2) by simp
  moreover have "length t < encoded_max (length d)"
    using encoded_chars_le [of "length d" url_safe] unfolding len encoded_max_def by linarith
  ultimately show ?thesis using assms(1) len
    by (intro exI [of _ t]) (auto simp: inkwell_base64_encode_def t_def alphabet_def Let_def)
qed

theorem base64_roundtrip_witness:
  "\<exists>t. inkwell_base64_encode (Some [1, 2, 3, 4]) True 10 = (length t, Some t) \<and> length t < 10
      \<and> length t < encoded_max (length [1, 2, 3, 4 :: u8]) \<and> inkwell_base64_decode (Some t) BASE64_ANY 4 = (True, [1, 2, 3, 4])"
  by (rule base64_roundtrip) (simp_all add: encoded_chars_def)

text \<open>
  C38. The decoder answers true exactly for well-formed text: at most two \<open>=\<close>, all of them at the end;
  every other character in one of the two alphabets; a number of those that some bytes have; a whole
  number of groups when padding is demanded; and room for the bytes carried. It then has written
  three bytes for every four characters.
\<close>

theorem base64_decode_accepts:
  "(fst (inkwell_base64_decode (Some t) form cap) \<longleftrightarrow>
     (form = BASE64_PADDED \<longrightarrow> length t mod 4 = 0) \<and>
     (\<exists>p k. t = p @ replicate k (asc (CHR ''='')) \<and> k \<le> 2 \<and> length p mod 4 \<noteq> 1
        \<and> set p \<subseteq> set k_standard \<union> set k_url_safe \<and> length p * 3 div 4 \<le> cap))
   \<and> (fst (inkwell_base64_decode (Some t) form cap) \<longrightarrow>
        length (snd (inkwell_base64_decode (Some t) form cap)) = length (base64_payload t) * 3 div 4)"
    (is "(?accepts \<longleftrightarrow> ?form \<and> (\<exists>p k. ?good p k)) \<and> (_ \<longrightarrow> ?written)")
proof -
  have alph: "list_all (\<lambda>c. 0 \<le> base64_value c) p \<longleftrightarrow> set p \<subseteq> set k_standard \<union> set k_url_safe" for p
    by (auto simp: list_all_iff base64_value_nonneg)
  obtain k where k: "t = base64_payload t @ replicate k (asc (CHR ''=''))" "k = length t - length (base64_payload t)"
    by (rule base64_payload_split)
  have forward: "?form \<and> ?good (base64_payload t) k \<and> ?written" if a: ?accepts
  proof -
    from a have "form = BASE64_PADDED \<longrightarrow> length t mod 4 = 0" "k \<le> 2" "length (base64_payload t) mod 4 \<noteq> 1"
      and run: "inkwell_base64_decode (Some t) form cap = decode_loop cap [] (base64_payload t)"
      using k(2) by (auto simp: inkwell_base64_decode_def Let_def split: if_splits)
    then show ?thesis
      using a k(1) decode_loop_accepts [of "base64_payload t" "[]" cap] alph [of "base64_payload t"]
      by (simp add: run)
  qed
  have backward: ?accepts if form: ?form and p: "?good p k" for p k
  proof -
    have "asc (CHR ''='') \<notin> set p" using p alphabet_no_pad by blast
    then have payload: "base64_payload t = p" using p payload_strips by blast
    moreover have "length t - length p \<le> 2" using p by simp
    ultimately have run: "inkwell_base64_decode (Some t) form cap = decode_loop cap [] p"
      using form p by (simp only: inkwell_base64_decode_def option.case Let_def) auto
    show ?accepts unfolding run
      using decode_loop_accepts [of p "[]" cap] p alph [of p] by simp
  qed
  have "?accepts \<longleftrightarrow> ?form \<and> (\<exists>p k. ?good p k)"
  proof
    assume ?accepts
    from forward [OF this] show "?form \<and> (\<exists>p k. ?good p k)" by (elim conjE) (intro conjI exI, assumption+)
  next
    assume "?form \<and> (\<exists>p k. ?good p k)"
    then show ?accepts by (elim conjE exE) (rule backward, simp_all)
  qed
  with forward show ?thesis by simp
qed

theorem base64_decode_accepts_witness:
  "\<not> fst (inkwell_base64_decode (Some (ascii ''QUI'')) BASE64_PADDED 8)"
  using base64_decode_accepts [of "ascii ''QUI''" BASE64_PADDED 8] by simp

text \<open>
  The header promises that a refusal writes nothing; a refused later group leaves the bytes of the
  earlier ones in the buffer.
\<close>

lemma base64_refusal_leaves_bytes:
  "inkwell_base64_decode (Some (ascii ''QUJD!AAA'')) BASE64_PADDED 6 = (False, ascii ''ABC'')"
  by (simp add: inkwell_base64_decode_def base64_payload_def Let_def decode_loop.simps base64_value_def base64_quad_def)

end
