(* ===== verification/Inkwell_Decimal.thy ===== *)
theory Inkwell_Decimal
  imports Inkwell_Prelude
begin

text \<open>
  Decimal text, shared by the readers of numbers (versions, JSON, Content-Length): which bytes are
  digits (\<open>isdigit\<close>), the number a run of digits spells, and the shortest text of a number.
\<close>

definition is_digit :: "u8 \<Rightarrow> bool" where
  "is_digit c = (asc (CHR ''0'') \<le> c \<and> c \<le> asc (CHR ''9''))"

definition digit_val :: "u8 \<Rightarrow> nat" where
  "digit_val c = unat c - 48"

definition digits_value :: "bytes \<Rightarrow> nat" where
  "digits_value ds = foldl (\<lambda>v c. v * 10 + digit_val c) 0 ds"

fun decimal :: "nat \<Rightarrow> bytes" where
  "decimal n = (if n < 10 then [of_nat (48 + n)] else decimal (n div 10) @ [of_nat (48 + n mod 10)])"

declare decimal.simps [simp del]

lemma is_digit_unat: "is_digit c \<longleftrightarrow> 48 \<le> unat c \<and> unat c \<le> 57"
  by (simp add: is_digit_def word_le_nat_alt)

lemma digit_val_less: "is_digit c \<Longrightarrow> digit_val c < 10"
  by (auto simp: is_digit_unat digit_val_def)

lemma digit_char: "n < 10 \<Longrightarrow> is_digit (of_nat (48 + n)) \<and> digit_val (of_nat (48 + n)) = n"
  unfolding is_digit_unat digit_val_def unat_of_nat by simp

lemma digit_of_val: "is_digit c \<Longrightarrow> of_nat (48 + digit_val c) = c"
proof -
  assume "is_digit c"
  then have "48 + digit_val c = unat c" by (auto simp: is_digit_unat digit_val_def)
  then show ?thesis by (simp only: of_nat_unat ucast_id)
qed

lemma digits_value_Nil [simp]: "digits_value [] = 0"
  by (simp add: digits_value_def)

lemma digits_value_snoc [simp]: "digits_value (ds @ [c]) = digits_value ds * 10 + digit_val c"
  by (simp add: digits_value_def)

lemma digits_value_single [simp]: "digits_value [c] = digit_val c"
  by (simp add: digits_value_def)

lemma digits_value_less: "list_all is_digit ds \<Longrightarrow> digits_value ds < 10 ^ length ds"
proof (induction ds rule: rev_induct)
  case (snoc c ds)
  have "digit_val c < 10" "digits_value ds + 1 \<le> 10 ^ length ds"
    using snoc digit_val_less by (auto simp: Suc_le_eq)
  then show ?case by simp
qed simp

lemma digits_value_append: "digits_value (xs @ ys) = digits_value xs * 10 ^ length ys + digits_value ys"
proof (induction ys rule: rev_induct)
  case (snoc y ys)
  then show ?case unfolding append_assoc [symmetric] digits_value_snoc by (simp add: algebra_simps)
qed simp

lemma decimal_digits: "list_all is_digit (decimal n)"
proof (induction n rule: decimal.induct)
  case (1 n)
  then show ?case using digit_char [of n] digit_char [of "n mod 10"] by (subst decimal.simps) auto
qed

lemma decimal_nonempty [simp]: "decimal n \<noteq> []"
  by (subst decimal.simps) simp

lemma digits_value_decimal [simp]: "digits_value (decimal n) = n"
proof (induction n rule: decimal.induct)
  case (1 n)
  show ?case
  proof (cases "n < 10")
    case True
    then show ?thesis using digit_char [of n] by (subst decimal.simps) (simp del: of_nat_add)
  next
    case False
    have "digit_val (of_nat (48 + n mod 10)) = n mod 10" using digit_char [of "n mod 10"] by simp
    then show ?thesis using False 1 by (subst decimal.simps) (simp del: of_nat_add)
  qed
qed

lemma decimal_length: "0 < k \<Longrightarrow> n < 10 ^ k \<Longrightarrow> length (decimal n) \<le> k"
proof (induction n arbitrary: k rule: decimal.induct)
  case (1 n)
  show ?case
  proof (cases "n < 10")
    case True
    then show ?thesis using 1(2) by (subst decimal.simps) simp
  next
    case False
    then obtain j where j: "k = Suc j" "0 < j"
      using 1(2,3) by (cases k; cases "k - 1") auto
    then have "n div 10 < 10 ^ j" using 1(3) by (simp add: less_mult_imp_div_less mult.commute)
    then show ?thesis using 1(1) [OF False] j False by (subst decimal.simps) simp
  qed
qed

text \<open>A maximal run of digits followed by something else.\<close>

lemma takeWhile_digits:
  "list_all is_digit ds \<Longrightarrow> rest = [] \<or> \<not> is_digit (hd rest) \<Longrightarrow>
   takeWhile is_digit (ds @ rest) = ds \<and> dropWhile is_digit (ds @ rest) = rest"
  by (cases rest) (auto simp: list_all_iff takeWhile_append dropWhile_append)

end
