(* ===== verification/Version.thy ===== *)
theory Version
  imports Inkwell_Decimal "HOL-Library.List_Lexorder" "HOL-Library.Product_Lexorder" "HOL-Library.Option_ord"
begin

text \<open>
  Semantic versions, ordered (\<open>src/base/version.c\<close>). A C string is the list of its bytes before the
  terminating NUL; a pointer into it is the rest of the list. The comparison is related to an order
  on precedence keys, so that it is a total preorder, and to SemVer's precedence on printed versions.
\<close>

section \<open>Model\<close>

definition ident_char :: "u8 \<Rightarrow> bool" where
  "ident_char c = (is_digit c \<or> (c \<ge> asc (CHR ''a'') \<and> c \<le> asc (CHR ''z''))
     \<or> (c \<ge> asc (CHR ''A'') \<and> c \<le> asc (CHR ''Z'')) \<or> c = asc (CHR ''-''))"

fun identifiers_loop :: "nat \<Rightarrow> bytes \<Rightarrow> bool" where
  "identifiers_loop run [] = (run \<noteq> 0)"
| "identifiers_loop run (c # t) =
     (if c = asc (CHR ''.'') then (if run = 0 then False else identifiers_loop 0 t)
      else if \<not> ident_char c then False
      else identifiers_loop (run + 1) t)"

definition dot_identifiers_are_valid :: "bytes \<Rightarrow> bool" where
  "dot_identifiers_are_valid t = identifiers_loop 0 t"

record semver =
  sv_major :: nat
  sv_minor :: nat
  sv_patch :: nat
  sv_pre :: "bytes option"

text \<open>Digits consumed and the value; the cap keeps it below \<open>10 ^ 9\<close>, so no \<open>unsigned long\<close> wraps.\<close>

fun parse_number_loop :: "nat \<Rightarrow> nat \<Rightarrow> bytes \<Rightarrow> nat \<times> nat" where
  "parse_number_loop used v [] = (used, v)"
| "parse_number_loop used v (c # t) =
     (if is_digit c then parse_number_loop (used + 1) (if v < 100000000 then v * 10 + digit_val c else v) t
      else (used, v))"

definition parse_number :: "bytes \<Rightarrow> nat \<times> nat" where
  "parse_number t = parse_number_loop 0 0 t"

definition is_head :: "u8 \<Rightarrow> bytes \<Rightarrow> bool" where
  "is_head c t = (t \<noteq> [] \<and> hd t = c)"

text \<open>The number after a dot, the one before it having been read; the rest of the string follows.\<close>

definition semver_tail_numbers :: "bytes \<Rightarrow> (nat \<times> nat \<times> bytes) option" where
  "semver_tail_numbers t =
     (if is_head (asc (CHR ''.'')) t then
        (case parse_number (tl t) of (used, minor) \<Rightarrow>
           if used = 0 then None
           else let t = drop (used + 1) t in
             if is_head (asc (CHR ''.'')) t then
               (case parse_number (tl t) of (used, patch) \<Rightarrow>
                  if used = 0 then None else Some (minor, patch, drop (used + 1) t))
             else Some (minor, 0, t))
      else Some (0, 0, t))"

definition semver_suffix :: "bytes \<Rightarrow> bytes option option" where
  "semver_suffix t =
     (if is_head (asc (CHR ''-'')) t then
        let pre = tl t; pre_len = run_len (\<lambda>c. c \<noteq> asc (CHR ''+'')) pre
        in if \<not> dot_identifiers_are_valid (take pre_len pre) then None
           else if pre_len = length pre \<or> dot_identifiers_are_valid (drop (pre_len + 1) pre)
                then Some (Some (take pre_len pre)) else None
      else if is_head (asc (CHR ''+'')) t then
        (if dot_identifiers_are_valid (tl t) then Some None else None)
      else if t = [] then Some None else None)"

definition semver_start :: "bytes \<Rightarrow> bytes" where
  "semver_start t =
     (let t = dropWhile (\<lambda>c. c = SPC \<or> c = TAB) t
      in if is_head (asc (CHR ''v'')) t \<or> is_head (asc (CHR ''V'')) t then tl t else t)"

definition semver_parse :: "bytes option \<Rightarrow> semver option" where
  "semver_parse text =
     (case text of None \<Rightarrow> None
      | Some s \<Rightarrow>
          let t = semver_start s in
          case parse_number t of (used, major) \<Rightarrow>
            if used = 0 then None
            else case semver_tail_numbers (drop used t) of None \<Rightarrow> None
                 | Some (minor, patch, rest) \<Rightarrow>
                     (case semver_suffix rest of None \<Rightarrow> None
                      | Some pre \<Rightarrow> Some \<lparr>sv_major = major, sv_minor = minor, sv_patch = patch, sv_pre = pre\<rparr>))"

definition pre_next :: "bytes \<Rightarrow> (bytes \<times> bytes) option" where
  "pre_next cursor =
     (if cursor = [] then None
      else let len = run_len (\<lambda>c. c \<noteq> asc (CHR ''.'')) cursor in Some (take len cursor, drop (len + 1) cursor))"

definition pre_is_numeric :: "bytes \<Rightarrow> bool" where
  "pre_is_numeric t = (t \<noteq> [] \<and> list_all is_digit t)"

text \<open>The library's \<open>strncmp\<close>: unsigned bytes up to the first difference, a NUL or the limit.\<close>

fun strncmp :: "bytes \<Rightarrow> bytes \<Rightarrow> nat \<Rightarrow> int" where
  "strncmp (a # as) (b # bs) (Suc n) =
     (if a \<noteq> b then uint a - uint b else if a = 0 then 0 else strncmp as bs n)"
| "strncmp _ _ _ = 0"

function compare_parts :: "bytes \<Rightarrow> bytes \<Rightarrow> int" where
  "compare_parts a_cursor b_cursor =
     (case (pre_next a_cursor, pre_next b_cursor) of
        (None, None) \<Rightarrow> 0
      | (None, Some _) \<Rightarrow> -1
      | (Some _, None) \<Rightarrow> 1
      | (Some (a_part, a_rest), Some (b_part, b_rest)) \<Rightarrow>
          let a_num = pre_is_numeric a_part; b_num = pre_is_numeric b_part in
          if a_num \<and> b_num then
            let a_value = snd (parse_number a_part); b_value = snd (parse_number b_part) in
            if a_value \<noteq> b_value then (if a_value < b_value then -1 else 1)
            else compare_parts a_rest b_rest
          else if a_num \<noteq> b_num then (if a_num then -1 else 1)
          else let diff = strncmp a_part b_part (min (length a_part) (length b_part)) in
            if diff \<noteq> 0 then (if diff < 0 then -1 else 1)
            else if length a_part \<noteq> length b_part then (if length a_part < length b_part then -1 else 1)
            else compare_parts a_rest b_rest)"
  by pat_completeness auto
termination
  by (relation "measure (\<lambda>(a, _). length a)") (auto simp: pre_next_def Let_def split: if_splits)

declare compare_parts.simps [simp del]

definition compare_prerelease :: "semver \<Rightarrow> semver \<Rightarrow> int" where
  "compare_prerelease a b =
     (case (sv_pre a, sv_pre b) of
        (None, None) \<Rightarrow> 0 | (None, Some _) \<Rightarrow> 1 | (Some _, None) \<Rightarrow> -1
      | (Some p, Some q) \<Rightarrow> compare_parts p q)"

definition inkwell_version_compare :: "bytes option \<Rightarrow> bytes option \<Rightarrow> int" where
  "inkwell_version_compare a b =
     (case (semver_parse a, semver_parse b) of
        (None, None) \<Rightarrow> 0 | (Some _, None) \<Rightarrow> 1 | (None, Some _) \<Rightarrow> -1
      | (Some left, Some right) \<Rightarrow>
          if sv_major left \<noteq> sv_major right then (if sv_major left < sv_major right then -1 else 1)
          else if sv_minor left \<noteq> sv_minor right then (if sv_minor left < sv_minor right then -1 else 1)
          else if sv_patch left \<noteq> sv_patch right then (if sv_patch left < sv_patch right then -1 else 1)
          else compare_prerelease left right)"

definition inkwell_version_is_prerelease :: "bytes option \<Rightarrow> bool" where
  "inkwell_version_is_prerelease version =
     (case semver_parse version of None \<Rightarrow> False | Some parsed \<Rightarrow> sv_pre parsed \<noteq> None)"

section \<open>Precedence as an order\<close>

text \<open>
  A prerelease identifier compares as a number or as bytes, numbers first; a release outranks every
  prerelease of its numbers; a string that does not parse is below everything that does.
\<close>

datatype ident = Numeric nat | Alnum bytes

instantiation ident :: linorder
begin

definition less_eq_ident :: "ident \<Rightarrow> ident \<Rightarrow> bool" where
  "less_eq_ident a b = (case (a, b) of (Numeric m, Numeric n) \<Rightarrow> m \<le> n | (Numeric _, Alnum _) \<Rightarrow> True
     | (Alnum _, Numeric _) \<Rightarrow> False | (Alnum s, Alnum t) \<Rightarrow> s \<le> t)"

definition less_ident :: "ident \<Rightarrow> ident \<Rightarrow> bool" where
  "less_ident a b = (case (a, b) of (Numeric m, Numeric n) \<Rightarrow> m < n | (Numeric _, Alnum _) \<Rightarrow> True
     | (Alnum _, Numeric _) \<Rightarrow> False | (Alnum s, Alnum t) \<Rightarrow> s < t)"

instance
  by standard (auto simp: less_eq_ident_def less_ident_def split: ident.splits)

end

datatype rank = Pre "ident list" | Release

instantiation rank :: linorder
begin

definition less_eq_rank :: "rank \<Rightarrow> rank \<Rightarrow> bool" where
  "less_eq_rank a b = (case (a, b) of (Pre s, Pre t) \<Rightarrow> s \<le> t | (_, Release) \<Rightarrow> True | (Release, Pre _) \<Rightarrow> False)"

definition less_rank :: "rank \<Rightarrow> rank \<Rightarrow> bool" where
  "less_rank a b = (case (a, b) of (Pre s, Pre t) \<Rightarrow> s < t | (Pre _, Release) \<Rightarrow> True | (Release, _) \<Rightarrow> False)"

instance
  by standard (auto simp: less_eq_rank_def less_rank_def split: rank.splits)

end

lemmas order_cases = less_ident_def less_rank_def

definition order_sign :: "'a::linorder \<Rightarrow> 'a \<Rightarrow> int" where
  "order_sign a b = (if a < b then -1 else if a = b then 0 else 1)"

definition ident_of :: "bytes \<Rightarrow> ident" where
  "ident_of p = (if pre_is_numeric p then Numeric (snd (parse_number p)) else Alnum p)"

function idents :: "bytes \<Rightarrow> ident list" where
  "idents t = (case pre_next t of None \<Rightarrow> [] | Some (p, rest) \<Rightarrow> ident_of p # idents rest)"
  by pat_completeness auto
termination
  by (relation "measure length") (auto simp: pre_next_def Let_def split: if_splits)

declare idents.simps [simp del]

definition precedence :: "bytes option \<Rightarrow> (nat \<times> nat \<times> nat \<times> rank) option" where
  "precedence s = map_option (\<lambda>v. (sv_major v, sv_minor v, sv_patch v,
     case sv_pre v of None \<Rightarrow> Release | Some p \<Rightarrow> Pre (idents p))) (semver_parse s)"

section \<open>The comparison follows the order\<close>

lemma order_sign_Cons: "order_sign (x # a) (y # b) = (if x = y then order_sign a b else order_sign x y)"
  by (auto simp: order_sign_def)

lemma order_sign_Nil: "order_sign [] (y # b) = -1" "order_sign (x # a) [] = 1" "order_sign x x = 0"
  by (auto simp: order_sign_def)

lemma strncmp_order:
  "0 \<notin> set a \<Longrightarrow> (let diff = strncmp a b (min (length a) (length b)) in
     if diff \<noteq> 0 then (if diff < 0 then -1 else 1)
     else if length a \<noteq> length b then (if length a < length b then -1 else 1) else 0) = order_sign a b"
proof (induction a arbitrary: b)
  case Nil
  then show ?case by (cases b) (auto simp: order_sign_def)
next
  case (Cons x a)
  show ?case
  proof (cases b)
    case Nil
    then show ?thesis by (simp add: order_sign_def)
  next
    case (Cons y b')
    show ?thesis
    proof (cases "x = y")
      case True
      then show ?thesis using Cons.IH [of b'] Cons.prems Cons
        by (auto simp: order_sign_Cons Let_def split: if_splits)
    next
      case False
      then show ?thesis using Cons by (auto simp: order_sign_def word_less_def word_uint_eq_iff)
    qed
  qed
qed

lemma strncmp_zero_same: "0 \<notin> set a \<Longrightarrow> strncmp a b (min (length a) (length b)) = 0 \<Longrightarrow> length a = length b \<Longrightarrow> a = b"
  using strncmp_order [of a b] by (auto simp: order_sign_def split: if_splits)

lemma compare_parts_order: "0 \<notin> set a \<Longrightarrow> compare_parts a b = order_sign (idents a) (idents b)"
proof (induction a arbitrary: b rule: length_induct)
  case (1 a)
  show ?case
  proof (cases "pre_next a")
    case None
    then show ?thesis
      by (subst compare_parts.simps, subst (1 2) idents.simps) (auto simp: order_sign_Nil split: option.split)
  next
    case a: (Some q)
    obtain p r where q: "q = (p, r)" by (cases q)
    show ?thesis
    proof (cases "pre_next b")
      case None
      then show ?thesis using a q
        by (subst compare_parts.simps, subst (1 2) idents.simps) (auto simp: order_sign_Nil)
    next
      case b: (Some q')
      obtain p' r' where q': "q' = (p', r')" by (cases q')
      have sub: "0 \<notin> set p" "0 \<notin> set r" "length r < length a"
        using 1(2) a q by (auto simp: pre_next_def Let_def dest: in_set_takeD in_set_dropD split: if_splits)
      then have IH: "compare_parts r r' = order_sign (idents r) (idents r')" using 1(1) by blast
      have ids: "idents a = ident_of p # idents r" "idents b = ident_of p' # idents r'"
        using a q b q' by (subst idents.simps, simp)+
      have sign: "order_sign (Alnum p) (Alnum p') = order_sign p p'"
        "order_sign (Numeric n) (Numeric m) = order_sign n m"
        "order_sign (Numeric n) (Alnum p') = -1" "order_sign (Alnum p) (Numeric m) = 1" for n m
        by (simp_all add: order_sign_def less_ident_def)
      note strn = strncmp_order [OF sub(1), of p', unfolded Let_def] strncmp_zero_same [OF sub(1), of p']
      show ?thesis unfolding ids order_sign_Cons ident_of_def
        using a b q q' IH strn
        by (subst compare_parts.simps) (auto simp: sign Let_def order_sign_Nil order_sign_def [of "_ :: nat"] split: if_splits)
    qed
  qed
qed

lemma identifiers_loop_nonzero: "identifiers_loop run t \<Longrightarrow> 0 \<notin> set t"
  by (induction run t rule: identifiers_loop.induct) (auto simp: ident_char_def is_digit_def split: if_splits)

lemma semver_parse_pre: "semver_parse s = Some v \<Longrightarrow> sv_pre v = Some p \<Longrightarrow> dot_identifiers_are_valid p"
  by (auto simp: semver_parse_def semver_suffix_def Let_def split: option.splits prod.splits if_splits)

lemma version_compare_order: "inkwell_version_compare a b = order_sign (precedence a) (precedence b)"
proof (cases "semver_parse a")
  case None
  then show ?thesis
    by (auto simp: inkwell_version_compare_def precedence_def order_sign_def split: option.split)
next
  case a: (Some v)
  show ?thesis
  proof (cases "semver_parse b")
    case None
    then show ?thesis using a
      by (auto simp: inkwell_version_compare_def precedence_def order_sign_def)
  next
    case b: (Some w)
    have "compare_parts p q = order_sign (idents p) (idents q)" if "sv_pre v = Some p" for p q
      using semver_parse_pre [OF a that] identifiers_loop_nonzero compare_parts_order
      by (auto simp: dot_identifiers_are_valid_def)
    then have "compare_prerelease v w = order_sign (case sv_pre v of None \<Rightarrow> Release | Some p \<Rightarrow> Pre (idents p))
        (case sv_pre w of None \<Rightarrow> Release | Some p \<Rightarrow> Pre (idents p))"
      by (auto simp: compare_prerelease_def order_sign_def less_rank_def split: option.split)
    then show ?thesis using a b
      by (auto simp: inkwell_version_compare_def precedence_def order_sign_def)
  qed
qed

section \<open>Reading printed versions\<close>

text \<open>A run of at most nine digits is read exactly; a longer one is capped below \<open>10 ^ 9\<close>.\<close>

lemma parse_number_loop_less: "v < 1000000000 \<Longrightarrow> snd (parse_number_loop used v t) < 1000000000"
proof (induction used v t rule: parse_number_loop.induct)
  case (2 used v c t)
  then show ?case using digit_val_less [of c] by auto
qed simp

lemma parse_number_loop_used: "fst (parse_number_loop used v t) = used + run_len is_digit t"
  by (induction used v t rule: parse_number_loop.induct) auto

lemma parse_number_loop_exact:
  "list_all is_digit ds \<Longrightarrow> rest = [] \<or> \<not> is_digit (hd rest) \<Longrightarrow> length ds \<le> k \<Longrightarrow> v < 10 ^ (9 - k) \<Longrightarrow> k \<le> 9 \<Longrightarrow>
   parse_number_loop used v (ds @ rest) = (used + length ds, v * 10 ^ length ds + digits_value ds)"
proof (induction ds arbitrary: used v k)
  case Nil
  then show ?case by (cases rest) auto
next
  case (Cons d ds)
  then obtain j where k: "k = Suc j" by (cases k) auto
  have e: "10 ^ (9 - j) = (10::nat) * 10 ^ (9 - k)" using Cons.prems k
    by (metis Suc_diff_Suc Suc_le_eq power_Suc)
  have v: "v * 10 + digit_val d < 10 ^ (9 - j)"
    using digit_val_less [of d] Cons.prems by (auto simp: e)
  have "(10::nat) ^ (9 - k) \<le> 10 ^ 8" by (rule power_increasing) (use k in auto)
  then have "v < 100000000" using Cons.prems(4) by simp
  moreover have "digits_value (d # ds) = digit_val d * 10 ^ length ds + digits_value ds"
    using digits_value_append [of "[d]" ds] by simp
  ultimately show ?case
    using Cons.IH [of j "v * 10 + digit_val d" "used + 1"] Cons.prems k v by (simp add: algebra_simps)
qed

lemma parse_number_decimal:
  "n < 10 ^ 9 \<Longrightarrow> rest = [] \<or> \<not> is_digit (hd rest) \<Longrightarrow> parse_number (decimal n @ rest) = (length (decimal n), n)"
  unfolding parse_number_def
  using parse_number_loop_exact [OF decimal_digits, of rest n 9 0 0] decimal_length [of 9 n] by simp

text \<open>A version as SemVer has it, and its text.\<close>

record version =
  vn_major :: nat
  vn_minor :: nat
  vn_patch :: nat
  vn_pre :: "ident list"
  vn_build :: "bytes list"

definition ident_bytes :: "bytes \<Rightarrow> bool" where
  "ident_bytes s = (s \<noteq> [] \<and> list_all ident_char s)"

fun print_ident :: "ident \<Rightarrow> bytes" where
  "print_ident (Numeric n) = decimal n"
| "print_ident (Alnum s) = s"

fun wf_ident :: "ident \<Rightarrow> bool" where
  "wf_ident (Numeric n) = (n < 10 ^ 9)"
| "wf_ident (Alnum s) = (ident_bytes s \<and> \<not> list_all is_digit s)"

fun dotted :: "bytes list \<Rightarrow> bytes" where
  "dotted [] = []"
| "dotted [s] = s"
| "dotted (s # t # ts) = s @ asc (CHR ''.'') # dotted (t # ts)"

definition wf_version :: "version \<Rightarrow> bool" where
  "wf_version v = (vn_major v < 10 ^ 9 \<and> vn_minor v < 10 ^ 9 \<and> vn_patch v < 10 ^ 9
     \<and> list_all wf_ident (vn_pre v) \<and> list_all ident_bytes (vn_build v))"

definition print_version :: "version \<Rightarrow> bytes" where
  "print_version v = asc (CHR ''v'') # decimal (vn_major v) @ asc (CHR ''.'') # decimal (vn_minor v)
     @ asc (CHR ''.'') # decimal (vn_patch v)
     @ (if vn_pre v = [] then [] else asc (CHR ''-'') # dotted (map print_ident (vn_pre v)))
     @ (if vn_build v = [] then [] else asc (CHR ''+'') # dotted (vn_build v))"

definition semver_rank :: "version \<Rightarrow> nat \<times> nat \<times> nat \<times> rank" where
  "semver_rank v = (vn_major v, vn_minor v, vn_patch v, if vn_pre v = [] then Release else Pre (vn_pre v))"

lemma ident_char_not: "ident_char c \<Longrightarrow> c \<noteq> asc (CHR ''.'') \<and> c \<noteq> asc (CHR ''+'') \<and> c \<noteq> 0"
  by (auto simp: ident_char_def is_digit_def)

lemma identifiers_loop_run: "list_all ident_char s \<Longrightarrow> identifiers_loop run (s @ t) = identifiers_loop (run + length s) t"
  by (induction s arbitrary: run) (auto dest: ident_char_not)

lemma dotted_valid_loop: "list_all ident_bytes ss \<Longrightarrow> ss \<noteq> [] \<Longrightarrow> identifiers_loop 0 (dotted ss)"
proof (induction ss rule: dotted.induct)
  case (2 s)
  then show ?case using identifiers_loop_run [of s 0 "[]"] by (auto simp: ident_bytes_def)
next
  case (3 s t ts)
  then show ?case using identifiers_loop_run [of s 0] by (auto simp: ident_bytes_def)
qed simp

lemma ident_bytes_print: "wf_ident i \<Longrightarrow> ident_bytes (print_ident i)"
proof (cases i)
  case (Numeric n)
  then show ?thesis using decimal_digits [of n] by (auto simp: ident_bytes_def ident_char_def list_all_iff)
qed auto

lemma ident_of_print: "wf_ident i \<Longrightarrow> ident_of (print_ident i) = i"
proof (cases i)
  case (Numeric n)
  moreover assume "wf_ident i"
  ultimately show ?thesis using parse_number_decimal [of n "[]"] decimal_digits [of n]
    by (simp add: ident_of_def pre_is_numeric_def)
qed (auto simp: ident_of_def pre_is_numeric_def)

lemma pre_next_ident:
  assumes "ident_bytes s" "t = [] \<or> hd t = asc (CHR ''.'')"
  shows "pre_next (s @ t) = Some (s, tl t)"
proof -
  have "run_len (\<lambda>c. c \<noteq> asc (CHR ''.'')) (s @ t) = length s"
    using assms by (intro run_len_append) (auto simp: ident_bytes_def list_all_iff dest: ident_char_not)
  then show ?thesis using assms(1) by (simp add: pre_next_def ident_bytes_def Let_def drop_Suc)
qed

lemma dotted_idents: "list_all wf_ident is \<Longrightarrow> idents (dotted (map print_ident is)) = is"
proof (induction "map print_ident is" arbitrary: "is" rule: dotted.induct)
  case 1
  then show ?case by (subst idents.simps) (simp add: pre_next_def)
next
  case (2 s)
  then obtain i where i: "is = [i]" "s = print_ident i" by auto
  then have "pre_next s = Some (s, [])" using pre_next_ident [of s "[]"] 2 ident_bytes_print by simp
  then show ?case using i 2 ident_of_print
    by (simp, subst idents.simps, simp, subst idents.simps, simp add: pre_next_def)
next
  case (3 s t ts)
  then obtain i js where i: "is = i # js" "s = print_ident i" "t # ts = map print_ident js" by auto
  then have "pre_next (s @ asc (CHR ''.'') # dotted (t # ts)) = Some (s, dotted (t # ts))"
    using pre_next_ident [of s "asc (CHR ''.'') # dotted (t # ts)"] 3(3) ident_bytes_print by simp
  moreover have "idents (dotted (t # ts)) = js" using 3(1) [OF i(3)] i 3(3) by simp
  moreover have "dotted (map print_ident is) = s @ asc (CHR ''.'') # dotted (t # ts)"
    by (simp only: 3(2) [symmetric] dotted.simps)
  ultimately show ?case using i(1,2) 3(3) ident_of_print
    by (simp, subst idents.simps, simp)
qed

lemma dotted_no_plus: "list_all ident_bytes ss \<Longrightarrow> list_all (\<lambda>c. c \<noteq> asc (CHR ''+'')) (dotted ss)"
  by (induction ss rule: dotted.induct) (auto simp: ident_bytes_def list_all_iff dest: ident_char_not)

lemma semver_suffix_print:
  assumes "list_all wf_ident pre" "list_all ident_bytes build"
  shows "semver_suffix ((if pre = [] then [] else asc (CHR ''-'') # dotted (map print_ident pre))
       @ (if build = [] then [] else asc (CHR ''+'') # dotted build))
     = Some (if pre = [] then None else Some (dotted (map print_ident pre)))"
proof -
  let ?p = "dotted (map print_ident pre)"
  let ?b = "if build = [] then [] else asc (CHR ''+'') # dotted build"
  have ids: "list_all ident_bytes (map print_ident pre)"
    using assms(1) by (auto simp: list_all_iff ident_bytes_print)
  have run: "run_len (\<lambda>c. c \<noteq> asc (CHR ''+'')) (?p @ ?b) = length ?p"
    by (rule run_len_append [OF dotted_no_plus [OF ids]]) simp
  have valid: "pre \<noteq> [] \<Longrightarrow> dot_identifiers_are_valid ?p" "build \<noteq> [] \<Longrightarrow> dot_identifiers_are_valid (dotted build)"
    using dotted_valid_loop [OF ids] dotted_valid_loop [OF assms(2)] by (simp_all add: dot_identifiers_are_valid_def)
  show ?thesis
  proof (cases "pre = []")
    case True
    then show ?thesis using valid by (auto simp: semver_suffix_def is_head_def)
  next
    case False
    define b where "b = ?b"
    have "b = [] \<or> dot_identifiers_are_valid (tl b)" using valid(2) by (simp add: b_def)
    then have "semver_suffix (asc (CHR ''-'') # ?p @ b) = Some (Some ?p)"
      using valid(1) [OF False] run unfolding b_def [symmetric]
      by (simp add: semver_suffix_def is_head_def Let_def drop_Suc)
    then show ?thesis using False by (simp add: b_def)
  qed
qed

lemma semver_parse_print:
  assumes "wf_version v"
  shows "semver_parse (Some (print_version v)) = Some \<lparr>sv_major = vn_major v, sv_minor = vn_minor v, sv_patch = vn_patch v,
     sv_pre = (if vn_pre v = [] then None else Some (dotted (map print_ident (vn_pre v))))\<rparr>"
proof -
  define s where "s = (if vn_pre v = [] then [] else asc (CHR ''-'') # dotted (map print_ident (vn_pre v)))
       @ (if vn_build v = [] then [] else asc (CHR ''+'') # dotted (vn_build v))"
  define t2 where "t2 = asc (CHR ''.'') # decimal (vn_patch v) @ s"
  define t1 where "t1 = asc (CHR ''.'') # decimal (vn_minor v) @ t2"
  have stop: "s = [] \<or> \<not> is_digit (hd s)" "\<not> is_digit (hd t1)" "\<not> is_digit (hd t2)"
    by (auto simp: is_digit_def s_def t1_def t2_def)
  have lt: "vn_major v < 10 ^ 9" "vn_minor v < 10 ^ 9" "vn_patch v < 10 ^ 9"
    using assms unfolding wf_version_def by blast+
  have n: "parse_number (decimal (vn_major v) @ t1) = (length (decimal (vn_major v)), vn_major v)"
    "parse_number (decimal (vn_minor v) @ t2) = (length (decimal (vn_minor v)), vn_minor v)"
    "parse_number (decimal (vn_patch v) @ s) = (length (decimal (vn_patch v)), vn_patch v)"
    using stop lt parse_number_decimal by blast+
  have tail: "semver_tail_numbers t1 = Some (vn_minor v, vn_patch v, s)"
    by (simp add: semver_tail_numbers_def is_head_def n t1_def) (simp add: t2_def n)
  have "print_version v = asc (CHR ''v'') # decimal (vn_major v) @ t1"
    by (simp add: print_version_def t1_def t2_def s_def)
  then have "semver_start (print_version v) = decimal (vn_major v) @ t1"
    by (simp add: semver_start_def is_head_def)
  moreover have "semver_suffix s = Some (if vn_pre v = [] then None else Some (dotted (map print_ident (vn_pre v))))"
    unfolding s_def using assms by (intro semver_suffix_print) (simp_all add: wf_version_def)
  ultimately show ?thesis using n(1) tail by (simp add: semver_parse_def)
qed

lemma precedence_print: "wf_version v \<Longrightarrow> precedence (Some (print_version v)) = Some (semver_rank v)"
  using dotted_idents [of "vn_pre v"] by (simp add: precedence_def semver_parse_print semver_rank_def wf_version_def)

section \<open>Properties\<close>

text \<open>
  The comparison is a total preorder on all strings: a string equals itself, swapping the
  arguments negates the answer, and \<open>at most\<close> is transitive. What does not parse is below
  everything that does, so a garbled tag is never newer.
\<close>

theorem version_compare_preorder:
  "inkwell_version_compare a a = 0 \<and> inkwell_version_compare b a = - inkwell_version_compare a b
   \<and> (inkwell_version_compare a b \<le> 0 \<and> inkwell_version_compare b c \<le> 0 \<longrightarrow> inkwell_version_compare a c \<le> 0)
   \<and> (semver_parse a = None \<longrightarrow> semver_parse b \<noteq> None \<longrightarrow> inkwell_version_compare a b = -1)"
proof -
  have "semver_parse a = None \<Longrightarrow> semver_parse b \<noteq> None \<Longrightarrow> precedence a < precedence b"
    by (auto simp: precedence_def)
  then show ?thesis unfolding version_compare_order by (auto simp: order_sign_def split: if_splits)
qed

lemmas version_eval = inkwell_version_compare_def semver_parse_def semver_start_def semver_tail_numbers_def semver_suffix_def
  parse_number_def is_head_def dot_identifiers_are_valid_def ident_char_def is_digit_def digit_val_def Let_def
  compare_prerelease_def

theorem version_compare_preorder_witness:
  "inkwell_version_compare (Some (ascii ''v1.2.0-rc.1'')) (Some (ascii ''1.2'')) = -1
   \<and> inkwell_version_compare (Some (ascii ''1.2'')) (Some (ascii ''v1.2.0-rc.1'')) = 1
   \<and> inkwell_version_compare (Some (ascii ''2.0.0+a..b'')) (Some (ascii ''1.2'')) = -1"
proof -
  have one: "inkwell_version_compare (Some (ascii ''v1.2.0-rc.1'')) (Some (ascii ''1.2'')) = -1" by (simp add: version_eval)
  have bad: "semver_parse (Some (ascii ''2.0.0+a..b'')) = None" "semver_parse (Some (ascii ''1.2'')) \<noteq> None" by (simp_all add: version_eval)
  show ?thesis using one bad
      version_compare_preorder [of "Some (ascii ''v1.2.0-rc.1'')" "Some (ascii ''1.2'')" None]
      version_compare_preorder [of "Some (ascii ''2.0.0+a..b'')" "Some (ascii ''1.2'')" None] by linarith
qed

text \<open>
  C35. On the texts of well-formed versions whose numbers are below \<open>10 ^ 9\<close> the comparison is
  SemVer's precedence: by the three numbers, then a release above its prereleases, then identifier
  by identifier, numbers by value and below words, words by their bytes, build metadata ignored.
\<close>

theorem version_compare_precedence:
  assumes "wf_version v" "wf_version w"
  shows "inkwell_version_compare (Some (print_version v)) (Some (print_version w)) = order_sign (semver_rank v) (semver_rank w)
    \<and> inkwell_version_is_prerelease (Some (print_version v)) = (vn_pre v \<noteq> [])"
  using assms by (simp add: version_compare_order precedence_print inkwell_version_is_prerelease_def semver_parse_print order_sign_def)

theorem version_compare_precedence_witness:
  "let v = \<lparr>vn_major = 1, vn_minor = 10, vn_patch = 0, vn_pre = [Alnum (ascii ''rc''), Numeric 10], vn_build = []\<rparr>;
       w = \<lparr>vn_major = 1, vn_minor = 10, vn_patch = 0, vn_pre = [Alnum (ascii ''rc''), Numeric 9], vn_build = [ascii ''b7'']\<rparr>
   in inkwell_version_compare (Some (print_version v)) (Some (print_version w)) = 1"
  unfolding Let_def
  by (subst version_compare_precedence [THEN conjunct1])
    (simp_all add: wf_version_def ident_bytes_def ident_char_def is_digit_def semver_rank_def order_sign_def less_rank_def less_ident_def)

text \<open>
  Longer numbers are read by dropping the digits after the ninth, so that a ten-digit patch number
  can compare below a nine-digit one.
\<close>

lemma version_cap_misorders:
  "inkwell_version_compare (Some (ascii ''1.0.1000000000'')) (Some (ascii ''1.0.999999999'')) = -1"
  by (simp add: version_eval)

end
