(* ===== verification/Block_Stream.thy ===== *)
theory Block_Stream
  imports Inkwell_Prelude
begin

text \<open>
  What the two streaming digests of the library share: a context that buffers up to a block of 64
  bytes and feeds whole blocks to a compression function. \<open>blocks_fold\<close> is the reference, which
  sees the message at once; the locale \<open>block_absorb\<close> relates the buffering loop to it, and the
  locale \<open>block_stream\<close> an update operation and the loop that pads with zero bytes.
\<close>

function blocks_fold :: "('h \<Rightarrow> bytes \<Rightarrow> 'h) \<Rightarrow> 'h \<Rightarrow> bytes \<Rightarrow> 'h \<times> bytes" where
  "blocks_fold compress h xs =
     (if length xs < 64 then (h, xs) else blocks_fold compress (compress h (take 64 xs)) (drop 64 xs))"
  by pat_completeness auto
termination
  by (relation "measure (\<lambda>(_, _, xs). length xs)") auto

declare blocks_fold.simps [simp del]

lemma blocks_fold_short: "length xs < 64 \<Longrightarrow> blocks_fold compress h xs = (h, xs)"
  by (simp add: blocks_fold.simps)

lemma blocks_fold_block:
  "length b = 64 \<Longrightarrow> blocks_fold compress h (b @ xs) = blocks_fold compress (compress h b) xs"
  by (subst blocks_fold.simps) simp

lemma blocks_fold_pending: "snd (blocks_fold compress h xs) = drop (length xs div 64 * 64) xs"
proof (induction compress h xs rule: blocks_fold.induct)
  case (1 compress h xs)
  show ?case
  proof (cases "length xs < 64")
    case False
    then have "(length xs - 64) div 64 * 64 + 64 = length xs div 64 * 64" by (simp add: le_div_geq)
    then show ?thesis using False 1 by (subst blocks_fold.simps) simp
  qed (simp add: blocks_fold_short)
qed

lemma blocks_fold_pending_length: "length (snd (blocks_fold compress h xs)) = length xs mod 64"
  by (simp add: blocks_fold_pending minus_div_mult_eq_mod)

lemma blocks_fold_append:
  "blocks_fold compress h (xs @ ys) =
     blocks_fold compress (fst (blocks_fold compress h xs)) (snd (blocks_fold compress h xs) @ ys)"
proof (induction compress h xs rule: blocks_fold.induct)
  case (1 compress h xs)
  show ?case
  proof (cases "length xs < 64")
    case False
    then have "blocks_fold compress h (xs @ ys) = blocks_fold compress (compress h (take 64 xs)) (drop 64 xs @ ys)"
      using blocks_fold_block [of "take 64 xs" compress h "drop 64 xs @ ys"]
      by (simp add: append_assoc [symmetric] del: append_assoc)
    moreover have "blocks_fold compress h xs = blocks_fold compress (compress h (take 64 xs)) (drop 64 xs)"
      using False by (subst blocks_fold.simps) simp
    ultimately show ?thesis using 1 False by simp
  qed (simp add: blocks_fold_short)
qed

locale block_absorb =
  fixes compress :: "'h \<Rightarrow> bytes \<Rightarrow> 'h"
    and absorb :: "'c \<Rightarrow> bytes \<Rightarrow> 'c"
    and chain :: "'c \<Rightarrow> 'h"
    and pending :: "'c \<Rightarrow> bytes"
    and wf_ctx :: "'c \<Rightarrow> bool"
  assumes pending_lt: "wf_ctx c \<Longrightarrow> length (pending c) < 64"
    and absorb_Nil: "absorb c [] = c"
    and absorb_step: "wf_ctx c \<Longrightarrow> d \<noteq> [] \<Longrightarrow>
      \<exists>c'. absorb c d = absorb c' (drop (64 - length (pending c)) d) \<and> wf_ctx c'
        \<and> chain c' = (if length (pending c) + length d < 64 then chain c
                     else compress (chain c) (pending c @ take (64 - length (pending c)) d))
        \<and> pending c' = (if length (pending c) + length d < 64 then pending c @ d else [])"
begin

lemma absorb_fold:
  "wf_ctx c \<Longrightarrow> wf_ctx (absorb c d)
     \<and> (chain (absorb c d), pending (absorb c d)) = blocks_fold compress (chain c) (pending c @ d)"
proof (induction d arbitrary: c rule: length_induct)
  case (1 d)
  show ?case
  proof (cases "d = []")
    case True
    then show ?thesis using 1(2) pending_lt by (simp add: absorb_Nil blocks_fold_short)
  next
    case False
    obtain c' where c': "absorb c d = absorb c' (drop (64 - length (pending c)) d)" "wf_ctx c'"
      "chain c' = (if length (pending c) + length d < 64 then chain c
                     else compress (chain c) (pending c @ take (64 - length (pending c)) d))"
      "pending c' = (if length (pending c) + length d < 64 then pending c @ d else [])"
      using absorb_step [OF 1(2) False] by blast
    have p: "length (pending c) < 64" by (rule pending_lt [OF 1(2)])
    show ?thesis
    proof (cases "length (pending c) + length d < 64")
      case True
      then have "absorb c d = c'" using c' absorb_Nil by simp
      then show ?thesis using True c' by (simp add: blocks_fold_short)
    next
      case False
      let ?r = "drop (64 - length (pending c)) d"
      have "length ?r < length d" using p False \<open>d \<noteq> []\<close> by (cases d) auto
      then have IH: "wf_ctx (absorb c' ?r)" "(chain (absorb c' ?r), pending (absorb c' ?r))
          = blocks_fold compress (chain c') (pending c' @ ?r)"
        using 1(1) c'(2) by blast+
      have "blocks_fold compress (chain c) (pending c @ d)
          = blocks_fold compress (chain c) ((pending c @ take (64 - length (pending c)) d) @ ?r)" by simp
      also have "\<dots> = blocks_fold compress (compress (chain c) (pending c @ take (64 - length (pending c)) d)) ?r"
        by (rule blocks_fold_block) (use p False in simp)
      finally show ?thesis using IH c' False by simp
    qed
  qed
qed

end

text \<open>The zero bytes between the end-of-message byte and the length.\<close>

definition pad_count :: "nat \<Rightarrow> nat" where
  "pad_count n = (119 - n mod 64) mod 64"

lemma pad_count_spec: "(n + 1 + pad_count n) mod 64 = 56"
proof -
  obtain r where r: "n mod 64 = r" "r < 64" by simp
  have "(n + 1 + pad_count n) mod 64 = (r + 1 + (119 - r) mod 64) mod 64"
    by (metis pad_count_def r(1) mod_add_left_eq add.assoc)
  also have "\<dots> = (r + 1 + (119 - r)) mod 64" by (rule mod_add_right_eq)
  also have "\<dots> = 56" using r by simp
  finally show ?thesis .
qed

locale block_stream =
  fixes compress :: "'h \<Rightarrow> bytes \<Rightarrow> 'h"
    and update :: "'c \<Rightarrow> bytes \<Rightarrow> 'c"
    and zero_loop :: "'c \<Rightarrow> 'c"
    and chain :: "'c \<Rightarrow> 'h"
    and pending :: "'c \<Rightarrow> bytes"
    and wf_ctx :: "'c \<Rightarrow> bool"
  assumes stream_pending_lt: "wf_ctx c \<Longrightarrow> length (pending c) < 64"
    and update_fold: "wf_ctx c \<Longrightarrow> wf_ctx (update c d)
      \<and> (chain (update c d), pending (update c d)) = blocks_fold compress (chain c) (pending c @ d)"
    and zero_loop_eq: "wf_ctx c \<Longrightarrow> zero_loop c = (if length (pending c) = 56 then c else zero_loop (update c [0]))"
begin

lemma updates_fold:
  "wf_ctx c \<Longrightarrow> wf_ctx (foldl update c ds)
     \<and> (chain (foldl update c ds), pending (foldl update c ds)) = blocks_fold compress (chain c) (pending c @ concat ds)"
proof (induction ds arbitrary: c)
  case Nil
  then show ?case using stream_pending_lt by (simp add: blocks_fold_short)
next
  case (Cons d ds)
  then show ?case using update_fold [OF Cons.prems, of d] Cons.IH [of "update c d"]
    blocks_fold_append [of compress "chain c" "pending c @ d" "concat ds"] by (metis append_assoc concat.simps(2) foldl_Cons fst_conv snd_conv)
qed

lemma zero_loop_fold:
  "wf_ctx c \<Longrightarrow> (length (pending c) + k) mod 64 = 56 \<Longrightarrow> k < 64 \<Longrightarrow>
   wf_ctx (zero_loop c) \<and> length (pending (zero_loop c)) = 56
   \<and> (chain (zero_loop c), pending (zero_loop c)) = blocks_fold compress (chain c) (pending c @ replicate k 0)"
proof (induction k arbitrary: c)
  case 0
  then have "length (pending c) = 56" using stream_pending_lt [of c] by simp
  then show ?case using 0 zero_loop_eq [of c] by (simp add: blocks_fold_short)
next
  case (Suc k)
  have "length (pending c) \<noteq> 56" using Suc.prems by (auto simp: mod_if split: if_splits)
  then have step: "zero_loop c = zero_loop (update c [0])" using zero_loop_eq [OF Suc.prems(1)] by simp
  have u: "wf_ctx (update c [0])" "chain (update c [0]) = fst (blocks_fold compress (chain c) (pending c @ [0]))"
    "pending (update c [0]) = snd (blocks_fold compress (chain c) (pending c @ [0]))"
    using update_fold [OF Suc.prems(1), of "[0]"] by (metis fst_conv snd_conv)+
  have "(length (pending (update c [0])) + k) mod 64 = 56"
    using Suc.prems(2) unfolding u(3) blocks_fold_pending_length by (simp add: mod_simps)
  then have "wf_ctx (zero_loop c) \<and> length (pending (zero_loop c)) = 56
     \<and> (chain (zero_loop c), pending (zero_loop c)) = blocks_fold compress (chain (update c [0])) (pending (update c [0]) @ replicate k 0)"
    unfolding step using Suc.IH [OF u(1)] Suc.prems(3) by simp
  then show ?case
    using blocks_fold_append [of compress "chain c" "pending c @ [0]" "replicate k 0"] by (simp add: u)
qed

text \<open>The end-of-message byte and the zeros, which leave exactly the room of the length.\<close>

lemma padding_fold:
  assumes "wf_ctx c"
  shows "let c' = zero_loop (update c [0x80]) in wf_ctx c' \<and> length (pending c') = 56
     \<and> (chain c', pending c')
        = blocks_fold compress (chain c) (pending c @ 0x80 # replicate (pad_count (length (pending c))) 0)"
proof -
  let ?u = "update c [0x80]"
  have u: "wf_ctx ?u" "chain ?u = fst (blocks_fold compress (chain c) (pending c @ [0x80]))"
    "pending ?u = snd (blocks_fold compress (chain c) (pending c @ [0x80]))"
    using update_fold [OF assms, of "[0x80]"] by (metis fst_conv snd_conv)+
  have "(length (pending ?u) + pad_count (length (pending c))) mod 64 = 56"
    unfolding u(3) blocks_fold_pending_length using pad_count_spec [of "length (pending c)"] by (simp add: mod_simps)
  from zero_loop_fold [OF u(1) this] show ?thesis
    using blocks_fold_append [of compress "chain c" "pending c @ [0x80]" "replicate (pad_count (length (pending c))) 0"]
    by (simp add: u pad_count_def)
qed

end

lemma pad_count_mod: "pad_count (n mod 64) = pad_count n"
  by (simp add: pad_count_def)

text \<open>A message with its padding, and the chaining value the reference gives it.\<close>

definition padded_message :: "bytes \<Rightarrow> bytes \<Rightarrow> bytes" where
  "padded_message msg len8 = msg @ 0x80 # replicate (pad_count (length msg)) 0 @ len8"

lemma padded_message_blocks: "length len8 = 8 \<Longrightarrow> length (padded_message msg len8) mod 64 = 0"
proof -
  assume "length len8 = 8"
  then have "length (padded_message msg len8) = length msg + 1 + pad_count (length msg) + 8"
    by (simp add: padded_message_def)
  then show ?thesis using pad_count_spec [of "length msg"] by (metis mod_add_left_eq mod_self numeral_plus_numeral add_num_simps)
qed

end
