(* ===== verification/Sha256.thy ===== *)
theory Sha256
  imports Block_Stream
begin

text \<open>
  SHA-256 (\<open>src/codec/sha256.c\<close>): the compression function on eight 32-bit words, the context with
  its 64-byte block buffer and its bit counter, and the three operations on it. The properties relate
  the streaming interface to the digest FIPS 180-4 defines for the whole message.
\<close>

section \<open>Model\<close>

definition k_round :: "u32 list" where
  "k_round =
      0x428a2f98 # 0x71374491 # 0xb5c0fbcf # 0xe9b5dba5 # 0x3956c25b # 0x59f111f1 # 0x923f82a4 # 0xab1c5ed5 #
      0xd807aa98 # 0x12835b01 # 0x243185be # 0x550c7dc3 # 0x72be5d74 # 0x80deb1fe # 0x9bdc06a7 # 0xc19bf174 #
      0xe49b69c1 # 0xefbe4786 # 0x0fc19dc6 # 0x240ca1cc # 0x2de92c6f # 0x4a7484aa # 0x5cb0a9dc # 0x76f988da #
      0x983e5152 # 0xa831c66d # 0xb00327c8 # 0xbf597fc7 # 0xc6e00bf3 # 0xd5a79147 # 0x06ca6351 # 0x14292967 #
      0x27b70a85 # 0x2e1b2138 # 0x4d2c6dfc # 0x53380d13 # 0x650a7354 # 0x766a0abb # 0x81c2c92e # 0x92722c85 #
      0xa2bfe8a1 # 0xa81a664b # 0xc24b8b70 # 0xc76c51a3 # 0xd192e819 # 0xd6990624 # 0xf40e3585 # 0x106aa070 #
      0x19a4c116 # 0x1e376c08 # 0x2748774c # 0x34b0bcb5 # 0x391c0cb3 # 0x4ed8aa4a # 0x5b9cca4f # 0x682e6ff3 #
      0x748f82ee # 0x78a5636f # 0x84c87814 # 0x8cc70208 # 0x90befffa # 0xa4506ceb # 0xbef9a3f7 # 0xc67178f2 # []"

definition rotr :: "u32 \<Rightarrow> nat \<Rightarrow> u32" where
  "rotr v n = drop_bit n v OR push_bit (32 - n) v"

type_synonym sha_words = "u32 \<times> u32 \<times> u32 \<times> u32 \<times> u32 \<times> u32 \<times> u32 \<times> u32"

definition sha256_load :: "bytes \<Rightarrow> u32 list" where
  "sha256_load block = map (\<lambda>i. push_bit 24 (ucast (block ! (4 * i))) OR push_bit 16 (ucast (block ! (4 * i + 1)))
     OR push_bit 8 (ucast (block ! (4 * i + 2))) OR ucast (block ! (4 * i + 3))) [0..<16]"

definition sha256_expand :: "u32 list \<Rightarrow> nat \<Rightarrow> u32 list" where
  "sha256_expand w i =
     (let s0 = rotr (w ! (i - 15)) 7 XOR rotr (w ! (i - 15)) 18 XOR drop_bit 3 (w ! (i - 15));
          s1 = rotr (w ! (i - 2)) 17 XOR rotr (w ! (i - 2)) 19 XOR drop_bit 10 (w ! (i - 2))
      in w @ [w ! (i - 16) + s0 + w ! (i - 7) + s1])"

definition sha256_schedule :: "bytes \<Rightarrow> u32 list" where
  "sha256_schedule block = foldl sha256_expand (sha256_load block) [16..<64]"

definition sha256_round :: "u32 list \<Rightarrow> sha_words \<Rightarrow> nat \<Rightarrow> sha_words" where
  "sha256_round w v i =
     (case v of (a, b, c, d, e, f, g, h) \<Rightarrow>
        let s1 = rotr e 6 XOR rotr e 11 XOR rotr e 25;
            ch = (e AND f) XOR (NOT e AND g);
            t1 = h + s1 + ch + k_round ! i + w ! i;
            s0 = rotr a 2 XOR rotr a 13 XOR rotr a 22;
            maj = (a AND b) XOR (a AND c) XOR (b AND c);
            t2 = s0 + maj
        in (t1 + t2, a, b, c, d + t1, e, f, g))"

definition sha256_block :: "sha_words \<Rightarrow> bytes \<Rightarrow> sha_words" where
  "sha256_block state block =
     (case foldl (sha256_round (sha256_schedule block)) state [0..<64] of (a, b, c, d, e, f, g, h) \<Rightarrow>
      case state of (s0, s1, s2, s3, s4, s5, s6, s7) \<Rightarrow>
        (s0 + a, s1 + b, s2 + c, s3 + d, s4 + e, s5 + f, s6 + g, s7 + h))"

record inkwell_sha256 =
  sha_state :: sha_words
  sha_bits :: u64
  sha_block :: bytes
  sha_block_len :: nat

definition sha256_iv :: sha_words where
  "sha256_iv = (0x6a09e667, 0xbb67ae85, 0x3c6ef372, 0xa54ff53a, 0x510e527f, 0x9b05688c, 0x1f83d9ab, 0x5be0cd19)"

definition inkwell_sha256_init :: inkwell_sha256 where
  "inkwell_sha256_init = \<lparr>sha_state = sha256_iv, sha_bits = 0, sha_block = replicate 64 0, sha_block_len = 0\<rparr>"

text \<open>
  The loop of an update. A context never has a full block between calls; the guard on
  \<open>sha_block_len\<close> makes the definition total for the contexts that no operation produces.
\<close>

function sha256_absorb :: "inkwell_sha256 \<Rightarrow> bytes \<Rightarrow> inkwell_sha256" where
  "sha256_absorb ctx data =
     (if data = [] \<or> 64 \<le> sha_block_len ctx then ctx
      else let room = 64 - sha_block_len ctx;
               n = min (length data) room;
               ctx = ctx\<lparr>sha_block := mem_write (sha_block ctx) (sha_block_len ctx) (take n data),
                         sha_block_len := sha_block_len ctx + n\<rparr>;
               ctx = (if sha_block_len ctx = 64
                      then ctx\<lparr>sha_state := sha256_block (sha_state ctx) (sha_block ctx), sha_block_len := 0\<rparr>
                      else ctx)
           in sha256_absorb ctx (drop n data))"
  by pat_completeness auto
termination
  by (relation "measure (\<lambda>(_, data). length data)") auto

declare sha256_absorb.simps [simp del]

definition inkwell_sha256_update :: "inkwell_sha256 \<Rightarrow> bytes option \<Rightarrow> inkwell_sha256" where
  "inkwell_sha256_update ctx data =
     (case data of None \<Rightarrow> ctx
      | Some d \<Rightarrow> sha256_absorb (ctx\<lparr>sha_bits := sha_bits ctx + of_nat (length d) * 8\<rparr>) d)"

text \<open>
  The padding loop of the final step, which stops when 56 bytes of a block are filled. The measure is
  the number of zero bytes still to come; as above, the second guard only makes the function total.
\<close>

lemma sha256_absorb_byte:
  "sha_block_len ctx < 64 \<Longrightarrow>
   sha_block_len (sha256_absorb ctx [b]) = (if sha_block_len ctx = 63 then 0 else sha_block_len ctx + 1)"
  by (subst sha256_absorb.simps) (auto simp: Let_def sha256_absorb.simps)

function sha256_zero_loop :: "inkwell_sha256 \<Rightarrow> inkwell_sha256" where
  "sha256_zero_loop ctx =
     (if sha_block_len ctx = 56 \<or> 64 \<le> sha_block_len ctx then ctx
      else sha256_zero_loop (inkwell_sha256_update ctx (Some [0])))"
  by pat_completeness auto
termination
  by (relation "measure (\<lambda>ctx. if sha_block_len ctx \<le> 56 then 56 - sha_block_len ctx else 120 - sha_block_len ctx)")
    (auto simp: inkwell_sha256_update_def sha256_absorb_byte)

declare sha256_zero_loop.simps [simp del]

definition sha256_length_bytes :: "u64 \<Rightarrow> bytes" where
  "sha256_length_bytes bits = map (\<lambda>i. ucast (drop_bit (56 - 8 * i) bits)) [0..<8]"

definition sha256_word_bytes :: "u32 \<Rightarrow> bytes" where
  "sha256_word_bytes w = [ucast (drop_bit 24 w), ucast (drop_bit 16 w), ucast (drop_bit 8 w), ucast w]"

definition sha256_digest_bytes :: "sha_words \<Rightarrow> bytes" where
  "sha256_digest_bytes state =
     (case state of (a, b, c, d, e, f, g, h) \<Rightarrow> concat (map sha256_word_bytes [a, b, c, d, e, f, g, h]))"

definition inkwell_sha256_final :: "inkwell_sha256 \<Rightarrow> inkwell_sha256 \<times> bytes" where
  "inkwell_sha256_final ctx =
     (let bits = sha_bits ctx;
          ctx = inkwell_sha256_update ctx (Some [0x80]);
          ctx = sha256_zero_loop ctx;
          ctx = ctx\<lparr>sha_block := mem_write (sha_block ctx) 56 (sha256_length_bytes bits)\<rparr>;
          ctx = ctx\<lparr>sha_state := sha256_block (sha_state ctx) (sha_block ctx), sha_block_len := 0\<rparr>
      in (ctx, sha256_digest_bytes (sha_state ctx)))"

definition k_hex :: bytes where
  "k_hex = ascii ''0123456789abcdef''"

definition inkwell_sha256_hex :: "bytes option \<Rightarrow> nat \<Rightarrow> bytes option" where
  "inkwell_sha256_hex digest out_len =
     (if out_len = 0 then None
      else case digest of None \<Rightarrow> Some []
           | Some d \<Rightarrow>
               if out_len < 65 then Some []
               else Some (concat (map (\<lambda>i. [k_hex ! unat (drop_bit 4 (d ! i) AND 0x0F), k_hex ! unat (d ! i AND 0x0F)]) [0..<32])))"

text \<open>
  Hashing a file. What \<open>fopen\<close> and \<open>fread\<close> deliver is a parameter: the errno of a failed open, or the
  bytes the file yields and whether reading stopped with an error.
\<close>

function sha256_read_loop :: "inkwell_sha256 \<Rightarrow> bytes \<Rightarrow> inkwell_sha256" where
  "sha256_read_loop ctx content =
     (let buffer = take 4096 content;
          ctx = (if buffer \<noteq> [] then inkwell_sha256_update ctx (Some buffer) else ctx)
      in if length buffer < 4096 then ctx else sha256_read_loop ctx (drop 4096 content))"
  by pat_completeness auto
termination
  by (relation "measure (\<lambda>(_, content). length content)") auto

declare sha256_read_loop.simps [simp del]

definition inkwell_sha256_file :: "(errno + bytes \<times> bool) option \<Rightarrow> errno + bytes" where
  "inkwell_sha256_file file =
     (case file of None \<Rightarrow> Inl EINVAL
      | Some (Inl e) \<Rightarrow> Inl e
      | Some (Inr (content, failed)) \<Rightarrow>
          if failed then Inl EIO
          else Inr (snd (inkwell_sha256_final (sha256_read_loop inkwell_sha256_init content))))"

section \<open>The streaming interface\<close>

definition wf_sha256 :: "inkwell_sha256 \<Rightarrow> bool" where
  "wf_sha256 ctx = (length (sha_block ctx) = 64 \<and> sha_block_len ctx < 64)"

definition sha256_pending :: "inkwell_sha256 \<Rightarrow> bytes" where
  "sha256_pending ctx = take (sha_block_len ctx) (sha_block ctx)"

lemma length_sha256_pending: "wf_sha256 ctx \<Longrightarrow> length (sha256_pending ctx) = sha_block_len ctx"
  by (simp add: wf_sha256_def sha256_pending_def)

interpretation sha: block_absorb sha256_block sha256_absorb sha_state sha256_pending wf_sha256
proof unfold_locales
  show "length (sha256_pending c) < 64" if "wf_sha256 c" for c
    using that by (simp add: wf_sha256_def sha256_pending_def)
  show "sha256_absorb c [] = c" for c by (simp add: sha256_absorb.simps)
  fix c :: inkwell_sha256 and d :: bytes
  assume wf: "wf_sha256 c" and d: "d \<noteq> []"
  let ?n = "min (length d) (64 - sha_block_len c)"
  let ?b = "mem_write (sha_block c) (sha_block_len c) (take ?n d)"
  have b: "length ?b = 64" "take (sha_block_len c + ?n) ?b = sha256_pending c @ take ?n d"
    using wf take_mem_write [of "sha_block_len c" "sha_block c" "take ?n d"]
    by (auto simp: wf_sha256_def sha256_pending_def min_def)
  define c' where "c' = (if sha_block_len c + ?n = 64
     then c\<lparr>sha_block := ?b, sha_state := sha256_block (sha_state c) ?b, sha_block_len := 0\<rparr>
     else c\<lparr>sha_block := ?b, sha_block_len := sha_block_len c + ?n\<rparr>)"
  have len: "length (sha256_pending c) = sha_block_len c" by (rule length_sha256_pending [OF wf])
  have "sha256_absorb c d = sha256_absorb c' (drop ?n d)"
    using wf d by (subst sha256_absorb.simps) (simp add: Let_def c'_def wf_sha256_def)
  also have "drop ?n d = drop (64 - length (sha256_pending c)) d" by (simp add: len min_def)
  finally have "sha256_absorb c d = sha256_absorb c' (drop (64 - length (sha256_pending c)) d)" .
  moreover have "wf_sha256 c'" using wf b(1) by (auto simp: c'_def wf_sha256_def)
  moreover have "sha_state c' = (if length (sha256_pending c) + length d < 64 then sha_state c
       else sha256_block (sha_state c) (sha256_pending c @ take (64 - length (sha256_pending c)) d))"
    using wf b unfolding len by (auto simp: c'_def wf_sha256_def min_def)
  moreover have "sha256_pending c' = (if length (sha256_pending c) + length d < 64 then sha256_pending c @ d else [])"
    using wf b unfolding len by (auto simp: c'_def wf_sha256_def sha256_pending_def min_def split: if_splits)
  ultimately show "\<exists>c'. sha256_absorb c d = sha256_absorb c' (drop (64 - length (sha256_pending c)) d) \<and> wf_sha256 c'
      \<and> sha_state c' = (if length (sha256_pending c) + length d < 64 then sha_state c
           else sha256_block (sha_state c) (sha256_pending c @ take (64 - length (sha256_pending c)) d))
      \<and> sha256_pending c' = (if length (sha256_pending c) + length d < 64 then sha256_pending c @ d else [])"
    by blast
qed

lemma sha256_absorb_bits [simp]: "sha_bits (sha256_absorb c d) = sha_bits c"
proof (induction c d rule: sha256_absorb.induct)
  case (1 c d)
  then show ?case by (subst sha256_absorb.simps) (auto simp: Let_def)
qed

lemma sha256_update_fold:
  assumes "wf_sha256 c"
  shows "wf_sha256 (inkwell_sha256_update c (Some d))
    \<and> (sha_state (inkwell_sha256_update c (Some d)), sha256_pending (inkwell_sha256_update c (Some d)))
       = blocks_fold sha256_block (sha_state c) (sha256_pending c @ d)"
proof -
  let ?c = "c\<lparr>sha_bits := sha_bits c + of_nat (length d) * 8\<rparr>"
  have "wf_sha256 ?c" "sha_state ?c = sha_state c" "sha256_pending ?c = sha256_pending c"
    using assms by (simp_all add: wf_sha256_def sha256_pending_def)
  then show ?thesis using sha.absorb_fold [of ?c d] by (simp add: inkwell_sha256_update_def)
qed

interpretation sha_stream: block_stream sha256_block "\<lambda>c d. inkwell_sha256_update c (Some d)" sha256_zero_loop
  sha_state sha256_pending wf_sha256
proof unfold_locales
  show "length (sha256_pending c) < 64" if "wf_sha256 c" for c
    using that by (simp add: length_sha256_pending) (simp add: wf_sha256_def)
  show "wf_sha256 (inkwell_sha256_update c (Some d))
    \<and> (sha_state (inkwell_sha256_update c (Some d)), sha256_pending (inkwell_sha256_update c (Some d)))
       = blocks_fold sha256_block (sha_state c) (sha256_pending c @ d)" if "wf_sha256 c" for c d
    by (rule sha256_update_fold [OF that])
  show "sha256_zero_loop c = (if length (sha256_pending c) = 56 then c
      else sha256_zero_loop (inkwell_sha256_update c (Some [0])))" if "wf_sha256 c" for c
    using that by (subst sha256_zero_loop.simps) (auto simp: length_sha256_pending wf_sha256_def)
qed

lemma wf_sha256_init: "wf_sha256 inkwell_sha256_init" "sha_state inkwell_sha256_init = sha256_iv"
  "sha256_pending inkwell_sha256_init = []" "sha_bits inkwell_sha256_init = 0"
  by (simp_all add: wf_sha256_def inkwell_sha256_init_def sha256_pending_def)

lemma sha256_updates_bits:
  "sha_bits (foldl (\<lambda>c d. inkwell_sha256_update c (Some d)) c ds) = sha_bits c + of_nat (8 * length (concat ds))"
  by (induction ds arbitrary: c) (simp_all add: inkwell_sha256_update_def algebra_simps)

lemma sha256_final_fold:
  assumes "wf_sha256 c"
  shows "snd (inkwell_sha256_final c) = sha256_digest_bytes (fst (blocks_fold sha256_block (sha_state c)
     (sha256_pending c @ 0x80 # replicate (pad_count (length (sha256_pending c))) 0 @ sha256_length_bytes (sha_bits c))))"
proof -
  define z where "z = sha256_zero_loop (inkwell_sha256_update c (Some [0x80]))"
  let ?len = "sha256_length_bytes (sha_bits c)"
  have z: "wf_sha256 z" "length (sha256_pending z) = 56" "(sha_state z, sha256_pending z)
      = blocks_fold sha256_block (sha_state c) (sha256_pending c @ 0x80 # replicate (pad_count (length (sha256_pending c))) 0)"
    using sha_stream.padding_fold [OF assms] by (simp_all add: z_def Let_def)
  have l: "length ?len = 8" by (simp add: sha256_length_bytes_def)
  have "mem_write (sha_block z) 56 ?len = sha256_pending z @ ?len"
    using z l by (simp add: mem_write_def sha256_pending_def wf_sha256_def length_sha256_pending min_def)
  then have "snd (inkwell_sha256_final c) = sha256_digest_bytes (sha256_block (sha_state z) (sha256_pending z @ ?len))"
    by (simp add: inkwell_sha256_final_def Let_def z_def)
  moreover have "blocks_fold sha256_block (sha_state c)
      ((sha256_pending c @ 0x80 # replicate (pad_count (length (sha256_pending c))) 0) @ ?len)
      = (sha256_block (sha_state z) (sha256_pending z @ ?len), [])"
    using blocks_fold_append [of sha256_block "sha_state c" "sha256_pending c @ 0x80 # replicate (pad_count (length (sha256_pending c))) 0" ?len]
      blocks_fold_block [of "sha256_pending z @ ?len" sha256_block "sha_state z" "[]"] z(2) l
    by (simp add: z(3) [symmetric] blocks_fold_short)
  ultimately show ?thesis by simp
qed

section \<open>FIPS 180-4\<close>

text \<open>The standard's functions: rotations of the library, the schedule as a recurrence.\<close>

definition fips_sigma0 :: "u32 \<Rightarrow> u32" where
  "fips_sigma0 x = word_rotr 7 x XOR word_rotr 18 x XOR drop_bit 3 x"

definition fips_sigma1 :: "u32 \<Rightarrow> u32" where
  "fips_sigma1 x = word_rotr 17 x XOR word_rotr 19 x XOR drop_bit 10 x"

definition fips_word :: "bytes \<Rightarrow> nat \<Rightarrow> u32" where
  "fips_word block i = of_nat (unat (block ! (4 * i)) * 16777216 + unat (block ! (4 * i + 1)) * 65536
     + unat (block ! (4 * i + 2)) * 256 + unat (block ! (4 * i + 3)))"

fun fips_W :: "bytes \<Rightarrow> nat \<Rightarrow> u32" where
  "fips_W block t =
     (if t < 16 then fips_word block t
      else fips_sigma1 (fips_W block (t - 2)) + fips_W block (t - 7) + fips_sigma0 (fips_W block (t - 15)) + fips_W block (t - 16))"

declare fips_W.simps [simp del]

definition fips_round :: "bytes \<Rightarrow> sha_words \<Rightarrow> nat \<Rightarrow> sha_words" where
  "fips_round block v t =
     (case v of (a, b, c, d, e, f, g, h) \<Rightarrow>
        let T1 = h + (word_rotr 6 e XOR word_rotr 11 e XOR word_rotr 25 e) + ((e AND f) XOR (NOT e AND g))
                 + k_round ! t + fips_W block t;
            T2 = (word_rotr 2 a XOR word_rotr 13 a XOR word_rotr 22 a) + ((a AND b) XOR (a AND c) XOR (b AND c))
        in (T1 + T2, a, b, c, d + T1, e, f, g))"

definition fips_compress :: "sha_words \<Rightarrow> bytes \<Rightarrow> sha_words" where
  "fips_compress state block =
     (case (state, foldl (fips_round block) state [0..<64]) of
        ((h0, h1, h2, h3, h4, h5, h6, h7), (a, b, c, d, e, f, g, h)) \<Rightarrow>
          (h0 + a, h1 + b, h2 + c, h3 + d, h4 + e, h5 + f, h6 + g, h7 + h))"

definition fips_sha256 :: "bytes \<Rightarrow> bytes" where
  "fips_sha256 msg = sha256_digest_bytes (fst (blocks_fold fips_compress sha256_iv
     (padded_message msg (sha256_length_bytes (of_nat (8 * length msg))))))"

lemma rotr_eq: "0 < n \<Longrightarrow> n < 32 \<Longrightarrow> rotr v n = word_rotr n v"
proof (rule bit_word_eqI)
  fix i assume n: "0 < n" "n < 32" and i: "i < LENGTH(32)"
  show "bit (rotr v n) i = bit (word_rotr n v) i"
  proof (cases "i + n < 32")
    case True
    then show ?thesis using n i by (auto simp: rotr_def bit_simps bit_word_rotr_iff add.commute)
  next
    case False
    then have m: "(i + n) mod 32 = i + n - 32" using n i by (simp add: le_mod_geq)
    have "\<not> bit v (i + n)" using False bit_imp_le_length [of v "i + n"] by auto
    moreover have "i - (32 - n) = i + n - 32" "32 - n \<le> i" using False n by auto
    ultimately show ?thesis using n i m
      by (auto simp: rotr_def bit_simps bit_word_rotr_iff add.commute)
  qed
qed

lemma be32_value:
  fixes b0 b1 b2 b3 :: u8
  shows "(push_bit 24 (ucast b0) OR push_bit 16 (ucast b1) OR push_bit 8 (ucast b2) OR ucast b3 :: u32)
     = of_nat (unat b0 * 16777216 + unat b1 * 65536 + unat b2 * 256 + unat b3)"
proof -
  have "le32 b3 b2 b1 b0 = push_bit 24 (ucast b0) OR push_bit 16 (ucast b1) OR push_bit 8 (ucast b2) OR ucast b3"
    by (simp add: le32_def ac_simps)
  moreover have "unat (le32 b3 b2 b1 b0) = unat b0 * 16777216 + unat b1 * 65536 + unat b2 * 256 + unat b3"
    by (simp add: unat_le32)
  moreover have "of_nat (unat (le32 b3 b2 b1 b0)) = le32 b3 b2 b1 b0" by simp
  ultimately show ?thesis by metis
qed

lemma sha256_schedule_prefix:
  "16 \<le> n \<Longrightarrow> length (foldl sha256_expand (sha256_load block) [16..<n]) = n
     \<and> (\<forall>t < n. foldl sha256_expand (sha256_load block) [16..<n] ! t = fips_W block t)"
proof (induction n rule: dec_induct)
  case base
  then show ?case by (auto simp: sha256_load_def be32_value fips_W.simps fips_word_def)
next
  case (step n)
  let ?w = "foldl sha256_expand (sha256_load block) [16..<n]"
  have w: "length ?w = n" "\<And>t. t < n \<Longrightarrow> ?w ! t = fips_W block t" using step by auto
  have "foldl sha256_expand (sha256_load block) [16..<Suc n] = sha256_expand ?w n" using step by simp
  also have "\<dots> = ?w @ [fips_W block n]"
    using step(1) by (subst fips_W.simps)
      (simp add: sha256_expand_def Let_def w rotr_eq fips_sigma0_def fips_sigma1_def ac_simps)
  finally show ?case using w by (auto simp: nth_append less_Suc_eq)
qed

lemma sha256_block_fips: "sha256_block state block = fips_compress state block"
proof -
  have w: "sha256_schedule block ! t = fips_W block t" if "t < 64" for t
    using sha256_schedule_prefix [of 64 block] that by (simp add: sha256_schedule_def)
  have "sha256_round (sha256_schedule block) v t = fips_round block v t" if "t < 64" for v t
    using that by (simp add: sha256_round_def fips_round_def w rotr_eq)
  then have "foldl (sha256_round (sha256_schedule block)) state [0..<64] = foldl (fips_round block) state [0..<64]"
    by (intro foldl_cong) auto
  then show ?thesis by (simp add: sha256_block_def fips_compress_def split: prod.split)
qed

lemma sha256_stream_digest:
  "snd (inkwell_sha256_final (foldl (\<lambda>c d. inkwell_sha256_update c (Some d)) inkwell_sha256_init ds)) = fips_sha256 (concat ds)"
proof -
  let ?c = "foldl (\<lambda>c d. inkwell_sha256_update c (Some d)) inkwell_sha256_init ds"
  have c: "wf_sha256 ?c" "(sha_state ?c, sha256_pending ?c) = blocks_fold sha256_block sha256_iv (concat ds)"
    using sha_stream.updates_fold [OF wf_sha256_init(1), of ds] by (simp_all add: wf_sha256_init)
  have bits: "sha_bits ?c = of_nat (8 * length (concat ds))"
    using sha256_updates_bits [of inkwell_sha256_init ds] by (simp add: wf_sha256_init)
  have "length (sha256_pending ?c) = length (concat ds) mod 64"
    using c(2) blocks_fold_pending_length by (metis snd_conv)
  moreover have "sha_state ?c = fst (blocks_fold sha256_block sha256_iv (concat ds))"
    "sha256_pending ?c = snd (blocks_fold sha256_block sha256_iv (concat ds))"
    using c(2) by (metis fst_conv, metis snd_conv)
  ultimately show ?thesis
    using sha256_final_fold [OF c(1)] bits
      blocks_fold_append [of sha256_block sha256_iv "concat ds"
        "0x80 # replicate (pad_count (length (concat ds))) 0 @ sha256_length_bytes (sha_bits ?c)"]
    by (simp add: fips_sha256_def padded_message_def pad_count_mod sha256_block_fips [abs_def])
qed

lemma sha256_read_loop_chunks:
  "\<exists>ds. concat ds = content \<and> sha256_read_loop ctx content = foldl (\<lambda>c d. inkwell_sha256_update c (Some d)) ctx ds"
proof (induction ctx content rule: sha256_read_loop.induct)
  case (1 ctx content)
  show ?case
  proof (cases "length content < 4096")
    case True
    then show ?thesis
      by (subst sha256_read_loop.simps) (auto simp: Let_def intro: exI [of _ "[content]"] exI [of _ "[]"])
  next
    case False
    then have ne: "take 4096 content \<noteq> []" by (cases content) auto
    obtain ds where ds: "concat ds = drop 4096 content"
      "sha256_read_loop (inkwell_sha256_update ctx (Some (take 4096 content))) (drop 4096 content)
         = foldl (\<lambda>c d. inkwell_sha256_update c (Some d)) (inkwell_sha256_update ctx (Some (take 4096 content))) ds"
      using 1 [of "take 4096 content"] ne False by auto
    then show ?thesis using ne False
      by (subst sha256_read_loop.simps) (auto simp: Let_def intro!: exI [of _ "take 4096 content # ds"])
  qed
qed

section \<open>Properties\<close>

text \<open>
  C27. However a message is cut into pieces, feeding the pieces to a fresh context and finishing it
  gives the SHA-256 digest that FIPS 180-4 defines for the whole message, and so does hashing a file
  that reads to its end, whatever the size of the last read.
\<close>

theorem sha256_digest_correct:
  "snd (inkwell_sha256_final (foldl (\<lambda>c d. inkwell_sha256_update c (Some d)) inkwell_sha256_init ds)) = fips_sha256 (concat ds)
   \<and> inkwell_sha256_file (Some (Inr (content, False))) = Inr (fips_sha256 content)"
proof -
  obtain cs where "concat cs = content" "sha256_read_loop inkwell_sha256_init content
      = foldl (\<lambda>c d. inkwell_sha256_update c (Some d)) inkwell_sha256_init cs"
    using sha256_read_loop_chunks by blast
  then show ?thesis by (auto simp: inkwell_sha256_file_def sha256_stream_digest)
qed

end
