(* ===== verification/Md5.thy ===== *)
theory Md5
  imports Block_Stream
begin

text \<open>
  MD5 (\<open>src/codec/md5.c\<close>), as the ROM loader reports it for a flash region: the compression function,
  the context with its byte counter and the operations on it, related to RFC 1321.
\<close>

section \<open>Model\<close>

definition k_shift :: "nat list" where
  "k_shift =
     [7, 12, 17, 22, 7, 12, 17, 22, 7, 12, 17, 22, 7, 12, 17, 22,
      5, 9, 14, 20, 5, 9, 14, 20, 5, 9, 14, 20, 5, 9, 14, 20,
      4, 11, 16, 23, 4, 11, 16, 23, 4, 11, 16, 23, 4, 11, 16, 23,
      6, 10, 15, 21, 6, 10, 15, 21, 6, 10, 15, 21, 6, 10, 15, 21]"

definition k_sine :: "u32 list" where
  "k_sine =
      0xd76aa478 # 0xe8c7b756 # 0x242070db # 0xc1bdceee # 0xf57c0faf # 0x4787c62a # 0xa8304613 # 0xfd469501 #
      0x698098d8 # 0x8b44f7af # 0xffff5bb1 # 0x895cd7be # 0x6b901122 # 0xfd987193 # 0xa679438e # 0x49b40821 #
      0xf61e2562 # 0xc040b340 # 0x265e5a51 # 0xe9b6c7aa # 0xd62f105d # 0x02441453 # 0xd8a1e681 # 0xe7d3fbc8 #
      0x21e1cde6 # 0xc33707d6 # 0xf4d50d87 # 0x455a14ed # 0xa9e3e905 # 0xfcefa3f8 # 0x676f02d9 # 0x8d2a4c8a #
      0xfffa3942 # 0x8771f681 # 0x6d9d6122 # 0xfde5380c # 0xa4beea44 # 0x4bdecfa9 # 0xf6bb4b60 # 0xbebfbc70 #
      0x289b7ec6 # 0xeaa127fa # 0xd4ef3085 # 0x04881d05 # 0xd9d4d039 # 0xe6db99e5 # 0x1fa27cf8 # 0xc4ac5665 #
      0xf4292244 # 0x432aff97 # 0xab9423a7 # 0xfc93a039 # 0x655b59c3 # 0x8f0ccc92 # 0xffeff47d # 0x85845dd1 #
      0x6fa87e4f # 0xfe2ce6e0 # 0xa3014314 # 0x4e0811a1 # 0xf7537e82 # 0xbd3af235 # 0x2ad7d2bb # 0xeb86d391 # []"

definition rotl :: "u32 \<Rightarrow> nat \<Rightarrow> u32" where
  "rotl v n = push_bit n v OR drop_bit (32 - n) v"

type_synonym md5_words = "u32 \<times> u32 \<times> u32 \<times> u32"

definition md5_load :: "bytes \<Rightarrow> u32 list" where
  "md5_load block = map (\<lambda>i. ucast (block ! (4 * i)) OR push_bit 8 (ucast (block ! (4 * i + 1)))
     OR push_bit 16 (ucast (block ! (4 * i + 2))) OR push_bit 24 (ucast (block ! (4 * i + 3)))) [0..<16]"

definition md5_round :: "u32 list \<Rightarrow> md5_words \<Rightarrow> nat \<Rightarrow> md5_words" where
  "md5_round m v i =
     (case v of (a, b, c, d) \<Rightarrow>
        let (f, g) = (if i < 16 then ((b AND c) OR (NOT b AND d), i)
                      else if i < 32 then ((d AND b) OR (NOT d AND c), (5 * i + 1) mod 16)
                      else if i < 48 then (b XOR c XOR d, (3 * i + 5) mod 16)
                      else (c XOR (b OR NOT d), (7 * i) mod 16))
        in (d, b + rotl (a + f + k_sine ! i + m ! g) (k_shift ! i), b, c))"

definition md5_block :: "md5_words \<Rightarrow> bytes \<Rightarrow> md5_words" where
  "md5_block state block =
     (case foldl (md5_round (md5_load block)) state [0..<64] of (a, b, c, d) \<Rightarrow>
      case state of (s0, s1, s2, s3) \<Rightarrow> (s0 + a, s1 + b, s2 + c, s3 + d))"

record inkwell_md5 =
  md5_state :: md5_words
  md5_bytes :: u64
  md5_buf :: bytes
  md5_block_len :: nat

definition md5_iv :: md5_words where
  "md5_iv = (0x67452301, 0xefcdab89, 0x98badcfe, 0x10325476)"

text \<open>The initialiser leaves the block buffer as it found it.\<close>

definition inkwell_md5_init :: "inkwell_md5 \<Rightarrow> inkwell_md5" where
  "inkwell_md5_init ctx = ctx\<lparr>md5_state := md5_iv, md5_bytes := 0, md5_block_len := 0\<rparr>"

function md5_absorb :: "inkwell_md5 \<Rightarrow> bytes \<Rightarrow> inkwell_md5" where
  "md5_absorb ctx data =
     (if data = [] \<or> 64 \<le> md5_block_len ctx then ctx
      else let room = 64 - md5_block_len ctx;
               n = min (length data) room;
               ctx = ctx\<lparr>md5_buf := mem_write (md5_buf ctx) (md5_block_len ctx) (take n data),
                         md5_block_len := md5_block_len ctx + n\<rparr>;
               ctx = (if md5_block_len ctx = 64
                      then ctx\<lparr>md5_state := md5_block (md5_state ctx) (md5_buf ctx), md5_block_len := 0\<rparr>
                      else ctx)
           in md5_absorb ctx (drop n data))"
  by pat_completeness auto
termination
  by (relation "measure (\<lambda>(_, data). length data)") auto

declare md5_absorb.simps [simp del]

definition inkwell_md5_update :: "inkwell_md5 \<Rightarrow> bytes \<Rightarrow> inkwell_md5" where
  "inkwell_md5_update ctx data = md5_absorb (ctx\<lparr>md5_bytes := md5_bytes ctx + of_nat (length data)\<rparr>) data"

text \<open>The guards on a full block only make the loops total; no operation leaves one behind.\<close>

lemma md5_absorb_byte:
  "md5_block_len ctx < 64 \<Longrightarrow>
   md5_block_len (md5_absorb ctx [b]) = (if md5_block_len ctx = 63 then 0 else md5_block_len ctx + 1)"
  by (subst md5_absorb.simps) (auto simp: Let_def md5_absorb.simps)

function md5_zero_loop :: "inkwell_md5 \<Rightarrow> inkwell_md5" where
  "md5_zero_loop ctx =
     (if md5_block_len ctx = 56 \<or> 64 \<le> md5_block_len ctx then ctx
      else md5_zero_loop (inkwell_md5_update ctx [0]))"
  by pat_completeness auto
termination
  by (relation "measure (\<lambda>ctx. if md5_block_len ctx \<le> 56 then 56 - md5_block_len ctx else 120 - md5_block_len ctx)")
    (auto simp: inkwell_md5_update_def md5_absorb_byte)

declare md5_zero_loop.simps [simp del]

definition md5_length_bytes :: "u64 \<Rightarrow> bytes" where
  "md5_length_bytes bits = map (\<lambda>i. ucast (drop_bit (8 * i) bits)) [0..<8]"

definition md5_digest_bytes :: "md5_words \<Rightarrow> bytes" where
  "md5_digest_bytes state = (case state of (a, b, c, d) \<Rightarrow> concat (map le32_bytes [a, b, c, d]))"

definition inkwell_md5_final :: "inkwell_md5 \<Rightarrow> inkwell_md5 \<times> bytes" where
  "inkwell_md5_final ctx =
     (let bits = md5_bytes ctx * 8;
          ctx = inkwell_md5_update ctx [0x80];
          ctx = md5_zero_loop ctx;
          ctx = inkwell_md5_update ctx (md5_length_bytes bits)
      in (ctx, md5_digest_bytes (md5_state ctx)))"

definition md5_hex_digits :: bytes where
  "md5_hex_digits = ascii ''0123456789abcdef''"

definition inkwell_md5_hex :: "bytes \<Rightarrow> nat \<Rightarrow> bytes option" where
  "inkwell_md5_hex digest out_len =
     (if out_len < 33 then (if 0 < out_len then Some [] else None)
      else Some (concat (map (\<lambda>i. [md5_hex_digits ! unat (drop_bit 4 (digest ! i)), md5_hex_digits ! unat (digest ! i AND 0x0F)]) [0..<16])))"

section \<open>The streaming interface\<close>

definition wf_md5 :: "inkwell_md5 \<Rightarrow> bool" where
  "wf_md5 ctx = (length (md5_buf ctx) = 64 \<and> md5_block_len ctx < 64)"

definition md5_pending :: "inkwell_md5 \<Rightarrow> bytes" where
  "md5_pending ctx = take (md5_block_len ctx) (md5_buf ctx)"

lemma length_md5_pending: "wf_md5 ctx \<Longrightarrow> length (md5_pending ctx) = md5_block_len ctx"
  by (simp add: wf_md5_def md5_pending_def)

interpretation md: block_absorb md5_block md5_absorb md5_state md5_pending wf_md5
proof unfold_locales
  show "length (md5_pending c) < 64" if "wf_md5 c" for c
    using that by (simp add: wf_md5_def md5_pending_def)
  show "md5_absorb c [] = c" for c by (simp add: md5_absorb.simps)
  fix c :: inkwell_md5 and d :: bytes
  assume wf: "wf_md5 c" and d: "d \<noteq> []"
  let ?n = "min (length d) (64 - md5_block_len c)"
  let ?b = "mem_write (md5_buf c) (md5_block_len c) (take ?n d)"
  have b: "length ?b = 64" "take (md5_block_len c + ?n) ?b = md5_pending c @ take ?n d"
    using wf take_mem_write [of "md5_block_len c" "md5_buf c" "take ?n d"]
    by (auto simp: wf_md5_def md5_pending_def min_def)
  define c' where "c' = (if md5_block_len c + ?n = 64
     then c\<lparr>md5_buf := ?b, md5_state := md5_block (md5_state c) ?b, md5_block_len := 0\<rparr>
     else c\<lparr>md5_buf := ?b, md5_block_len := md5_block_len c + ?n\<rparr>)"
  have len: "length (md5_pending c) = md5_block_len c" by (rule length_md5_pending [OF wf])
  have "md5_absorb c d = md5_absorb c' (drop ?n d)"
    using wf d by (subst md5_absorb.simps) (simp add: Let_def c'_def wf_md5_def)
  also have "drop ?n d = drop (64 - length (md5_pending c)) d" by (simp add: len min_def)
  finally have "md5_absorb c d = md5_absorb c' (drop (64 - length (md5_pending c)) d)" .
  moreover have "wf_md5 c'" using wf b(1) by (auto simp: c'_def wf_md5_def)
  moreover have "md5_state c' = (if length (md5_pending c) + length d < 64 then md5_state c
       else md5_block (md5_state c) (md5_pending c @ take (64 - length (md5_pending c)) d))"
    using wf b unfolding len by (auto simp: c'_def wf_md5_def min_def)
  moreover have "md5_pending c' = (if length (md5_pending c) + length d < 64 then md5_pending c @ d else [])"
    using wf b unfolding len by (auto simp: c'_def wf_md5_def md5_pending_def min_def split: if_splits)
  ultimately show "\<exists>c'. md5_absorb c d = md5_absorb c' (drop (64 - length (md5_pending c)) d) \<and> wf_md5 c'
      \<and> md5_state c' = (if length (md5_pending c) + length d < 64 then md5_state c
           else md5_block (md5_state c) (md5_pending c @ take (64 - length (md5_pending c)) d))
      \<and> md5_pending c' = (if length (md5_pending c) + length d < 64 then md5_pending c @ d else [])"
    by blast
qed

lemma md5_absorb_bytes [simp]: "md5_bytes (md5_absorb c d) = md5_bytes c"
proof (induction c d rule: md5_absorb.induct)
  case (1 c d)
  then show ?case by (subst md5_absorb.simps) (auto simp: Let_def)
qed

lemma md5_update_fold:
  assumes "wf_md5 c"
  shows "wf_md5 (inkwell_md5_update c d)
    \<and> (md5_state (inkwell_md5_update c d), md5_pending (inkwell_md5_update c d))
       = blocks_fold md5_block (md5_state c) (md5_pending c @ d)"
proof -
  let ?c = "c\<lparr>md5_bytes := md5_bytes c + of_nat (length d)\<rparr>"
  have "wf_md5 ?c" "md5_state ?c = md5_state c" "md5_pending ?c = md5_pending c"
    using assms by (simp_all add: wf_md5_def md5_pending_def)
  then show ?thesis using md.absorb_fold [of ?c d] by (simp add: inkwell_md5_update_def)
qed

interpretation md_stream: block_stream md5_block inkwell_md5_update md5_zero_loop md5_state md5_pending wf_md5
proof unfold_locales
  show "length (md5_pending c) < 64" if "wf_md5 c" for c
    using that by (simp add: length_md5_pending) (simp add: wf_md5_def)
  show "wf_md5 (inkwell_md5_update c d)
    \<and> (md5_state (inkwell_md5_update c d), md5_pending (inkwell_md5_update c d))
       = blocks_fold md5_block (md5_state c) (md5_pending c @ d)" if "wf_md5 c" for c d
    by (rule md5_update_fold [OF that])
  show "md5_zero_loop c = (if length (md5_pending c) = 56 then c else md5_zero_loop (inkwell_md5_update c [0]))"
    if "wf_md5 c" for c
    using that by (subst md5_zero_loop.simps) (auto simp: length_md5_pending wf_md5_def)
qed

lemma md5_updates_bytes: "md5_bytes (foldl inkwell_md5_update c ds) = md5_bytes c + of_nat (length (concat ds))"
  by (induction ds arbitrary: c) (simp_all add: inkwell_md5_update_def algebra_simps)

lemma md5_final_fold:
  assumes "wf_md5 c"
  shows "snd (inkwell_md5_final c) = md5_digest_bytes (fst (blocks_fold md5_block (md5_state c)
     (md5_pending c @ 0x80 # replicate (pad_count (length (md5_pending c))) 0 @ md5_length_bytes (md5_bytes c * 8))))"
proof -
  define z where "z = md5_zero_loop (inkwell_md5_update c [0x80])"
  let ?len = "md5_length_bytes (md5_bytes c * 8)"
  have z: "wf_md5 z" "(md5_state z, md5_pending z)
      = blocks_fold md5_block (md5_state c) (md5_pending c @ 0x80 # replicate (pad_count (length (md5_pending c))) 0)"
    using md_stream.padding_fold [OF assms] by (simp_all add: z_def Let_def)
  have "md5_state (inkwell_md5_update z ?len) = fst (blocks_fold md5_block (md5_state z) (md5_pending z @ ?len))"
    using md5_update_fold [OF z(1), of ?len] by (metis fst_conv)
  moreover have "md5_state z = fst (blocks_fold md5_block (md5_state c) (md5_pending c @ 0x80 # replicate (pad_count (length (md5_pending c))) 0))"
    "md5_pending z = snd (blocks_fold md5_block (md5_state c) (md5_pending c @ 0x80 # replicate (pad_count (length (md5_pending c))) 0))"
    using z(2) by (metis fst_conv, metis snd_conv)
  ultimately show ?thesis
    using blocks_fold_append [of md5_block "md5_state c" "md5_pending c @ 0x80 # replicate (pad_count (length (md5_pending c))) 0" ?len]
    by (simp add: inkwell_md5_final_def Let_def z_def)
qed

section \<open>RFC 1321\<close>

definition rfc1321_step :: "nat \<Rightarrow> u32 \<Rightarrow> u32 \<Rightarrow> u32 \<Rightarrow> u32" where
  "rfc1321_step i x y z =
     (if i < 16 then (x AND y) OR (NOT x AND z)
      else if i < 32 then (x AND z) OR (y AND NOT z)
      else if i < 48 then x XOR y XOR z
      else y XOR (x OR NOT z))"

definition rfc1321_index :: "nat \<Rightarrow> nat" where
  "rfc1321_index i = (if i < 16 then i else if i < 32 then (5 * i + 1) mod 16 else if i < 48 then (3 * i + 5) mod 16 else 7 * i mod 16)"

definition rfc1321_round :: "bytes \<Rightarrow> md5_words \<Rightarrow> nat \<Rightarrow> md5_words" where
  "rfc1321_round block v i =
     (case v of (a, b, c, d) \<Rightarrow>
        let k = rfc1321_index i;
            X = le32 (block ! (4 * k)) (block ! (4 * k + 1)) (block ! (4 * k + 2)) (block ! (4 * k + 3))
        in (d, b + word_rotl (k_shift ! i) (a + rfc1321_step i b c d + X + k_sine ! i), b, c))"

definition rfc1321_compress :: "md5_words \<Rightarrow> bytes \<Rightarrow> md5_words" where
  "rfc1321_compress state block =
     (case (state, foldl (rfc1321_round block) state [0..<64]) of
        ((s0, s1, s2, s3), (a, b, c, d)) \<Rightarrow> (s0 + a, s1 + b, s2 + c, s3 + d))"

definition rfc1321_md5 :: "bytes \<Rightarrow> bytes" where
  "rfc1321_md5 msg = md5_digest_bytes (fst (blocks_fold rfc1321_compress md5_iv
     (padded_message msg (md5_length_bytes (of_nat (8 * length msg))))))"

lemma rotl_eq: "0 < n \<Longrightarrow> n < 32 \<Longrightarrow> rotl v n = word_rotl n v"
proof (rule bit_word_eqI)
  fix i assume n: "0 < n" "n < 32" and i: "i < LENGTH(32)"
  show "bit (rotl v n) i = bit (word_rotl n v) i"
  proof (cases "i < n")
    case True
    define j where "j = i + (32 - n)"
    have m: "(i + (LENGTH(32) - n mod LENGTH(32))) mod LENGTH(32) = j" using True n by (simp add: j_def)
    have "bit (word_rotl n v) i = bit v j" unfolding bit_word_rotl_iff m using i by simp
    moreover have "bit (rotl v n) i = bit v ((32 - n) + i)" using True n by (simp add: rotl_def bit_simps)
    ultimately show ?thesis by (simp only: j_def add.commute)
  next
    case False
    have "(i + (32 - n)) mod 32 = i - n" using False n i by (simp add: le_mod_geq)
    then have m: "(i + (LENGTH(32) - n mod LENGTH(32))) mod LENGTH(32) = i - n" using n by simp
    have "bit (word_rotl n v) i = bit v (i - n)" unfolding bit_word_rotl_iff m using i by simp
    moreover have "\<not> bit v ((32 - n) + i)" using False n bit_imp_le_length [of v "(32 - n) + i"] by auto
    then have "bit (rotl v n) i = bit v (i - n)" using False n i by (simp add: rotl_def bit_simps)
    ultimately show ?thesis by simp
  qed
qed

lemma k_shift_range: "i < 64 \<Longrightarrow> 0 < k_shift ! i \<and> k_shift ! i < 32"
proof -
  assume "i < 64"
  moreover have "list_all (\<lambda>n. 0 < n \<and> n < 32) k_shift" "length k_shift = 64" by (simp_all add: k_shift_def)
  ultimately show ?thesis by (simp add: list_all_length)
qed

lemma md5_round_rfc: "i < 64 \<Longrightarrow> md5_round (md5_load block) v i = rfc1321_round block v i"
proof -
  assume i: "i < 64"
  have k: "rfc1321_index i < 16" by (simp add: rfc1321_index_def)
  have X: "md5_load block ! rfc1321_index i = le32 (block ! (4 * rfc1321_index i)) (block ! (4 * rfc1321_index i + 1))
      (block ! (4 * rfc1321_index i + 2)) (block ! (4 * rfc1321_index i + 3))"
    using k by (simp add: md5_load_def le32_def)
  have "md5_round (md5_load block) (a, b, c, d) i
      = (d, b + rotl (a + rfc1321_step i b c d + k_sine ! i + md5_load block ! rfc1321_index i) (k_shift ! i), b, c)" for a b c d
    by (simp add: md5_round_def rfc1321_step_def rfc1321_index_def ac_simps)
  then show ?thesis using k_shift_range [OF i] unfolding X
    by (cases v) (simp add: rfc1321_round_def rotl_eq ac_simps Let_def)
qed

lemma md5_block_rfc: "md5_block state block = rfc1321_compress state block"
proof -
  have "foldl (md5_round (md5_load block)) state [0..<64] = foldl (rfc1321_round block) state [0..<64]"
    by (intro foldl_cong) (auto simp: md5_round_rfc)
  then show ?thesis by (simp add: md5_block_def rfc1321_compress_def split: prod.split)
qed

lemma md5_stream_digest:
  assumes "length (md5_buf ctx) = 64"
  shows "snd (inkwell_md5_final (foldl inkwell_md5_update (inkwell_md5_init ctx) ds)) = rfc1321_md5 (concat ds)"
proof -
  let ?i = "inkwell_md5_init ctx"
  let ?c = "foldl inkwell_md5_update ?i ds"
  have i: "wf_md5 ?i" "md5_state ?i = md5_iv" "md5_pending ?i = []" "md5_bytes ?i = 0"
    using assms by (simp_all add: wf_md5_def inkwell_md5_init_def md5_pending_def)
  have c: "wf_md5 ?c" "(md5_state ?c, md5_pending ?c) = blocks_fold md5_block md5_iv (concat ds)"
    using md_stream.updates_fold [OF i(1), of ds] by (simp_all add: i)
  have bits: "md5_bytes ?c = of_nat (length (concat ds))"
    using md5_updates_bytes [of ?i ds] by (simp add: i)
  have "md5_state ?c = fst (blocks_fold md5_block md5_iv (concat ds))"
    "md5_pending ?c = snd (blocks_fold md5_block md5_iv (concat ds))"
    using c(2) by (metis fst_conv, metis snd_conv)
  moreover from this have "length (md5_pending ?c) = length (concat ds) mod 64"
    by (simp add: blocks_fold_pending_length)
  ultimately show ?thesis
    using md5_final_fold [OF c(1)] bits
      blocks_fold_append [of md5_block md5_iv "concat ds"
        "0x80 # replicate (pad_count (length (concat ds))) 0 @ md5_length_bytes (md5_bytes ?c * 8)"]
    by (simp add: rfc1321_md5_def padded_message_def pad_count_mod md5_block_rfc [abs_def] mult.commute)
qed

lemma length_rfc1321_md5 [simp]: "length (rfc1321_md5 msg) = 16"
  by (simp add: rfc1321_md5_def md5_digest_bytes_def split: prod.split)

section \<open>Properties\<close>

text \<open>
  C28. However a message is cut into pieces, and whatever an initialised context's buffer held before,
  feeding the pieces and finishing gives the digest that RFC 1321 defines for the whole message.
\<close>

theorem md5_digest_correct:
  assumes "length (md5_buf ctx) = 64"
  shows "snd (inkwell_md5_final (foldl inkwell_md5_update (inkwell_md5_init ctx) ds)) = rfc1321_md5 (concat ds)"
  using assms by (rule md5_stream_digest)

theorem md5_digest_correct_witness:
  "let ctx = \<lparr>md5_state = (1, 2, 3, 4), md5_bytes = 7, md5_buf = replicate 64 0xA5, md5_block_len = 9\<rparr>
   in snd (inkwell_md5_final (foldl inkwell_md5_update (inkwell_md5_init ctx) [ascii ''ab'', ascii ''c''])) = rfc1321_md5 (ascii ''abc'')"
  using md5_digest_correct [of "\<lparr>md5_state = (1, 2, 3, 4), md5_bytes = 7, md5_buf = replicate 64 0xA5, md5_block_len = 9\<rparr>" "[ascii ''ab'', ascii ''c'']"]
  by simp

end
