(* ===== verification/Mqtt_Codec.thy ===== *)
theory Mqtt_Codec
  imports Inkwell_Prelude
begin

text \<open>
  The MQTT 3.1.1 packet codec (\<open>src/codec/mqtt.c\<close>). A decoder that can ask for more input answers in
  \<open>errno + 'a option\<close>: \<open>Inl\<close> for a negative return, \<open>Inr None\<close> for the return 0 ("not yet"). An encoder
  takes the capacity of its buffer and answers the count it returns with the bytes it wrote. Pointers
  into a decoded body are the bytes they point at; a string is the list of its bytes before the NUL.
\<close>

section \<open>Model\<close>

datatype mqtt_packet_type = MQTT_PACKET_NONE | MQTT_CONNECT | MQTT_CONNACK | MQTT_PUBLISH | MQTT_PUBACK
  | MQTT_PUBREC | MQTT_PUBREL | MQTT_PUBCOMP | MQTT_SUBSCRIBE | MQTT_SUBACK | MQTT_UNSUBSCRIBE
  | MQTT_UNSUBACK | MQTT_PINGREQ | MQTT_PINGRESP | MQTT_DISCONNECT

definition mqtt_types :: "mqtt_packet_type list" where
  "mqtt_types = [MQTT_PACKET_NONE, MQTT_CONNECT, MQTT_CONNACK, MQTT_PUBLISH, MQTT_PUBACK, MQTT_PUBREC, MQTT_PUBREL,
     MQTT_PUBCOMP, MQTT_SUBSCRIBE, MQTT_SUBACK, MQTT_UNSUBSCRIBE, MQTT_UNSUBACK, MQTT_PINGREQ, MQTT_PINGRESP, MQTT_DISCONNECT]"

fun mqtt_type_number :: "mqtt_packet_type \<Rightarrow> nat" where
  "mqtt_type_number MQTT_PACKET_NONE = 0"
| "mqtt_type_number MQTT_CONNECT = 1"
| "mqtt_type_number MQTT_CONNACK = 2"
| "mqtt_type_number MQTT_PUBLISH = 3"
| "mqtt_type_number MQTT_PUBACK = 4"
| "mqtt_type_number MQTT_PUBREC = 5"
| "mqtt_type_number MQTT_PUBREL = 6"
| "mqtt_type_number MQTT_PUBCOMP = 7"
| "mqtt_type_number MQTT_SUBSCRIBE = 8"
| "mqtt_type_number MQTT_SUBACK = 9"
| "mqtt_type_number MQTT_UNSUBSCRIBE = 10"
| "mqtt_type_number MQTT_UNSUBACK = 11"
| "mqtt_type_number MQTT_PINGREQ = 12"
| "mqtt_type_number MQTT_PINGRESP = 13"
| "mqtt_type_number MQTT_DISCONNECT = 14"

definition mqtt_remaining_max :: nat where "mqtt_remaining_max = 268435455"
definition mqtt_string_max :: nat where "mqtt_string_max = 65535"

definition mqtt_protocol_header :: bytes where
  "mqtt_protocol_header = [0x00, 0x04, asc (CHR ''M''), asc (CHR ''Q''), asc (CHR ''T''), asc (CHR ''T''), 0x04]"

text \<open>
  The number of bytes consumed and the value. The first argument is how many of the four iterations
  are left.
\<close>

fun mqtt_read_varint_loop :: "nat \<Rightarrow> nat \<Rightarrow> u32 \<Rightarrow> u32 \<Rightarrow> bytes \<Rightarrow> errno + (nat \<times> nat) option" where
  "mqtt_read_varint_loop 0 i v multiplier data = Inl EBADMSG"
| "mqtt_read_varint_loop (Suc n) i v multiplier [] = Inr None"
| "mqtt_read_varint_loop (Suc n) i v multiplier (byte # data) =
     (let v = v + ucast (byte AND 0x7F) * multiplier;
          multiplier = multiplier * 128
      in if byte AND 0x80 = 0 then Inr (Some (i + 1, unat v))
         else mqtt_read_varint_loop n (i + 1) v multiplier data)"

definition mqtt_read_varint :: "bytes \<Rightarrow> errno + (nat \<times> nat) option" where
  "mqtt_read_varint data = mqtt_read_varint_loop 4 0 0 1 data"

fun mqtt_write_varint :: "nat \<Rightarrow> bytes" where
  "mqtt_write_varint v =
     (let byte = of_nat (v mod 128)
      in if v div 128 > 0 then (byte OR 0x80) # mqtt_write_varint (v div 128) else [byte])"

fun mqtt_varint_width_loop :: "nat \<Rightarrow> nat \<Rightarrow> nat" where
  "mqtt_varint_width_loop width v = (if 128 \<le> v then mqtt_varint_width_loop (width + 1) (v div 128) else width)"

declare mqtt_write_varint.simps [simp del] mqtt_varint_width_loop.simps [simp del]

definition mqtt_varint_width :: "nat \<Rightarrow> nat" where
  "mqtt_varint_width v = mqtt_varint_width_loop 1 v"

definition mqtt_read_u16 :: "bytes \<Rightarrow> u16" where
  "mqtt_read_u16 data = push_bit 8 (ucast (data ! 0)) OR ucast (data ! 1)"

definition mqtt_write_u16 :: "u16 \<Rightarrow> bytes" where
  "mqtt_write_u16 v = [ucast (drop_bit 8 v), ucast (v AND 0xFF)]"

definition mqtt_write_string :: "bytes \<Rightarrow> bytes" where
  "mqtt_write_string t = mqtt_write_u16 (of_nat (length t)) @ t"

definition mqtt_optional_len :: "bytes option \<Rightarrow> nat" where
  "mqtt_optional_len t = (case t of None \<Rightarrow> 0 | Some s \<Rightarrow> length s)"

definition mqtt_flags_are_legal :: "mqtt_packet_type \<Rightarrow> u8 \<Rightarrow> bool" where
  "mqtt_flags_are_legal type flags =
     (if type = MQTT_PUBLISH then True
      else if type \<in> {MQTT_PUBREL, MQTT_SUBSCRIBE, MQTT_UNSUBSCRIBE} then flags = 0x02
      else if type = MQTT_PACKET_NONE then False
      else flags = 0)"

record mqtt_header =
  hdr_type :: mqtt_packet_type
  hdr_flags :: u8
  hdr_remaining :: nat
  hdr_len :: nat

definition inkwell_mqtt_decode_header :: "bytes option \<Rightarrow> errno + mqtt_header option" where
  "inkwell_mqtt_decode_header data =
     (case data of None \<Rightarrow> Inl EINVAL
      | Some [] \<Rightarrow> Inr None
      | Some (first # rest) \<Rightarrow>
          let raw_type = drop_bit 4 first; flags = first AND 0x0F in
          if raw_type = 0 \<or> raw_type = 15 then Inl EBADMSG
          else let type = mqtt_types ! unat raw_type in
            if \<not> mqtt_flags_are_legal type flags then Inl EBADMSG
            else case mqtt_read_varint rest of
                Inl e \<Rightarrow> Inl e
              | Inr None \<Rightarrow> Inr None
              | Inr (Some (varint, remaining)) \<Rightarrow>
                  Inr (Some \<lparr>hdr_type = type, hdr_flags = flags, hdr_remaining = remaining, hdr_len = 1 + varint\<rparr>))"

record mqtt_incoming =
  in_topic :: bytes
  in_payload :: bytes
  in_qos :: u8
  in_retained :: bool
  in_duplicate :: bool
  in_packet_id :: u16

definition inkwell_mqtt_decode_publish :: "u8 \<Rightarrow> bytes option \<Rightarrow> errno + mqtt_incoming" where
  "inkwell_mqtt_decode_publish flags body =
     (case body of None \<Rightarrow> Inl EINVAL
      | Some b \<Rightarrow>
          let qos = drop_bit 1 (flags AND 0x06) in
          if qos > 2 then Inl EBADMSG
          else if length b < 2 then Inl EBADMSG
          else let topic_len = unat (mqtt_read_u16 b) in
            if topic_len = 0 then Inl EBADMSG
            else let offset = 2 + topic_len in
              if offset > length b then Inl EBADMSG
              else if qos > 0 \<and> length b - offset < 2 then Inl EBADMSG
              else let packet_id = (if qos > 0 then mqtt_read_u16 (drop offset b) else 0);
                       offset = (if qos > 0 then offset + 2 else offset)
                   in Inr \<lparr>in_topic = take topic_len (drop 2 b), in_payload = drop offset b, in_qos = qos,
                        in_retained = (flags AND 0x01 \<noteq> 0), in_duplicate = (flags AND 0x08 \<noteq> 0),
                        in_packet_id = packet_id\<rparr>)"

definition inkwell_mqtt_decode_connack :: "bytes option \<Rightarrow> errno + (bool \<times> u8)" where
  "inkwell_mqtt_decode_connack body =
     (case body of None \<Rightarrow> Inl EINVAL
      | Some b \<Rightarrow>
          if length b \<noteq> 2 then Inl EBADMSG
          else if b ! 0 AND 0xFE \<noteq> 0 then Inl EBADMSG
          else Inr (b ! 0 AND 0x01 \<noteq> 0, b ! 1))"

definition inkwell_mqtt_decode_suback :: "bytes option \<Rightarrow> errno + (u16 \<times> u8)" where
  "inkwell_mqtt_decode_suback body =
     (case body of None \<Rightarrow> Inl EINVAL
      | Some b \<Rightarrow> if length b < 3 then Inl EBADMSG else Inr (mqtt_read_u16 b, b ! 2))"

text \<open>The header written at the front of the buffer and the total, or \<open>None\<close> when it does not fit.\<close>

definition mqtt_begin_packet :: "nat \<Rightarrow> mqtt_packet_type \<Rightarrow> u8 \<Rightarrow> nat \<Rightarrow> (bytes \<times> nat) option" where
  "mqtt_begin_packet cap type flags body_len =
     (if body_len > mqtt_remaining_max then None
      else let header_len = 1 + mqtt_varint_width body_len in
        if cap < header_len + body_len then None
        else Some ((push_bit 4 (of_nat (mqtt_type_number type)) OR (flags AND 0x0F)) # mqtt_write_varint body_len,
                   header_len + body_len))"

record mqtt_connect =
  con_client_id :: "bytes option"
  con_username :: "bytes option"
  con_password :: "bytes option"
  con_keepalive_s :: u16
  con_clean_session :: bool

definition mqtt_connect_flags :: "mqtt_connect \<Rightarrow> u8" where
  "mqtt_connect_flags params =
     (let flags = 0;
          flags = (if con_clean_session params then flags OR 0x02 else flags);
          flags = (if mqtt_optional_len (con_username params) > 0 then flags OR 0x80 else flags)
      in if mqtt_optional_len (con_password params) > 0 then flags OR 0x40 else flags)"

definition inkwell_mqtt_encode_connect :: "nat \<Rightarrow> mqtt_connect option \<Rightarrow> errno + (nat \<times> bytes)" where
  "inkwell_mqtt_encode_connect cap connect =
     (case connect of None \<Rightarrow> Inl EINVAL
      | Some params \<Rightarrow>
     (case con_client_id params of None \<Rightarrow> Inl EINVAL
      | Some client_id \<Rightarrow>
          let client_id_len = length client_id;
              username_len = mqtt_optional_len (con_username params);
              password_len = mqtt_optional_len (con_password params)
          in if client_id_len > mqtt_string_max \<or> username_len > mqtt_string_max \<or> password_len > mqtt_string_max
             then Inl EINVAL
             else if client_id_len = 0 \<and> \<not> con_clean_session params then Inl EINVAL
             else if password_len > 0 \<and> username_len = 0 then Inl EINVAL
             else let body_len = length mqtt_protocol_header + 1 + 2 + (2 + client_id_len)
                        + (if username_len > 0 then 2 + username_len else 0)
                        + (if password_len > 0 then 2 + password_len else 0)
               in case mqtt_begin_packet cap MQTT_CONNECT 0 body_len of
                    None \<Rightarrow> Inl ENOSPC
                  | Some (header, total_len) \<Rightarrow>
                      Inr (total_len, header @ mqtt_protocol_header @ [mqtt_connect_flags params]
                        @ mqtt_write_u16 (con_keepalive_s params) @ mqtt_write_string client_id
                        @ (if username_len > 0 then mqtt_write_string (the (con_username params)) else [])
                        @ (if password_len > 0 then mqtt_write_string (the (con_password params)) else []))))"

definition inkwell_mqtt_encode_publish :: "nat \<Rightarrow> bytes option \<Rightarrow> bytes option \<Rightarrow> bool \<Rightarrow> errno + (nat \<times> bytes)" where
  "inkwell_mqtt_encode_publish cap topic payload retained =
     (case (topic, payload) of
        (Some t, Some p) \<Rightarrow>
          if t = [] \<or> length t > mqtt_string_max then Inl EINVAL
          else (case mqtt_begin_packet cap MQTT_PUBLISH (if retained then 0x01 else 0) (2 + length t + length p) of
                  None \<Rightarrow> Inl ENOSPC
                | Some (header, total_len) \<Rightarrow> Inr (total_len, header @ mqtt_write_string t @ p))
      | _ \<Rightarrow> Inl EINVAL)"

definition inkwell_mqtt_encode_subscribe :: "nat \<Rightarrow> u16 \<Rightarrow> bytes option \<Rightarrow> errno + (nat \<times> bytes)" where
  "inkwell_mqtt_encode_subscribe cap packet_id topic_filter =
     (case topic_filter of None \<Rightarrow> Inl EINVAL
      | Some f \<Rightarrow>
          if packet_id = 0 then Inl EINVAL
          else if f = [] \<or> length f > mqtt_string_max then Inl EINVAL
          else (case mqtt_begin_packet cap MQTT_SUBSCRIBE 0x02 (2 + 2 + length f + 1) of
                  None \<Rightarrow> Inl ENOSPC
                | Some (header, total_len) \<Rightarrow> Inr (total_len, header @ mqtt_write_u16 packet_id @ mqtt_write_string f @ [0])))"

definition inkwell_mqtt_encode_empty :: "nat \<Rightarrow> mqtt_packet_type \<Rightarrow> errno + (nat \<times> bytes)" where
  "inkwell_mqtt_encode_empty cap type =
     (if type \<noteq> MQTT_PINGREQ \<and> type \<noteq> MQTT_DISCONNECT then Inl EINVAL
      else case mqtt_begin_packet cap type 0 0 of
             None \<Rightarrow> Inl ENOSPC
           | Some (header, total_len) \<Rightarrow> Inr (total_len, header))"

definition inkwell_mqtt_topic_is_publishable :: "bytes option \<Rightarrow> bool" where
  "inkwell_mqtt_topic_is_publishable topic =
     (case topic of None \<Rightarrow> False
      | Some t \<Rightarrow> if t = [] \<or> length t > mqtt_string_max then False
                  else \<not> list_ex (\<lambda>c. c = asc (CHR ''+'') \<or> c = asc (CHR ''#'')) t)"

section \<open>Variable-length integers\<close>

lemma low7_bits:
  fixes b :: u8
  assumes "unat b < 128"
  shows "b AND 0x7F = b" "b AND 0x80 = 0" "(b OR 0x80) AND 0x7F = b" "(b OR 0x80) AND 0x80 \<noteq> 0"
proof -
  have "unat (b AND 0x7F) = unat b"
    using unat_and_mask [of b 7] assms by (simp add: mask_eq_exp_minus_1)
  then show low: "b AND 0x7F = b" by (simp only: word_unat_eq_iff)
  have "b AND 0x80 = (b AND 0x7F) AND 0x80" by (simp only: low)
  also have "\<dots> = b AND (0x7F AND 0x80)" by (simp only: and.assoc)
  finally show "b AND 0x80 = 0" by simp
  have "(b OR 0x80) AND 0x7F = (b AND 0x7F) OR (0x80 AND 0x7F)" by (rule word_ao_dist)
  then show "(b OR 0x80) AND 0x7F = b" by (simp add: low)
  have "(b OR 0x80) AND 0x80 = (b AND 0x80) OR (0x80 AND 0x80)" by (rule word_ao_dist)
  then have "(b OR 0x80) AND 0x80 = 0x80" using \<open>b AND 0x80 = 0\<close> by simp
  then show "(b OR 0x80) AND 0x80 \<noteq> 0" by simp
qed

text \<open>
  The loop's accumulators: after \<open>4 - n\<close> bytes the multiplier is a power of 128 and the value is below
  it, so neither wraps around in 32 bits.
\<close>

definition varint_inv :: "nat \<Rightarrow> u32 \<Rightarrow> u32 \<Rightarrow> bool" where
  "varint_inv n v m = (n \<le> 4 \<and> unat m = 128 ^ (4 - n) \<and> unat v < 128 ^ (4 - n))"

lemma varint_step:
  assumes "varint_inv (Suc n) v m" "unat b < 128"
  shows "unat (v + ucast (b :: u8) * m) = unat v + unat b * unat m" "varint_inv n (v + ucast b * m) (m * 128)"
    "unat (m * 128) = unat m * 128"
proof -
  have n: "Suc n \<le> 4" "unat m = 128 ^ (4 - Suc n)" "unat v < 128 ^ (4 - Suc n)"
    using assms by (simp_all add: varint_inv_def)
  have pow: "(128::nat) ^ (4 - n) = 128 * 128 ^ (4 - Suc n)" using n(1) by (metis Suc_diff_Suc Suc_le_lessD power_Suc)
  have le: "(128::nat) ^ (4 - n) \<le> 268435456" using power_increasing [of "4 - n" 4 "128::nat"] by simp
  define P :: nat where "P = 128 ^ (4 - Suc n)"
  have "(unat b + 1) * P \<le> 128 * P" using assms(2) by (intro mult_right_mono) auto
  moreover have "(unat b + 1) * P = unat b * P + P" by simp
  ultimately have lt: "unat v + unat b * unat m < 128 ^ (4 - n)" using n(3) [folded P_def] unfolding n(2) pow P_def [symmetric] by linarith
  have ub: "unat (ucast b :: u32) = unat b" by (rule unat_ucast_u8) simp
  have "unat (ucast b * m) = unat b * unat m"
    using lt le ub by (subst unat_mult_lem [THEN iffD1]) simp_all
  then show v: "unat (v + ucast b * m) = unat v + unat b * unat m"
    using lt le by (subst unat_add_lem [THEN iffD1]) simp_all
  show m: "unat (m * 128) = unat m * 128"
    using n(2) le unfolding pow by (subst unat_mult_lem [THEN iffD1]) simp_all
  show "varint_inv n (v + ucast b * m) (m * 128)"
    using n lt v pow m by (simp add: varint_inv_def)
qed

lemma unat_and7F_lt: "unat (b AND 0x7F :: u8) < 128"
  using unat_and_mask [of b 7] by (simp add: mask_eq_exp_minus_1)

lemma read_varint_write:
  "0 < n \<Longrightarrow> v < 128 ^ n \<Longrightarrow> varint_inv n acc m \<Longrightarrow>
   mqtt_read_varint_loop n i acc m (mqtt_write_varint v @ rest)
     = Inr (Some (i + length (mqtt_write_varint v), unat acc + v * unat m))"
proof (induction n arbitrary: v acc m i)
  case (Suc n)
  define b :: u8 where "b = of_nat (v mod 128)"
  have b: "unat b = v mod 128" "unat b < 128" by (simp_all add: b_def unat_of_nat)
  note bits = low7_bits [OF b(2)]
  note step = varint_step [OF Suc.prems(3) b(2)]
  show ?case
  proof (cases "v div 128 > 0")
    case True
    have w: "mqtt_write_varint v = (b OR 0x80) # mqtt_write_varint (v div 128)"
      using True by (subst mqtt_write_varint.simps) (simp add: b_def Let_def)
    have q: "v div 128 < 128 ^ n" using Suc.prems(2) by (simp add: less_mult_imp_div_less mult.commute)
    have n: "0 < n" using q True by (cases n) auto
    have "unat (acc + ucast b * m) + v div 128 * unat (m * 128) = unat acc + (v mod 128 + v div 128 * 128) * unat m"
      unfolding step(1,3) b(1) add_mult_distrib by simp
    then show ?thesis using Suc.IH [OF n q step(2), of "i + 1"] bits by (simp add: w Let_def)
  next
    case False
    then have "mqtt_write_varint v = [b]"
      by (subst mqtt_write_varint.simps) (simp add: b_def Let_def)
    moreover have "v mod 128 = v" using False by (simp add: div_greater_zero_iff)
    ultimately show ?thesis using bits step(1) b(1) by (simp add: Let_def)
  qed
qed simp

lemma width_loop_shift: "mqtt_varint_width_loop w v = w + mqtt_varint_width_loop 0 v"
proof (induction v arbitrary: w rule: less_induct)
  case (less v)
  have unfold: "mqtt_varint_width_loop u v = (if 128 \<le> v then mqtt_varint_width_loop (u + 1) (v div 128) else u)" for u
    by (rule mqtt_varint_width_loop.simps)
  show ?case
  proof (cases "128 \<le> v")
    case True
    then have d: "v div 128 < v" by simp
    show ?thesis unfolding unfold [of w] unfold [of 0] less.IH [OF d, of "w + 1"] less.IH [OF d, of "0 + 1"]
      using True by simp
  qed (simp add: unfold)
qed

lemma write_varint_width: "length (mqtt_write_varint v) = mqtt_varint_width v"
proof (induction v rule: mqtt_write_varint.induct)
  case (1 v)
  have w: "mqtt_varint_width v = (if 128 \<le> v then 1 + mqtt_varint_width (v div 128) else 1)"
    unfolding mqtt_varint_width_def
    by (subst mqtt_varint_width_loop.simps)
      (simp add: width_loop_shift [of "Suc (Suc 0)"] width_loop_shift [of "Suc 0"])
  show ?case
  proof (cases "128 \<le> v")
    case True
    then have "length (mqtt_write_varint (v div 128)) = mqtt_varint_width (v div 128)"
      using 1 [OF refl] by (simp add: div_greater_zero_iff)
    then show ?thesis using True w by (subst mqtt_write_varint.simps) (simp add: Let_def div_greater_zero_iff)
  next
    case False
    then show ?thesis using w by (subst mqtt_write_varint.simps) (simp add: Let_def div_greater_zero_iff)
  qed
qed

lemma write_varint_prefix:
  "0 < n \<Longrightarrow> v < 128 ^ n \<Longrightarrow> k < length (mqtt_write_varint v) \<Longrightarrow> mqtt_read_varint_loop n i acc m (take k (mqtt_write_varint v)) = Inr None"
proof (induction n arbitrary: v acc m i k)
  case (Suc n)
  define b :: u8 where "b = of_nat (v mod 128)"
  have b: "unat b < 128" by (simp add: b_def unat_of_nat)
  show ?case
  proof (cases k)
    case (Suc j)
    have pos: "v div 128 > 0" using Suc.prems(3) Suc
      by (subst (asm) mqtt_write_varint.simps) (auto simp: Let_def split: if_splits)
    from pos have w: "mqtt_write_varint v = (b OR 0x80) # mqtt_write_varint (v div 128)"
      by (subst mqtt_write_varint.simps) (simp add: b_def Let_def)
    have "v div 128 < 128 ^ n" using Suc.prems(2) by (simp add: less_mult_imp_div_less mult.commute)
    moreover from this pos have "0 < n" by (cases n) auto
    ultimately show ?thesis using Suc.IH [of "v div 128" j] Suc.prems(3) low7_bits [OF b] by (simp add: w Suc Let_def)
  qed simp
qed simp

text \<open>More input never changes an answer that was not \<open>not yet\<close>, and an answer stays within the input.\<close>

lemma read_varint_stable:
  "mqtt_read_varint_loop n i v m data \<noteq> Inr None \<Longrightarrow>
   mqtt_read_varint_loop n i v m (data @ later) = mqtt_read_varint_loop n i v m data"
  by (induction n i v m data rule: mqtt_read_varint_loop.induct) (auto simp: Let_def)

lemma read_varint_bounds:
  "mqtt_read_varint_loop n i v m data = Inr (Some (c, x)) \<Longrightarrow> varint_inv n v m \<Longrightarrow>
   i < c \<and> c \<le> i + n \<and> c \<le> i + length data \<and> x < 268435456"
proof (induction n i v m data rule: mqtt_read_varint_loop.induct)
  case (3 n i v m byte data)
  note step = varint_step [OF "3.prems"(2) unat_and7F_lt [of byte]]
  show ?case
  proof (cases "byte AND 0x80 = 0")
    case True
    have "(128::nat) ^ (4 - n) \<le> 268435456" using power_increasing [of "4 - n" 4 "128::nat"] by simp
    then show ?thesis using True "3.prems"(1) step(2) by (auto simp: Let_def varint_inv_def)
  next
    case False
    then show ?thesis using 3 step(2) by (fastforce simp: Let_def)
  qed
qed simp_all

lemma varint_width_le: "v < 268435456 \<Longrightarrow> mqtt_varint_width v \<le> 4"
proof -
  assume v: "v < 268435456"
  have inv: "varint_inv 4 0 1" by (simp add: varint_inv_def)
  have "mqtt_read_varint_loop 4 0 0 1 (mqtt_write_varint v @ []) = Inr (Some (0 + length (mqtt_write_varint v), unat (0 :: u32) + v * unat (1 :: u32)))"
    by (rule read_varint_write) (use v inv in simp_all)
  from read_varint_bounds [OF this inv] show ?thesis by (simp add: write_varint_width)
qed

section \<open>Headers\<close>

lemma mqtt_type_number_inv [simp]: "mqtt_types ! mqtt_type_number type = type" "mqtt_type_number type < 15"
  by (cases type; simp add: mqtt_types_def)+

lemma mqtt_type_number_0 [simp]: "mqtt_type_number type = 0 \<longleftrightarrow> type = MQTT_PACKET_NONE"
  by (cases type) simp_all

lemma nibble_pair:
  fixes t flags :: u8
  assumes "unat t < 16" "flags AND 0x0F = flags"
  shows "drop_bit 4 (push_bit 4 t OR flags) = t" "(push_bit 4 t OR flags) AND 0x0F = flags"
proof -
  have "unat (flags AND 0x0F) = unat flags mod 16" using unat_and_mask [of flags 4] by (simp add: mask_eq_exp_minus_1)
  then have f: "unat flags < 16" unfolding assms(2) by (metis mod_less_divisor zero_less_numeral)
  have u: "unat (push_bit 4 t OR flags) = unat t * 16 + unat flags"
    using unat_push_or [of t 4 flags] assms(1) f by simp
  have "unat (drop_bit 4 (push_bit 4 t OR flags)) = unat t" unfolding unat_drop_bit u using f by simp
  then show "drop_bit 4 (push_bit 4 t OR flags) = t" by (simp only: word_unat_eq_iff)
  have "unat ((push_bit 4 t OR flags) AND 0x0F) = (unat t * 16 + unat flags) mod 16"
    using unat_and_mask [of "push_bit 4 t OR flags" 4] by (simp add: mask_eq_exp_minus_1 u)
  also have "\<dots> = unat flags" using f by simp
  finally show "(push_bit 4 t OR flags) AND 0x0F = flags" by (simp only: word_unat_eq_iff)
qed

lemma begin_packet_decodes:
  assumes "mqtt_begin_packet cap type flags n = Some (hdr, total_len)"
    "mqtt_flags_are_legal type flags" "flags AND 0x0F = flags"
  shows "inkwell_mqtt_decode_header (Some (hdr @ rest))
       = Inr (Some \<lparr>hdr_type = type, hdr_flags = flags, hdr_remaining = n, hdr_len = length hdr\<rparr>)"
    "total_len = length hdr + n" "total_len \<le> cap" "n \<le> mqtt_remaining_max" "2 \<le> length hdr"
    "k < length hdr \<Longrightarrow> inkwell_mqtt_decode_header (Some (take k hdr)) = Inr None"
proof -
  let ?t = "of_nat (mqtt_type_number type) :: u8"
  let ?first = "push_bit 4 ?t OR flags"
  have hdr: "hdr = ?first # mqtt_write_varint n" and n: "n \<le> mqtt_remaining_max"
    and total_len: "total_len = 1 + mqtt_varint_width n + n" "1 + mqtt_varint_width n + n \<le> cap"
    using assms by (auto simp: mqtt_begin_packet_def Let_def split: if_splits)
  have none: "type \<noteq> MQTT_PACKET_NONE" using assms(2) by (auto simp: mqtt_flags_are_legal_def)
  have t: "unat ?t = mqtt_type_number type" "unat ?t < 15" by (cases type; simp)+
  then have t': "unat ?t < 16" "?t \<noteq> 0" "?t \<noteq> 15" using none by (cases type; simp)+
  note first = nibble_pair [OF t'(1) assms(3)]
  have lt: "n < 128 ^ 4" using n by (simp add: mqtt_remaining_max_def)
  have inv: "varint_inv 4 0 1" by (simp add: varint_inv_def)
  have head: "inkwell_mqtt_decode_header (Some (?first # more_bytes)) =
      (case mqtt_read_varint more_bytes of Inl e \<Rightarrow> Inl e | Inr None \<Rightarrow> Inr None
       | Inr (Some (varint, remaining)) \<Rightarrow>
           Inr (Some \<lparr>hdr_type = type, hdr_flags = flags, hdr_remaining = remaining, hdr_len = 1 + varint\<rparr>))" for more_bytes
    unfolding inkwell_mqtt_decode_header_def option.case list.case Let_def first t(1) mqtt_type_number_inv(1) using t' assms(2) by simp
  show "inkwell_mqtt_decode_header (Some (hdr @ rest))
       = Inr (Some \<lparr>hdr_type = type, hdr_flags = flags, hdr_remaining = n, hdr_len = length hdr\<rparr>)"
    using read_varint_write [OF _ lt inv, of 0 rest] by (simp add: hdr head mqtt_read_varint_def)
  show "total_len = length hdr + n" "total_len \<le> cap" using total_len by (simp_all add: hdr write_varint_width)
  show "n \<le> mqtt_remaining_max" by (rule n)
  have "mqtt_write_varint n \<noteq> []" by (subst mqtt_write_varint.simps) (simp add: Let_def)
  then show "2 \<le> length hdr" by (cases "mqtt_write_varint n") (simp_all add: hdr)
  show "inkwell_mqtt_decode_header (Some (take k hdr)) = Inr None" if "k < length hdr"
  proof (cases k)
    case 0
    then show ?thesis by (simp add: inkwell_mqtt_decode_header_def)
  next
    case (Suc j)
    then show ?thesis using that write_varint_prefix [OF _ lt, of j 0 0 1]
      by (simp add: hdr head mqtt_read_varint_def)
  qed
qed

lemma begin_packet_fits:
  assumes "n \<le> 268435455" "5 + n \<le> cap"
  obtains hdr total_len where "mqtt_begin_packet cap type flags n = Some (hdr, total_len)"
proof -
  have "mqtt_varint_width n \<le> 4" by (rule varint_width_le) (use assms in simp)
  then have "\<not> n > mqtt_remaining_max" "\<not> cap < 1 + mqtt_varint_width n + n"
    using assms by (simp_all add: mqtt_remaining_max_def)
  then show thesis using that by (simp add: mqtt_begin_packet_def Let_def)
qed

section \<open>Strings\<close>

lemma read_write_u16: "mqtt_read_u16 (mqtt_write_u16 v @ rest) = v"
proof -
  have q: "unat (ucast (ucast (drop_bit 8 v) :: u8) :: u16) = unat v div 256 mod 256"
    using unat_ucast_u8 [of "ucast (drop_bit 8 v)", where 'b = 16] unat_ucast_drop [of 8 v] by simp
  have "v AND 0xFF = take_bit 8 v" by (simp add: take_bit_eq_mask mask_eq_exp_minus_1)
  then have "unat (ucast (v AND 0xFF) :: u8) = unat v mod 256"
    using unat_ucast_drop [of 0 "take_bit 8 v"] by (simp add: take_bit_eq_mod unat_mod)
  then have w: "unat (ucast (ucast (v AND 0xFF) :: u8) :: u16) = unat v mod 256"
    using unat_ucast_u8 [of "ucast (v AND 0xFF)", where 'b = 16] by simp
  have "unat v div 256 < 256" using unat_u16_lt [of v] by (simp add: less_mult_imp_div_less)
  then have "unat (mqtt_read_u16 (mqtt_write_u16 v @ rest)) = unat v div 256 * 256 + unat v mod 256"
    using unat_push_or [of "ucast (ucast (drop_bit 8 v) :: u8) :: u16" 8 "ucast (ucast (v AND 0xFF) :: u8)"] q w
    by (simp add: mqtt_read_u16_def mqtt_write_u16_def)
  then show ?thesis by (simp only: div_mult_mod_eq word_unat_eq_iff)
qed

lemma length_write_u16 [simp]: "length (mqtt_write_u16 v) = 2"
  by (simp add: mqtt_write_u16_def)

lemma read_write_string:
  assumes "length t \<le> mqtt_string_max"
  shows "unat (mqtt_read_u16 (mqtt_write_string t @ rest)) = length t" "drop 2 (mqtt_write_string t @ rest) = t @ rest"
    "length (mqtt_write_string t) = 2 + length t"
proof -
  have "unat (of_nat (length t) :: u16) = length t"
    using assms by (simp add: unat_of_nat mqtt_string_max_def)
  then show "unat (mqtt_read_u16 (mqtt_write_string t @ rest)) = length t"
    by (simp add: mqtt_write_string_def read_write_u16)
qed (simp_all add: mqtt_write_string_def)

section \<open>What a broker reads\<close>

text \<open>
  The CONNECT body as MQTT 3.1.1 section 3.1 lays it out, read from the other side: protocol name and
  level, a flags byte with its reserved and will bits zero, keep-alive, then the strings the flags
  announce, and nothing after them.
\<close>

definition read_string :: "bytes \<Rightarrow> (bytes \<times> bytes) option" where
  "read_string b =
     (if length b < 2 \<or> length b < 2 + unat (mqtt_read_u16 b) then None
      else Some (take (unat (mqtt_read_u16 b)) (drop 2 b), drop (2 + unat (mqtt_read_u16 b)) b))"

definition read_optional :: "bool \<Rightarrow> bytes \<Rightarrow> (bytes \<times> bytes) option" where
  "read_optional present b = (if present then read_string b else Some ([], b))"

definition broker_connect :: "bytes \<Rightarrow> (bool \<times> u16 \<times> bytes \<times> bytes \<times> bytes) option" where
  "broker_connect b =
     (if length b < 10 \<or> take 7 b \<noteq> mqtt_protocol_header then None
      else let flags = b ! 7 in
        if flags AND 0x3D \<noteq> 0 \<or> (flags AND 0x40 \<noteq> 0 \<and> flags AND 0x80 = 0) then None
        else do {
          (client, b1) \<leftarrow> read_string (drop 10 b);
          (user, b2) \<leftarrow> read_optional (flags AND 0x80 \<noteq> 0) b1;
          (pass, b3) \<leftarrow> read_optional (flags AND 0x40 \<noteq> 0) b2;
          if b3 = [] then Some (flags AND 0x02 \<noteq> 0, mqtt_read_u16 (drop 8 b), client, user, pass) else None })"

lemma read_string_write: "length t \<le> mqtt_string_max \<Longrightarrow> read_string (mqtt_write_string t @ rest) = Some (t, rest)"
  using read_write_string(1) [of t rest] read_write_string(2) [of t rest] read_write_string(3) [of t]
  by (simp add: read_string_def drop_drop [symmetric] add.commute del: drop_drop)

lemma mqtt_connect_flags_bits:
  assumes "mqtt_optional_len (con_password params) > 0 \<Longrightarrow> mqtt_optional_len (con_username params) > 0"
  shows "mqtt_connect_flags params AND 0x3D = 0"
    "mqtt_connect_flags params AND 0x80 \<noteq> 0 \<longleftrightarrow> mqtt_optional_len (con_username params) > 0"
    "mqtt_connect_flags params AND 0x40 \<noteq> 0 \<longleftrightarrow> mqtt_optional_len (con_password params) > 0"
    "mqtt_connect_flags params AND 0x02 \<noteq> 0 \<longleftrightarrow> con_clean_session params"
  using assms by (simp_all add: mqtt_connect_flags_def Let_def)

definition optional_text :: "bytes option \<Rightarrow> bytes" where
  "optional_text t = (case t of None \<Rightarrow> [] | Some s \<Rightarrow> s)"

lemma optional_len_text: "mqtt_optional_len t = length (optional_text t)"
  by (simp add: mqtt_optional_len_def optional_text_def split: option.split)

lemma read_optional_write:
  "length (optional_text t) \<le> mqtt_string_max \<Longrightarrow>
   read_optional (mqtt_optional_len t > 0) ((if mqtt_optional_len t > 0 then mqtt_write_string (the t) else []) @ rest)
     = Some (optional_text t, rest)"
  by (cases t) (auto simp: read_optional_def read_string_write mqtt_optional_len_def optional_text_def)

definition connect_body :: "mqtt_connect \<Rightarrow> bytes \<Rightarrow> bytes" where
  "connect_body params client =
     mqtt_protocol_header @ [mqtt_connect_flags params] @ mqtt_write_u16 (con_keepalive_s params) @ mqtt_write_string client
       @ (if mqtt_optional_len (con_username params) > 0 then mqtt_write_string (the (con_username params)) else [])
       @ (if mqtt_optional_len (con_password params) > 0 then mqtt_write_string (the (con_password params)) else [])"

lemma length_write_string: "length (mqtt_write_string t) = 2 + length t"
  by (simp add: mqtt_write_string_def)

lemma connect_body_length:
  "length (connect_body params client) = length mqtt_protocol_header + 1 + 2 + (2 + length client)
     + (if mqtt_optional_len (con_username params) > 0 then 2 + mqtt_optional_len (con_username params) else 0)
     + (if mqtt_optional_len (con_password params) > 0 then 2 + mqtt_optional_len (con_password params) else 0)"
  by (cases "con_username params"; cases "con_password params")
    (simp_all add: connect_body_def length_write_string mqtt_optional_len_def)

lemma encode_connect_cases:
  assumes "inkwell_mqtt_encode_connect cap connect = Inr (n, p)"
  obtains params client hdr where "connect = Some params" "con_client_id params = Some client"
    "length client \<le> mqtt_string_max" "length (optional_text (con_username params)) \<le> mqtt_string_max"
    "length (optional_text (con_password params)) \<le> mqtt_string_max"
    "client = [] \<Longrightarrow> con_clean_session params"
    "mqtt_optional_len (con_password params) > 0 \<Longrightarrow> mqtt_optional_len (con_username params) > 0"
    "mqtt_begin_packet cap MQTT_CONNECT 0 (length (connect_body params client)) = Some (hdr, n)"
    "p = hdr @ connect_body params client"
proof -
  obtain params client where c: "connect = Some params" "con_client_id params = Some client"
    using assms by (auto simp: inkwell_mqtt_encode_connect_def split: option.splits)
  note e = assms [unfolded inkwell_mqtt_encode_connect_def c option.case Let_def connect_body_length [symmetric]
      connect_body_def [symmetric]]
  obtain hdr where "mqtt_begin_packet cap MQTT_CONNECT 0 (length (connect_body params client)) = Some (hdr, n)"
    "p = hdr @ connect_body params client"
    using e by (auto split: if_splits option.splits)
  then show thesis
    by (rule that [OF c, rotated -2])
      (use e in \<open>auto simp: optional_len_text [symmetric] not_less split: if_splits\<close>)
qed

lemma broker_connect_body:
  assumes "length client \<le> mqtt_string_max" "length (optional_text (con_username params)) \<le> mqtt_string_max"
    "length (optional_text (con_password params)) \<le> mqtt_string_max"
    "mqtt_optional_len (con_password params) > 0 \<Longrightarrow> mqtt_optional_len (con_username params) > 0"
  shows "broker_connect (connect_body params client)
     = Some (con_clean_session params, con_keepalive_s params, client, optional_text (con_username params), optional_text (con_password params))"
    (is "broker_connect ?b = _")
proof -
  note bits = mqtt_connect_flags_bits [OF assms(4)]
  have pass: "mqtt_optional_len (con_password params) = 0 \<or> mqtt_optional_len (con_username params) > 0"
    using assms(4) by (cases "mqtt_optional_len (con_password params)") auto
  let ?p = "if mqtt_optional_len (con_password params) > 0 then mqtt_write_string (the (con_password params)) else []"
  let ?u = "if mqtt_optional_len (con_username params) > 0 then mqtt_write_string (the (con_username params)) else []"
  have len: "length mqtt_protocol_header = 7" by (simp add: mqtt_protocol_header_def)
  have b: "\<not> length ?b < 10" "take 7 ?b = mqtt_protocol_header" "?b ! 7 = mqtt_connect_flags params"
    "drop 8 ?b = mqtt_write_u16 (con_keepalive_s params) @ mqtt_write_string client @ ?u @ ?p"
    "drop 10 ?b = mqtt_write_string client @ ?u @ ?p"
    by (simp_all add: connect_body_def len nth_append)
  show ?thesis
    unfolding broker_connect_def b Let_def bits read_write_u16 read_string_write [OF assms(1)]
    using read_optional_write [OF assms(2), of ?p] read_optional_write [OF assms(3), of "[]"] pass b(1)
    by (auto simp: bits len)
qed

section \<open>Properties\<close>

text \<open>Every encoder builds a legal header for the body it writes.\<close>

definition framed :: "nat \<Rightarrow> nat \<Rightarrow> bytes \<Rightarrow> bool" where
  "framed cap n p = (\<exists>ty flags hdr body. mqtt_begin_packet cap ty flags (length body) = Some (hdr, n) \<and> p = hdr @ body
      \<and> mqtt_flags_are_legal ty flags \<and> flags AND 0x0F = flags)"

lemma framedI:
  "mqtt_begin_packet cap ty flags (length body) = Some (hdr, n) \<Longrightarrow> p = hdr @ body \<Longrightarrow>
   mqtt_flags_are_legal ty flags \<Longrightarrow> flags AND 0x0F = flags \<Longrightarrow> framed cap n p"
  unfolding framed_def by blast

lemma connect_framed: "inkwell_mqtt_encode_connect cap params = Inr (n, p) \<Longrightarrow> framed cap n p"
  by (erule encode_connect_cases, erule framedI, assumption) (simp_all add: mqtt_flags_are_legal_def)

lemma encode_publish_cases:
  assumes "inkwell_mqtt_encode_publish cap topic payload retained = Inr (n, p)"
  obtains t pl hdr where "topic = Some t" "payload = Some pl" "t \<noteq> []" "length t \<le> mqtt_string_max"
    "mqtt_begin_packet cap MQTT_PUBLISH (if retained then 0x01 else 0) (length (mqtt_write_string t @ pl)) = Some (hdr, n)"
    "p = hdr @ mqtt_write_string t @ pl"
proof -
  obtain t pl where c: "topic = Some t" "payload = Some pl"
    using assms by (auto simp: inkwell_mqtt_encode_publish_def split: option.splits)
  have len: "length (mqtt_write_string t @ pl) = 2 + length t + length pl" by (simp add: length_write_string)
  note e = assms [unfolded inkwell_mqtt_encode_publish_def c option.case prod.case len [symmetric]]
  obtain hdr where "mqtt_begin_packet cap MQTT_PUBLISH (if retained then 0x01 else 0) (length (mqtt_write_string t @ pl)) = Some (hdr, n)"
    "p = hdr @ mqtt_write_string t @ pl"
    using e by (auto simp del: length_append split: if_split_asm option.split_asm)
  then show thesis
    by (rule that [OF c, rotated -2]) (use e in \<open>auto split: if_split_asm\<close>)
qed

lemma publish_framed: "inkwell_mqtt_encode_publish cap topic payload retained = Inr (n, p) \<Longrightarrow> framed cap n p"
  by (erule encode_publish_cases, erule framedI, assumption) (simp_all add: mqtt_flags_are_legal_def)

lemma subscribe_framed:
  assumes "inkwell_mqtt_encode_subscribe cap packet_id topic_filter = Inr (n, p)"
  shows "framed cap n p"
proof -
  obtain f where c: "topic_filter = Some f"
    using assms by (auto simp: inkwell_mqtt_encode_subscribe_def split: option.splits)
  let ?b = "mqtt_write_u16 packet_id @ mqtt_write_string f @ [0]"
  have len: "2 + 2 + length f + 1 = length ?b" by (simp add: length_write_string)
  note e = assms [unfolded inkwell_mqtt_encode_subscribe_def c option.case len]
  then obtain hdr where "mqtt_begin_packet cap MQTT_SUBSCRIBE 0x02 (length ?b) = Some (hdr, n)" "p = hdr @ ?b"
    by (auto simp del: length_append split: if_split_asm option.split_asm)
  then show ?thesis by (rule framedI) (simp_all add: mqtt_flags_are_legal_def)
qed

lemma empty_framed:
  assumes "inkwell_mqtt_encode_empty cap type = Inr (n, p)"
  shows "framed cap n p"
proof -
  have "mqtt_begin_packet cap type 0 (length ([] :: bytes)) = Some (p, n)" "type = MQTT_PINGREQ \<or> type = MQTT_DISCONNECT"
    using assms by (auto simp: inkwell_mqtt_encode_empty_def split: if_split_asm option.split_asm)
  then show ?thesis by (intro framedI [of cap type 0 "[]" p n p]) (auto simp: mqtt_flags_are_legal_def)
qed

text \<open>
  C23. Every packet the encoders produce fits the buffer and is framed correctly: the count returned
  is the number of bytes written, the header decoder finds the packet's end whatever follows it, and
  on a header that has not fully arrived it asks for more instead of failing.
\<close>

theorem mqtt_packets_frame:
  assumes "e = inkwell_mqtt_encode_connect cap params \<or> e = inkwell_mqtt_encode_publish cap topic payload retained
      \<or> e = inkwell_mqtt_encode_subscribe cap packet_id topic_filter \<or> e = inkwell_mqtt_encode_empty cap type"
    and "e = Inr (n, p)"
  shows "n = length p \<and> n \<le> cap \<and> (\<exists>h. inkwell_mqtt_decode_header (Some (p @ rest)) = Inr (Some h)
      \<and> hdr_len h + hdr_remaining h = n \<and> 2 \<le> hdr_len h
      \<and> (\<forall>k < hdr_len h. inkwell_mqtt_decode_header (Some (take k p)) = Inr None))"
proof -
  have "framed cap n p"
    using assms connect_framed publish_framed subscribe_framed empty_framed by metis
  then obtain ty flags hdr body where b: "mqtt_begin_packet cap ty flags (length body) = Some (hdr, n)" "p = hdr @ body"
    "mqtt_flags_are_legal ty flags" "flags AND 0x0F = flags" unfolding framed_def by blast
  note d = begin_packet_decodes [OF b(1,3,4)]
  show ?thesis using d(1) [of "body @ rest"] d(2-6) b(2) by simp
qed

lemmas mqtt_encode_eval = inkwell_mqtt_encode_publish_def mqtt_begin_packet_def mqtt_remaining_max_def mqtt_string_max_def
  mqtt_varint_width_def mqtt_varint_width_loop.simps mqtt_write_varint.simps mqtt_write_string_def mqtt_write_u16_def

theorem mqtt_packets_frame_witness:
  "inkwell_mqtt_encode_publish 16 (Some (ascii ''t'')) (Some [7]) True = Inr (6, [0x31, 4, 0, 1, 0x74, 7])
   \<and> (\<exists>h. inkwell_mqtt_decode_header (Some ([0x31, 4, 0, 1, 0x74, 7] @ [9])) = Inr (Some h)
      \<and> hdr_len h + hdr_remaining h = 6 \<and> 2 \<le> hdr_len h
      \<and> (\<forall>k < hdr_len h. inkwell_mqtt_decode_header (Some (take k [0x31, 4, 0, 1, 0x74, 7])) = Inr None))"
proof -
  have "inkwell_mqtt_encode_publish 16 (Some (ascii ''t'')) (Some [7]) True = Inr (6, [0x31, 4, 0, 1, 0x74, 7])"
    by (simp add: mqtt_encode_eval Let_def)
  then show ?thesis
    using mqtt_packets_frame [of "inkwell_mqtt_encode_publish 16 (Some (ascii ''t'')) (Some [7]) True" 16 None
        "Some (ascii ''t'')" "Some [7]" True 0 None MQTT_PUBLISH 6 "[0x31, 4, 0, 1, 0x74, 7]" "[9]"] by blast
qed

text \<open>
  C22. A published message comes back as it was sent. The encoder takes every non-empty topic of at
  most 65535 bytes whose packet is representable and fits the buffer; the header decoder and the
  PUBLISH decoder then recover topic, payload and the retain flag, whatever follows on the stream.
\<close>

theorem mqtt_publish_roundtrip:
  assumes "t \<noteq> []" "length t \<le> 65535" "2 + length t + length pl \<le> 268435455"
    "5 + (2 + length t + length pl) \<le> cap"
  shows "\<exists>p h. inkwell_mqtt_encode_publish cap (Some t) (Some pl) retained = Inr (length p, p)
     \<and> inkwell_mqtt_decode_header (Some (p @ rest)) = Inr (Some h) \<and> hdr_type h = MQTT_PUBLISH
     \<and> inkwell_mqtt_decode_publish (hdr_flags h) (Some (take (hdr_remaining h) (drop (hdr_len h) (p @ rest))))
         = Inr \<lparr>in_topic = t, in_payload = pl, in_qos = 0, in_retained = retained, in_duplicate = False, in_packet_id = 0\<rparr>"
proof -
  let ?flags = "if retained then 0x01 else 0 :: u8"
  let ?b = "mqtt_write_string t @ pl"
  have t: "length t \<le> mqtt_string_max" using assms(2) by (simp add: mqtt_string_max_def)
  have len: "length ?b = 2 + length t + length pl" by (simp add: length_write_string)
  obtain hdr n where hdr: "mqtt_begin_packet cap MQTT_PUBLISH ?flags (length ?b) = Some (hdr, n)"
    using begin_packet_fits [of "length ?b" cap MQTT_PUBLISH ?flags] assms(3,4) unfolding len by blast
  have d: "inkwell_mqtt_decode_header (Some (hdr @ ?b @ rest))
      = Inr (Some \<lparr>hdr_type = MQTT_PUBLISH, hdr_flags = ?flags, hdr_remaining = length ?b, hdr_len = length hdr\<rparr>)"
    "n = length (hdr @ ?b)"
    using begin_packet_decodes(1) [OF hdr, of "?b @ rest"] begin_packet_decodes(2) [OF hdr]
    by (simp_all add: mqtt_flags_are_legal_def)
  have "inkwell_mqtt_encode_publish cap (Some t) (Some pl) retained = Inr (n, hdr @ ?b)"
    using assms(1) t hdr unfolding len by (simp add: inkwell_mqtt_encode_publish_def)
  moreover have "inkwell_mqtt_decode_publish ?flags (Some ?b)
     = Inr \<lparr>in_topic = t, in_payload = pl, in_qos = 0, in_retained = retained, in_duplicate = False, in_packet_id = 0\<rparr>"
    using assms(1) read_write_string(1,2) [OF t, of pl]
    by (auto simp: inkwell_mqtt_decode_publish_def length_write_string Let_def drop_drop [symmetric] simp del: drop_drop)
  ultimately show ?thesis using d
    by (intro exI [of _ "hdr @ ?b"] exI [of _ "\<lparr>hdr_type = MQTT_PUBLISH, hdr_flags = ?flags, hdr_remaining = length ?b, hdr_len = length hdr\<rparr>"]) simp
qed

theorem mqtt_publish_roundtrip_witness:
  "\<exists>p h. inkwell_mqtt_encode_publish 64 (Some (ascii ''a/b'')) (Some [1, 2, 3]) True = Inr (length p, p)
     \<and> inkwell_mqtt_decode_header (Some (p @ [0xFF])) = Inr (Some h) \<and> hdr_type h = MQTT_PUBLISH
     \<and> inkwell_mqtt_decode_publish (hdr_flags h) (Some (take (hdr_remaining h) (drop (hdr_len h) (p @ [0xFF]))))
         = Inr \<lparr>in_topic = ascii ''a/b'', in_payload = [1, 2, 3], in_qos = 0, in_retained = True, in_duplicate = False, in_packet_id = 0\<rparr>"
  by (rule mqtt_publish_roundtrip) simp_all

lemma decode_header_bounds:
  assumes "inkwell_mqtt_decode_header (Some data) = Inr (Some h)"
  shows "2 \<le> hdr_len h" "hdr_len h \<le> 5" "hdr_len h \<le> length data" "hdr_remaining h \<le> 268435455"
proof -
  have inv: "varint_inv 4 0 1" by (simp add: varint_inv_def)
  obtain b rest c x where "data = b # rest" "mqtt_read_varint rest = Inr (Some (c, x))" "hdr_len h = 1 + c" "hdr_remaining h = x"
    using assms by (auto simp: inkwell_mqtt_decode_header_def Let_def split: list.splits if_splits sum.splits option.splits)
  then show "2 \<le> hdr_len h" "hdr_len h \<le> 5" "hdr_len h \<le> length data" "hdr_remaining h \<le> 268435455"
    using read_varint_bounds [of 4 0 0 1 rest c x, OF _ inv] by (auto simp: mqtt_read_varint_def)
qed

lemma decode_header_stable:
  assumes "inkwell_mqtt_decode_header (Some data) \<noteq> Inr None"
  shows "inkwell_mqtt_decode_header (Some (data @ later)) = inkwell_mqtt_decode_header (Some data)"
proof (cases data)
  case (Cons b rest)
  have "mqtt_read_varint rest \<noteq> Inr None \<Longrightarrow> mqtt_read_varint (rest @ later) = mqtt_read_varint rest"
    unfolding mqtt_read_varint_def by (rule read_varint_stable)
  then show ?thesis using assms Cons
    by (cases "mqtt_read_varint rest = Inr None") (auto simp: inkwell_mqtt_decode_header_def Let_def split: if_splits)
qed (use assms in \<open>simp add: inkwell_mqtt_decode_header_def\<close>)

lemma read_varint_short: "mqtt_read_varint_loop n i v m data = Inr None \<Longrightarrow> length data < n"
  by (induction n i v m data rule: mqtt_read_varint_loop.induct) (auto simp: Let_def split: if_splits)

lemma decode_header_short: "inkwell_mqtt_decode_header (Some data) = Inr None \<Longrightarrow> length data < 5"
  using read_varint_short [of 4 0 0 1]
  by (force simp: inkwell_mqtt_decode_header_def mqtt_read_varint_def Let_def split: list.splits if_splits sum.splits option.splits)

text \<open>
  C24. Decoding is safe on any input. A decoded header lies within the bytes offered, is two to five
  bytes long and announces at most \<open>INKWELL_MQTT_REMAINING_MAX\<close>; bytes that arrive later never change
  an answer. A decoded PUBLISH is a partition of its body into length, topic, packet id (above QoS 0
  only) and payload, with a non-empty topic and a QoS of at most two.
\<close>

theorem mqtt_decode_safe:
  "(inkwell_mqtt_decode_header (Some data) = Inr (Some h) \<longrightarrow>
      2 \<le> hdr_len h \<and> hdr_len h \<le> 5 \<and> hdr_len h \<le> length data \<and> hdr_remaining h \<le> 268435455)
   \<and> (inkwell_mqtt_decode_header (Some data) \<noteq> Inr None \<longrightarrow>
      inkwell_mqtt_decode_header (Some (data @ later)) = inkwell_mqtt_decode_header (Some data))
   \<and> (inkwell_mqtt_decode_publish flags (Some body) = Inr m \<longrightarrow>
      (\<exists>pid. body = take 2 body @ in_topic m @ pid @ in_payload m \<and> length pid = (if in_qos m = 0 then 0 else 2)
         \<and> in_topic m \<noteq> [] \<and> in_qos m \<le> 2 \<and> 2 \<le> length body))"
proof (intro conjI impI)
  show "2 \<le> hdr_len h" "hdr_len h \<le> 5" "hdr_len h \<le> length data" "hdr_remaining h \<le> 268435455"
    if "inkwell_mqtt_decode_header (Some data) = Inr (Some h)" using decode_header_bounds [OF that] .
  show "inkwell_mqtt_decode_header (Some (data @ later)) = inkwell_mqtt_decode_header (Some data)"
    if "inkwell_mqtt_decode_header (Some data) \<noteq> Inr None" using decode_header_stable [OF that] .
  assume a: "inkwell_mqtt_decode_publish flags (Some body) = Inr m"
  let ?n = "unat (mqtt_read_u16 body)"
  have len: "2 \<le> length body" "?n \<noteq> 0" "2 + ?n \<le> length body" "in_topic m = take ?n (drop 2 body)" "in_qos m \<le> 2"
    "in_qos m = 0 \<Longrightarrow> in_payload m = drop (2 + ?n) body"
    "in_qos m \<noteq> 0 \<Longrightarrow> in_payload m = drop (2 + ?n + 2) body \<and> 2 \<le> length body - (2 + ?n)"
    using a by (auto simp: inkwell_mqtt_decode_publish_def Let_def not_less word_neq_0_conv split: if_splits)
  have split: "body = take 2 body @ in_topic m @ drop (2 + ?n) body"
    unfolding len(4) by (metis append_take_drop_id drop_drop add.commute)
  show "\<exists>pid. body = take 2 body @ in_topic m @ pid @ in_payload m \<and> length pid = (if in_qos m = 0 then 0 else 2)
         \<and> in_topic m \<noteq> [] \<and> in_qos m \<le> 2 \<and> 2 \<le> length body"
  proof (cases "in_qos m = 0")
    case True
    then show ?thesis using split len by (intro exI [of _ "[]"]) auto
  next
    case False
    have "drop (2 + ?n) body = take 2 (drop (2 + ?n) body) @ in_payload m"
      using len(7) [OF False] by (metis append_take_drop_id drop_drop add.commute)
    then show ?thesis using split len False by (intro exI [of _ "take 2 (drop (2 + ?n) body)"]) auto
  qed
qed

theorem mqtt_decode_safe_witness:
  "let data = [0x32, 7, 0, 1, 0x74, 0, 5, 1, 2];
       m = \<lparr>in_topic = [0x74], in_payload = [1, 2], in_qos = 1, in_retained = False, in_duplicate = False, in_packet_id = 5\<rparr>
   in inkwell_mqtt_decode_publish 2 (Some (drop 2 data)) = Inr m
      \<and> (\<exists>pid. drop 2 data = take 2 (drop 2 data) @ in_topic m @ pid @ in_payload m \<and> length pid = (if in_qos m = 0 then 0 else 2)
         \<and> in_topic m \<noteq> [] \<and> in_qos m \<le> 2 \<and> 2 \<le> length (drop 2 data))"
proof -
  have "inkwell_mqtt_decode_publish 2 (Some [0, 1, 0x74, 0, 5, 1, 2])
      = Inr \<lparr>in_topic = [0x74], in_payload = [1, 2], in_qos = 1, in_retained = False, in_duplicate = False, in_packet_id = 5\<rparr>"
    by (simp add: inkwell_mqtt_decode_publish_def mqtt_read_u16_def Let_def)
  then show ?thesis
    using mqtt_decode_safe [of "[]" undefined "[]" 2 "[0, 1, 0x74, 0, 5, 1, 2]"
        "\<lparr>in_topic = [0x74], in_payload = [1, 2], in_qos = 1, in_retained = False, in_duplicate = False, in_packet_id = 5\<rparr>"]
    by (simp add: Let_def)
qed

text \<open>
  C25. A CONNECT packet says what the caller asked for: read as MQTT 3.1.1 lays the body out, it has
  the clean-session flag, keep-alive, client id, user name and password of the parameters, an absent
  string being an empty one. A client id may be empty only with a clean session, and a password never
  travels without a user name.
\<close>

theorem mqtt_connect_faithful:
  assumes "inkwell_mqtt_encode_connect cap (Some params) = Inr (n, p)"
  shows "\<exists>h. inkwell_mqtt_decode_header (Some p) = Inr (Some h) \<and> hdr_type h = MQTT_CONNECT
     \<and> broker_connect (drop (hdr_len h) p) = Some (con_clean_session params, con_keepalive_s params,
          optional_text (con_client_id params), optional_text (con_username params), optional_text (con_password params))
     \<and> (optional_text (con_client_id params) = [] \<longrightarrow> con_clean_session params)
     \<and> (optional_text (con_password params) \<noteq> [] \<longrightarrow> optional_text (con_username params) \<noteq> [])"
proof (rule encode_connect_cases [OF assms])
  fix params' client hdr
  assume c: "Some params = Some params'" "con_client_id params' = Some client"
    "length client \<le> mqtt_string_max" "length (optional_text (con_username params')) \<le> mqtt_string_max"
    "length (optional_text (con_password params')) \<le> mqtt_string_max"
    "client = [] \<Longrightarrow> con_clean_session params'"
    "mqtt_optional_len (con_password params') > 0 \<Longrightarrow> mqtt_optional_len (con_username params') > 0"
    "mqtt_begin_packet cap MQTT_CONNECT 0 (length (connect_body params' client)) = Some (hdr, n)"
    "p = hdr @ connect_body params' client"
  have d: "inkwell_mqtt_decode_header (Some p)
      = Inr (Some \<lparr>hdr_type = MQTT_CONNECT, hdr_flags = 0, hdr_remaining = length (connect_body params' client), hdr_len = length hdr\<rparr>)"
    unfolding c(9) by (rule begin_packet_decodes(1) [OF c(8)]) (simp_all add: mqtt_flags_are_legal_def)
  have "broker_connect (connect_body params client) = Some (con_clean_session params, con_keepalive_s params,
          client, optional_text (con_username params), optional_text (con_password params))"
    by (rule broker_connect_body) (use c in simp_all)
  then show ?thesis using c d by (auto simp: optional_text_def [of "Some _"] optional_len_text)
qed

theorem mqtt_connect_faithful_witness:
  "let params = \<lparr>con_client_id = Some (ascii ''c''), con_username = Some (ascii ''u''), con_password = None,
                 con_keepalive_s = 30, con_clean_session = True\<rparr>;
       p = [0x10, 16, 0, 4, 0x4D, 0x51, 0x54, 0x54, 4, 0x82, 0, 30, 0, 1, 0x63, 0, 1, 0x75]
   in inkwell_mqtt_encode_connect 32 (Some params) = Inr (18, p) \<and> (\<exists>h. inkwell_mqtt_decode_header (Some p) = Inr (Some h)
     \<and> broker_connect (drop (hdr_len h) p) = Some (True, 30, ascii ''c'', ascii ''u'', []))"
proof -
  have "inkwell_mqtt_encode_connect 32 (Some \<lparr>con_client_id = Some (ascii ''c''), con_username = Some (ascii ''u''), con_password = None,
                 con_keepalive_s = 30, con_clean_session = True\<rparr>)
      = Inr (18, [0x10, 16, 0, 4, 0x4D, 0x51, 0x54, 0x54, 4, 0x82, 0, 30, 0, 1, 0x63, 0, 1, 0x75])"
    by (simp add: inkwell_mqtt_encode_connect_def mqtt_optional_len_def mqtt_protocol_header_def mqtt_connect_flags_def mqtt_encode_eval Let_def)
  from this mqtt_connect_faithful [OF this] show ?thesis by (auto simp: Let_def optional_text_def)
qed

end
