(* ===== verification/Json.thy ===== *)
theory Json
  imports Text Inkwell_Decimal "HOL-Library.Sublist"
begin

text \<open>
  The JSON cursor (\<open>src/codec/json.c\<close>). The state is the text from the cursor to the end, \<open>None\<close> for the
  NULL cursor of a reader without a document, and the flag that says whether a container has yielded
  nothing yet. Every operation answers its boolean with the state it leaves, on failure too. An output
  buffer is given by its size, 0 for a buffer that is not there, and comes back as the bytes written.
\<close>

section \<open>Model\<close>

record inkwell_json =
  js_text :: "bytes option"
  js_at_first :: bool

definition json_max_depth :: nat where "json_max_depth = 32"

definition json_space :: "u8 \<Rightarrow> bool" where
  "json_space c = (c = SPC \<or> c = TAB \<or> c = LF \<or> c = CR)"

definition json_skip_space :: "bytes \<Rightarrow> bytes" where
  "json_skip_space t = dropWhile json_space t"

text \<open>The byte the cursor is on once it has passed the white space, NUL at the end.\<close>

definition json_peek :: "bytes \<Rightarrow> u8 \<times> bytes" where
  "json_peek t = (let t = json_skip_space t in (case t of [] \<Rightarrow> NUL | c # _ \<Rightarrow> c, t))"

definition json_take :: "u8 \<Rightarrow> bytes \<Rightarrow> bool \<times> bytes" where
  "json_take expected t = (case json_peek t of (c, t) \<Rightarrow> if c \<noteq> expected then (False, t) else (True, tl t))"

fun json_skip_string_body :: "bytes \<Rightarrow> bool \<times> bytes" where
  "json_skip_string_body [] = (False, [])"
| "json_skip_string_body (c # t) =
     (if c = asc (CHR 0x22) then (True, t)
      else if c = asc (CHR 0x5C) then (case t of [] \<Rightarrow> (False, []) | _ # t' \<Rightarrow> json_skip_string_body t')
      else json_skip_string_body t)"

definition json_encode_utf8 :: "u32 \<Rightarrow> nat \<Rightarrow> bytes" where
  "json_encode_utf8 v room =
     (if v < 0x80 then (if room < 1 then [] else [ucast v])
      else if v < 0x800 then (if room < 2 then [] else [ucast (0xC0 OR drop_bit 6 v), ucast (0x80 OR (v AND 0x3F))])
      else if room < 3 then []
      else [ucast (0xE0 OR drop_bit 12 v), ucast (0x80 OR (drop_bit 6 v AND 0x3F)), ucast (0x80 OR (v AND 0x3F))])"

definition json_hex_digit :: "u8 \<Rightarrow> u32 option" where
  "json_hex_digit c =
     (if c \<ge> asc (CHR ''0'') \<and> c \<le> asc (CHR ''9'') then Some (ucast (c - asc (CHR ''0'')))
      else if c \<ge> asc (CHR ''a'') \<and> c \<le> asc (CHR ''f'') then Some (ucast (c - asc (CHR ''a'')) + 10)
      else if c \<ge> asc (CHR ''A'') \<and> c \<le> asc (CHR ''F'') then Some (ucast (c - asc (CHR ''A'')) + 10)
      else None)"

fun json_hex_loop :: "u32 \<Rightarrow> bytes \<Rightarrow> u32 option" where
  "json_hex_loop v [] = Some v"
| "json_hex_loop v (c # t) = (case json_hex_digit c of None \<Rightarrow> None | Some d \<Rightarrow> json_hex_loop (push_bit 4 v OR d) t)"

definition json_hex4 :: "bytes \<Rightarrow> u32 option" where
  "json_hex4 from = json_hex_loop 0 (take 4 from)"

fun json_lead_loop :: "bytes \<Rightarrow> nat \<Rightarrow> nat" where
  "json_lead_loop out lead =
     (if lead > 0 \<and> length out - lead < 3 \<and> (out ! (lead - 1)) AND 0xC0 = 0x80
      then json_lead_loop out (lead - 1) else lead)"

declare json_lead_loop.simps [simp del]

definition json_whole_characters :: "bytes \<Rightarrow> nat" where
  "json_whole_characters out =
     (let written = length out; lead = json_lead_loop out written in
      if lead = 0 then written
      else let first = out ! (lead - 1);
               need = (if first \<ge> 0xF0 then 4 else if first \<ge> 0xE0 then 3 else if first \<ge> 0xC0 then 2 else 1)
           in if need > 1 \<and> written - (lead - 1) < need then lead - 1 else written)"

text \<open>What one character of the source, the cursor past it, stands for, and where the cursor goes.\<close>

definition json_unescape :: "bytes \<Rightarrow> bool \<times> bytes \<times> bytes" where
  "json_unescape t =
     (case t of [] \<Rightarrow> (False, [], [])
      | escape # t \<Rightarrow>
          if escape = asc (CHR ''n'') then (True, [LF], t)
          else if escape = asc (CHR ''t'') then (True, [TAB], t)
          else if escape = asc (CHR ''r'') then (True, [CR], t)
          else if escape = asc (CHR ''b'') then (True, [0x08], t)
          else if escape = asc (CHR ''f'') then (True, [0x0C], t)
          else if escape = asc (CHR ''u'') then
            (if length t < 4 then (False, [], t)
             else case json_hex4 t of None \<Rightarrow> (False, [], t)
                  | Some v \<Rightarrow>
                      let v = (if v \<ge> 0xD800 \<and> v \<le> 0xDFFF then 0x3F else v)
                      in (True, json_encode_utf8 v 4, drop 4 t))
          else (True, [escape], t))"

function json_string_loop :: "nat \<Rightarrow> bool \<Rightarrow> bytes \<Rightarrow> bytes \<Rightarrow> bool \<times> bytes \<times> bytes" where
  "json_string_loop room full out t =
     (case t of [] \<Rightarrow> (False, [], out)
      | c # t \<Rightarrow>
          if c = asc (CHR 0x22) then (True, t, if full then take (json_whole_characters out) out else out)
          else case (if c \<noteq> asc (CHR 0x5C) then (True, [c], t) else json_unescape t) of
              (ok, decoded, t') \<Rightarrow>
                if \<not> ok then (False, t', out)
                else if \<not> full \<and> length out + length decoded \<le> room
                     then json_string_loop room full (out @ decoded) t'
                     else json_string_loop room True out t')"
  by pat_completeness auto
termination
  by (relation "measure (\<lambda>(_, _, _, t). length t)")
    (auto simp: json_unescape_def Let_def split: list.splits if_splits option.splits)

declare json_string_loop.simps [simp del]

definition json_read_string_body :: "nat \<Rightarrow> bytes \<Rightarrow> bool \<times> bytes \<times> bytes" where
  "json_read_string_body out_len t = json_string_loop (out_len - 1) False [] t"

definition inkwell_json_init :: "bytes option \<Rightarrow> nat \<Rightarrow> inkwell_json" where
  "inkwell_json_init text len =
     \<lparr>js_text = (case text of None \<Rightarrow> None | Some t \<Rightarrow> Some (if len > 0 then take len t else takeWhile (\<lambda>c. c \<noteq> 0) t)),
      js_at_first = False\<rparr>"

definition json_enter :: "u8 \<Rightarrow> inkwell_json \<Rightarrow> bool \<times> inkwell_json" where
  "json_enter opening json =
     (case js_text json of None \<Rightarrow> (False, json)
      | Some t \<Rightarrow> (case json_take opening t of (ok, t) \<Rightarrow>
                     if \<not> ok then (False, json\<lparr>js_text := Some t\<rparr>)
                     else (True, json\<lparr>js_text := Some t, js_at_first := True\<rparr>)))"

definition inkwell_json_enter_object :: "inkwell_json \<Rightarrow> bool \<times> inkwell_json" where
  "inkwell_json_enter_object json = json_enter (asc (CHR ''{'')) json"

definition inkwell_json_enter_array :: "inkwell_json \<Rightarrow> bool \<times> inkwell_json" where
  "inkwell_json_enter_array json = json_enter (asc (CHR ''['')) json"

text \<open>
  The key's bytes come third. When the walk ends or fails before a key is read the buffer holds the
  empty string; a key whose string is malformed leaves what had been copied.
\<close>

definition inkwell_json_next_key :: "inkwell_json \<Rightarrow> nat \<Rightarrow> bool \<times> inkwell_json \<times> bytes" where
  "inkwell_json_next_key json out_len =
     (case js_text json of None \<Rightarrow> (False, json, [])
      | Some t \<Rightarrow>
          case json_take (asc (CHR ''}'')) t of (closed, t) \<Rightarrow>
          if closed then (False, \<lparr>js_text = Some t, js_at_first = False\<rparr>, [])
          else case (if js_at_first json then (True, t) else json_take (asc (CHR '','')) t) of (sep, t) \<Rightarrow>
          if \<not> sep then (False, json\<lparr>js_text := Some t\<rparr>, [])
          else case json_take (asc (CHR 0x22)) t of (quote, t) \<Rightarrow>
          if \<not> quote then (False, \<lparr>js_text = Some t, js_at_first = False\<rparr>, [])
          else case json_read_string_body out_len t of (ok, t, out) \<Rightarrow>
          if \<not> ok then (False, \<lparr>js_text = Some t, js_at_first = False\<rparr>, out)
          else case json_take (asc (CHR '':'')) t of (colon, t) \<Rightarrow>
            (colon, \<lparr>js_text = Some t, js_at_first = False\<rparr>, out))"

definition inkwell_json_next_element :: "inkwell_json \<Rightarrow> bool \<times> inkwell_json" where
  "inkwell_json_next_element json =
     (case js_text json of None \<Rightarrow> (False, json)
      | Some t \<Rightarrow>
          case json_take (asc (CHR '']'')) t of (closed, t) \<Rightarrow>
          if closed then (False, \<lparr>js_text = Some t, js_at_first = False\<rparr>)
          else case (if js_at_first json then (True, t) else json_take (asc (CHR '','')) t) of (sep, t) \<Rightarrow>
          if \<not> sep then (False, json\<lparr>js_text := Some t\<rparr>)
          else case json_peek t of (c, t) \<Rightarrow> (c \<noteq> NUL, \<lparr>js_text = Some t, js_at_first = False\<rparr>))"

definition inkwell_json_read_string :: "inkwell_json \<Rightarrow> nat \<Rightarrow> bool \<times> inkwell_json \<times> bytes" where
  "inkwell_json_read_string json out_len =
     (case js_text json of None \<Rightarrow> (False, json, [])
      | Some t \<Rightarrow>
          case json_peek t of (c, t) \<Rightarrow>
          if c \<noteq> asc (CHR 0x22) then (False, json\<lparr>js_text := Some t\<rparr>, [])
          else case json_read_string_body out_len (tl t) of (ok, t, out) \<Rightarrow> (ok, json\<lparr>js_text := Some t\<rparr>, out))"

fun json_u64_loop :: "u64 \<Rightarrow> bytes \<Rightarrow> u64 option \<times> bytes" where
  "json_u64_loop v [] = (Some v, [])"
| "json_u64_loop v (c # t) =
     (if is_digit c then
        let digit = ucast (c - asc (CHR ''0''))
        in if v > (0xFFFFFFFFFFFFFFFF - digit) div 10 then (None, c # t)
           else json_u64_loop (v * 10 + digit) t
      else (Some v, c # t))"

definition inkwell_json_read_u64 :: "inkwell_json \<Rightarrow> u64 option \<times> inkwell_json" where
  "inkwell_json_read_u64 json =
     (case js_text json of None \<Rightarrow> (None, json)
      | Some t \<Rightarrow>
          case json_peek t of (first, t) \<Rightarrow>
          if first < asc (CHR ''0'') \<or> first > asc (CHR ''9'') then (None, json\<lparr>js_text := Some t\<rparr>)
          else case json_u64_loop 0 t of (v, t) \<Rightarrow> (v, json\<lparr>js_text := Some t\<rparr>))"

definition inkwell_json_read_bool :: "inkwell_json \<Rightarrow> bool option \<times> inkwell_json" where
  "inkwell_json_read_bool json =
     (case js_text json of None \<Rightarrow> (None, json)
      | Some t \<Rightarrow>
          case json_peek t of (first, t) \<Rightarrow>
          if first = asc (CHR ''t'') \<and> length t \<ge> 4 \<and> take 4 t = ascii ''true'' then (Some True, json\<lparr>js_text := Some (drop 4 t)\<rparr>)
          else if first = asc (CHR ''f'') \<and> length t \<ge> 5 \<and> take 5 t = ascii ''false'' then (Some False, json\<lparr>js_text := Some (drop 5 t)\<rparr>)
          else (None, json\<lparr>js_text := Some t\<rparr>))"

definition json_delimiter :: "u8 \<Rightarrow> bool" where
  "json_delimiter c = (c = asc (CHR '','') \<or> c = asc (CHR ''}'') \<or> c = asc (CHR '']'') \<or> json_space c)"

text \<open>
  The walk over a container. \<open>depth\<close> is a \<open>size_t\<close>; it is decremented only after the first bracket has
  made it positive.
\<close>

function json_skip_loop :: "nat \<Rightarrow> bytes \<Rightarrow> bool \<times> bytes" where
  "json_skip_loop depth t =
     (case t of [] \<Rightarrow> (False, [])
      | c # t \<Rightarrow>
          if c = asc (CHR 0x22) then
            (case json_skip_string_body t of (ok, t') \<Rightarrow> if \<not> ok then (False, t') else json_skip_loop depth t')
          else if c = asc (CHR ''{'') \<or> c = asc (CHR ''['') then
            (if depth + 1 > json_max_depth then (False, t) else json_skip_loop (depth + 1) t)
          else if c = asc (CHR ''}'') \<or> c = asc (CHR '']'') then
            (if depth - 1 = 0 then (True, t) else json_skip_loop (depth - 1) t)
          else json_skip_loop depth t)"
  by pat_completeness auto

lemma json_skip_string_body_length: "length (snd (json_skip_string_body t)) \<le> length t"
proof (induction t rule: json_skip_string_body.induct)
  case (2 c t)
  then show ?case by (cases t) auto
qed simp

termination json_skip_loop
proof (relation "measure (\<lambda>(_, t). length t)")
  show "((depth, t'), depth, t) \<in> measure (\<lambda>(_, t). length t)"
    if "t = c # s" "(ok, t') = json_skip_string_body s" for depth t t' c s ok
    using that json_skip_string_body_length [of s] by (auto simp: less_Suc_eq_le dest: arg_cong [of _ _ snd])
qed auto

declare json_skip_loop.simps [simp del]

definition inkwell_json_skip_value :: "inkwell_json \<Rightarrow> bool \<times> inkwell_json" where
  "inkwell_json_skip_value json =
     (case js_text json of None \<Rightarrow> (False, json)
      | Some t \<Rightarrow>
          case json_peek t of (first, t) \<Rightarrow>
          if first = NUL then (False, json\<lparr>js_text := Some t\<rparr>)
          else if first = asc (CHR 0x22) then
            (case json_skip_string_body (tl t) of (ok, t) \<Rightarrow> (ok, json\<lparr>js_text := Some t\<rparr>))
          else if first \<noteq> asc (CHR ''{'') \<and> first \<noteq> asc (CHR ''['') then
            (True, json\<lparr>js_text := Some (dropWhile (\<lambda>c. \<not> json_delimiter c) t)\<rparr>)
          else (case json_skip_loop 0 t of (ok, t) \<Rightarrow> (ok, json\<lparr>js_text := Some t\<rparr>)))"

section \<open>The cursor only moves forward\<close>

named_theorems json_suffix "where an operation of the reader leaves the cursor"

lemma suffix_tl: "suffix t s \<Longrightarrow> suffix (tl t) s"
  by (metis suffix_order.trans suffix_tl)

lemma json_skip_space_suffix [json_suffix]: "suffix (json_skip_space t) t"
  unfolding json_skip_space_def by (rule suffix_dropWhile)

lemma json_peek_suffix [json_suffix]: "suffix (snd (json_peek t)) t"
  using json_skip_space_suffix by (simp add: json_peek_def Let_def)

lemma json_take_suffix [json_suffix]: "suffix (snd (json_take c t)) t"
  using json_peek_suffix [of t] suffix_tl by (auto simp: json_take_def split: prod.splits)

lemma json_take_less: "fst (json_take c t) \<Longrightarrow> c \<noteq> 0 \<Longrightarrow> length (snd (json_take c t)) < length t"
  using suffix_length_le [OF json_skip_space_suffix, of t]
  by (cases "json_skip_space t") (auto simp: json_take_def json_peek_def Let_def split: if_splits)

lemma json_skip_string_body_suffix [json_suffix]: "suffix (snd (json_skip_string_body t)) t"
proof (induction t rule: json_skip_string_body.induct)
  case (2 c t)
  then show ?case by (cases t) (auto simp: suffix_Cons)
qed simp

lemma json_unescape_suffix [json_suffix]: "suffix (snd (snd (json_unescape t))) t"
  by (auto simp: json_unescape_def Let_def suffix_Cons suffix_drop intro: suffix_order.trans split: list.splits option.splits)

text \<open>One turn of the string loop: what a character decodes to and where it leaves the cursor.\<close>

definition json_char :: "bytes \<Rightarrow> bool \<times> bytes \<times> bytes" where
  "json_char t = (if hd t \<noteq> asc (CHR 0x5C) then (True, [hd t], tl t) else json_unescape (tl t))"

lemma json_char_suffix: "t \<noteq> [] \<Longrightarrow> suffix (snd (snd (json_char t))) (tl t)"
  using json_unescape_suffix by (simp add: json_char_def)

lemma json_char_less: "t \<noteq> [] \<Longrightarrow> length (snd (snd (json_char t))) < length t"
  using suffix_length_le [OF json_char_suffix, of t] by (cases t) auto

lemma json_string_loop_quote:
  "json_string_loop room full out (asc (CHR 0x22) # t) = (True, t, if full then take (json_whole_characters out) out else out)"
  by (subst json_string_loop.simps) simp

lemma json_string_loop_char:
  assumes "t \<noteq> []" "hd t \<noteq> asc (CHR 0x22)" "json_char t = (ok, decoded, u)"
  shows "json_string_loop room full out t =
     (if \<not> ok then (False, u, out)
      else if \<not> full \<and> length out + length decoded \<le> room then json_string_loop room full (out @ decoded) u
      else json_string_loop room True out u)"
proof -
  obtain c t' where t: "t = c # t'" using assms(1) by (cases t) auto
  have "(if c \<noteq> asc (CHR 0x5C) then (True, [c], t') else json_unescape t') = (ok, decoded, u)"
    using assms(3) unfolding json_char_def t list.sel .
  then show ?thesis using assms(2) unfolding t
    by (subst json_string_loop.simps) (simp only: list.case list.sel prod.case if_False)
qed

lemma json_string_loop_suffix [json_suffix]: "suffix (fst (snd (json_string_loop room full out t))) t"
proof (induction t arbitrary: full out rule: length_induct)
  case (1 t)
  consider "t = []" | "t \<noteq> []" "hd t = asc (CHR 0x22)" | "t \<noteq> []" "hd t \<noteq> asc (CHR 0x22)" by blast
  then show ?case
  proof cases
    case 2
    then obtain t' where "t = asc (CHR 0x22) # t'" by (cases t) auto
    then show ?thesis by (simp only: json_string_loop_quote) (simp add: suffix_Cons)
  next
    case 3
    obtain ok decoded u where c: "json_char t = (ok, decoded, u)" by (metis prod_cases3)
    have u: "length u < length t" "suffix u t"
      using json_char_less [OF 3(1)] json_char_suffix [OF 3(1)] c
      by (auto intro: suffix_order.trans suffix_tl)
    then show ?thesis using 1 [rule_format, of u]
      unfolding json_string_loop_char [OF 3 c] by (auto intro: suffix_order.trans)
  qed (simp add: json_string_loop.simps)
qed

lemma json_u64_loop_suffix [json_suffix]: "suffix (snd (json_u64_loop v t)) t"
  by (induction v t rule: json_u64_loop.induct) (auto simp: Let_def suffix_Cons)

lemma json_skip_loop_suffix [json_suffix]: "suffix (snd (json_skip_loop depth t)) t"
proof (induction t arbitrary: depth rule: length_induct)
  case (1 t)
  show ?case
  proof (cases t)
    case (Cons c t')
    obtain ok u where b: "json_skip_string_body t' = (ok, u)" by force
    have u: "suffix u t'" "length u < length t"
      using json_skip_string_body_suffix [of t'] json_skip_string_body_length [of t'] b Cons by auto
    have rec: "suffix (snd (json_skip_loop d u)) t" "suffix (snd (json_skip_loop d t')) t" for d
      using 1 [rule_format, of u d] 1 [rule_format, of t' d] u Cons
      by (auto simp: suffix_Cons intro: suffix_order.trans)
    show ?thesis using rec u(1)
      by (subst json_skip_loop.simps) (auto simp: Cons b suffix_Cons)
  qed (simp add: json_skip_loop.simps)
qed

lemma json_text_suffix [json_suffix]:
  "js_text json = Some t \<Longrightarrow> \<exists>u. js_text (snd (inkwell_json_skip_value json)) = Some u \<and> suffix u t"
proof -
  assume t: "js_text json = Some t"
  obtain c u where p: "json_peek t = (c, u)" by force
  have u: "suffix u t" using json_peek_suffix [of t] p by simp
  have "suffix (snd (json_skip_string_body (tl u))) t" "suffix (snd (json_skip_loop 0 u)) t"
    "suffix (dropWhile (\<lambda>c. \<not> json_delimiter c) u) t"
    using json_skip_string_body_suffix [of "tl u"] json_skip_loop_suffix [of 0 u] suffix_dropWhile u
    by (auto intro: suffix_order.trans suffix_tl)
  then show ?thesis using t u p
    by (auto simp: inkwell_json_skip_value_def split: prod.split)
qed

definition json_left :: "inkwell_json \<Rightarrow> bytes" where
  "json_left json = (case js_text json of None \<Rightarrow> [] | Some t \<Rightarrow> t)"

lemma json_left_simps [simp]: "json_left (json\<lparr>js_text := Some t\<rparr>) = t" "json_left \<lparr>js_text = Some t, js_at_first = b\<rparr> = t"
  by (simp_all add: json_left_def)

lemma json_skip_value_suffix [json_suffix]: "suffix (json_left (snd (inkwell_json_skip_value json))) (json_left json)"
proof (cases "js_text json")
  case None
  then show ?thesis by (simp add: inkwell_json_skip_value_def)
next
  case (Some t)
  then show ?thesis using json_text_suffix [OF Some] by (auto simp: json_left_def)
qed

lemma json_next_key_suffix:
  "suffix (json_left (fst (snd (inkwell_json_next_key json n)))) (json_left json)
   \<and> (fst (inkwell_json_next_key json n) \<longrightarrow> length (json_left (fst (snd (inkwell_json_next_key json n)))) < length (json_left json))"
proof (cases "js_text json")
  case None
  then show ?thesis by (simp add: inkwell_json_next_key_def)
next
  case (Some t)
  obtain a1 t1 where 1: "json_take (asc (CHR ''}'')) t = (a1, t1)" by force
  obtain a2 t2 where 2: "(if js_at_first json then (True, t1) else json_take (asc (CHR '','')) t1) = (a2, t2)" by force
  obtain a3 t3 where 3: "json_take (asc (CHR 0x22)) t2 = (a3, t3)" by force
  obtain a4 t4 out where 4: "json_read_string_body n t3 = (a4, t4, out)" by (metis prod_cases3)
  obtain a5 t5 where 5: "json_take (asc (CHR '':'')) t4 = (a5, t5)" by force
  have s: "suffix t1 t" "suffix t2 t1" "suffix t3 t2" "suffix t4 t3" "suffix t5 t4"
    using json_take_suffix [of "asc (CHR ''}'')" t] json_take_suffix [of "asc (CHR '','')" t1] json_take_suffix [of "asc (CHR 0x22)" t2]
      json_string_loop_suffix [of "n - 1" False "[]" t3] json_take_suffix [of "asc (CHR '':'')" t4] 1 2 3 4 5
    by (auto simp: json_read_string_body_def split: if_splits)
  then have "suffix t2 t" "suffix t3 t" "suffix t4 t" "suffix t5 t" by (auto intro: suffix_order.trans)
  moreover have "a5 \<Longrightarrow> length t5 < length t4" using json_take_less [of "asc (CHR '':'')" t4] 5 by simp
  ultimately show ?thesis
    using s(1) 1 2 3 4 5 Some suffix_length_le [of t4 t]
    by (auto simp: inkwell_json_next_key_def json_left_def [of json])
qed

function json_find_loop :: "inkwell_json \<Rightarrow> bytes \<Rightarrow> bool \<times> inkwell_json" where
  "json_find_loop json key =
     (case inkwell_json_next_key json 64 of (more_keys, json, name) \<Rightarrow>
        if \<not> more_keys then (False, json)
        else if takeWhile (\<lambda>c. c \<noteq> 0) name = key then (True, json)
        else case inkwell_json_skip_value json of (ok, json) \<Rightarrow>
               if \<not> ok then (False, json) else json_find_loop json key)"
  by pat_completeness auto
termination
proof (relation "measure (\<lambda>(json, _). length (json_left json))")
  fix json json2 json3 :: inkwell_json and key name :: bytes and mk ok :: bool and y
  assume n: "(mk, y) = inkwell_json_next_key json 64" "(json2, name) = y" "\<not> \<not> mk"
    and k: "(ok, json3) = inkwell_json_skip_value json2"
  have "length (json_left json3) \<le> length (json_left json2)"
    using suffix_length_le [OF json_skip_value_suffix [of json2]] unfolding k [symmetric] snd_conv .
  moreover have "length (json_left json2) < length (json_left json)"
    using json_next_key_suffix [of json 64] n(3) unfolding n(1) [symmetric] n(2) [symmetric] fst_conv snd_conv by blast
  ultimately show "((json3, key), json, key) \<in> measure (\<lambda>(json, _). length (json_left json))" by simp
qed simp

declare json_find_loop.simps [simp del]

definition inkwell_json_object_find :: "inkwell_json \<Rightarrow> bytes option \<Rightarrow> bool \<times> inkwell_json" where
  "inkwell_json_object_find json key =
     (case key of None \<Rightarrow> (False, json)
      | Some k \<Rightarrow> (case inkwell_json_enter_object json of (ok, json) \<Rightarrow>
                     if \<not> ok then (False, json) else json_find_loop json k))"

end
