(* ===== verification/Json_Doc.thy ===== *)
theory Json_Doc
  imports Json
begin

text \<open>
  Documents for the JSON reader of \<open>Json\<close>. The reference is written by printing: \<open>json_value\<close> is the
  syntax tree of a value with the white space it is written with, \<open>json_print\<close> its text, \<open>json_item\<close> the
  ways a string literal spells one character. The lemmas run the reader over printed documents: string
  literals and their truncation (\<open>fitting\<close>), numbers, values to be skipped (\<open>passes\<close> is the effect of a
  text on the bracket counter) and the members of an object. The last sections hold the properties of the
  reader and two edges of its behaviour.
\<close>

section \<open>Characters cut short\<close>

lemma cont_bits: "(b AND 0xC0 = (0x80 :: u8)) \<longleftrightarrow> unat b div 64 = 2"
proof -
  have m: "unat (b AND 0x3F) = unat b mod 64" using unat_and_mask [of b 6] by (simp add: mask_eq_exp_minus_1)
  have "(0xC0 :: u8) = NOT 0x3F" by code_simp
  then have "b AND 0xC0 = b AND NOT 0x3F" by (rule arg_cong)
  also have "\<dots> = b AND NOT (b AND 0x3F)" by (rule bit_word_eqI) (auto simp: bit_simps)
  also have "\<dots> = b - (b AND 0x3F)" by (rule disjunctive_diff [symmetric]) (simp add: bit_simps)
  finally have "unat (b AND 0xC0) = unat b - unat b mod 64"
    by (simp add: unat_sub m word_le_nat_alt)
  then have "unat (b AND 0xC0) = unat b div 64 * 64" by (simp add: minus_mod_eq_div_mult)
  then show ?thesis by (auto simp: word_unat_eq_iff)
qed
lemma encode_shape:
  assumes "cp \<le> 0x10FFFF"
  obtains a cs where "utf8_encode cp = a # cs" "list_all (\<lambda>b. unat b div 64 = 2) cs" "unat a < 128 \<or> 192 \<le> unat a"
     "Suc (length cs) = (if unat a \<ge> 240 then 4 else if unat a \<ge> 224 then 3 else if unat a \<ge> 192 then 2 else 1)"
proof -
  have c: "(128 + x mod 64) div 64 = (2::nat)" for x by (simp add: div_add1_eq)
  consider "cp < 128" | "128 \<le> cp" "cp < 2048" | "2048 \<le> cp" "cp < 65536" | "65536 \<le> cp" by linarith
  then show ?thesis
  proof cases
    case 1
    then obtain a where "utf8_encode cp = [a]" "unat a = cp" using encode1 by blast
    then show ?thesis using that [of a "[]"] 1 by simp
  next
    case 2
    then show ?thesis using encode2 [of cp] that by (fastforce simp: c)
  next
    case 3
    then show ?thesis using encode3 [of cp] that by (fastforce simp: c)
  next
    case 4
    then show ?thesis using encode4 [of cp] assms that by (fastforce simp: c)
  qed
qed

text \<open>The walk back over continuation bytes stops at the lead byte of the last character.\<close>

lemma json_lead_loop_stop:
  assumes "list_all (\<lambda>b. unat b div 64 = 2) (cs @ ds)" "length (cs @ ds) \<le> 3" "unat a div 64 \<noteq> 2"
  shows "json_lead_loop (w @ a # cs @ ds) (length w + 1 + length cs) = length w + 1"
  using assms
proof (induction cs arbitrary: ds rule: rev_induct)
  case Nil
  then show ?case by (subst json_lead_loop.simps) (simp add: cont_bits nth_append)
next
  case (snoc c cs)
  have "(w @ a # (cs @ [c]) @ ds) ! (length w + 1 + length cs) = c" by (simp add: nth_append)
  moreover have "length (w @ a # (cs @ [c]) @ ds) - (length w + 1 + length (cs @ [c])) < 3" using snoc.prems(2) by simp
  moreover have "json_lead_loop (w @ a # cs @ c # ds) (length w + 1 + length cs) = length w + 1"
    using snoc.IH [of "c # ds"] snoc.prems by simp
  ultimately show ?case using snoc.prems(1)
    by (subst json_lead_loop.simps) (simp add: cont_bits)
qed

lemma json_need_eq:
  "(if (a :: u8) \<ge> 0xF0 then 4 else if a \<ge> 0xE0 then 3 else if a \<ge> 0xC0 then 2 else (1::nat))
     = (if unat a \<ge> 240 then 4 else if unat a \<ge> 224 then 3 else if unat a \<ge> 192 then 2 else 1)"
  by (simp add: word_le_nat_alt)

lemma json_whole_characters_tail:
  assumes "cp \<le> 0x10FFFF" "0 < j" "j \<le> length (utf8_encode cp)"
  shows "json_whole_characters (w @ take j (utf8_encode cp))
     = (if j = length (utf8_encode cp) then length w + j else length w)"
proof -
  obtain a cs where e: "utf8_encode cp = a # cs" "list_all (\<lambda>b. unat b div 64 = 2) cs" "unat a < 128 \<or> 192 \<le> unat a"
     "Suc (length cs) = (if unat a \<ge> 240 then 4 else if unat a \<ge> 224 then 3 else if unat a \<ge> 192 then 2 else 1)"
    by (rule encode_shape [OF assms(1)])
  obtain i where j: "j = Suc i" using assms(2) by (cases j) auto
  let ?cs = "take i cs"
  have len: "length cs \<le> 3" using e(4) by (auto split: if_splits)
  have i: "length ?cs = i" using assms(3) e(1) j by simp
  have "list_all (\<lambda>b. unat b div 64 = 2) (?cs @ [])" "length (?cs @ []) \<le> 3" "unat a div 64 \<noteq> 2"
    using e(2,3) len by (auto simp: list_all_iff dest: in_set_takeD)
  from json_lead_loop_stop [OF this, of w] have lead: "json_lead_loop (w @ a # ?cs) (length (w @ a # ?cs)) = length w + 1" by simp
  show ?thesis
    using assms(3) e(1,4) j i
    unfolding json_whole_characters_def Let_def e(1) j take_Suc_Cons lead json_need_eq
    by (auto simp: nth_append split: if_splits)
qed

lemma json_whole_characters_whole:
  "list_all (\<lambda>cp. cp \<le> 0x10FFFF) cps \<Longrightarrow> json_whole_characters (concat (map utf8_encode cps)) = length (concat (map utf8_encode cps))"
proof (cases cps rule: rev_cases)
  case Nil
  then show ?thesis by (simp add: json_whole_characters_def json_lead_loop.simps)
next
  case (snoc xs cp)
  moreover assume "list_all (\<lambda>cp. cp \<le> 0x10FFFF) cps"
  ultimately show ?thesis
    using json_whole_characters_tail [of cp "length (utf8_encode cp)" "concat (map utf8_encode xs)"] by simp
qed

section \<open>String literals\<close>

text \<open>
  What may stand between the quotes, and the character it denotes: a character itself, one of the
  two-character escapes, or four hexadecimal digits. Half of a surrogate pair denotes \<open>?\<close>.
\<close>

definition hex_char :: "bool \<Rightarrow> nat \<Rightarrow> u8" where
  "hex_char upper n = (if n < 10 then of_nat (48 + n) else of_nat ((if upper then 55 else 87) + n))"

definition short_escapes :: "(u8 \<times> nat) list" where
  "short_escapes = [(0x22, 0x22), (0x5C, 0x5C), (0x2F, 0x2F), (0x62, 0x08), (0x66, 0x0C), (0x6E, 0x0A), (0x72, 0x0D), (0x74, 0x09)]"

inductive json_item :: "bytes \<Rightarrow> nat \<Rightarrow> bool" where
  raw: "scalar cp \<Longrightarrow> cp \<noteq> 0x22 \<Longrightarrow> cp \<noteq> 0x5C \<Longrightarrow> json_item (utf8_encode cp) cp"
| short: "(c, cp) \<in> set short_escapes \<Longrightarrow> json_item [0x5C, c] cp"
| unicode: "n3 < 16 \<Longrightarrow> n2 < 16 \<Longrightarrow> n1 < 16 \<Longrightarrow> n0 < 16 \<Longrightarrow> v = n3 * 4096 + n2 * 256 + n1 * 16 + n0 \<Longrightarrow>
    json_item [0x5C, 0x75, hex_char u3 n3, hex_char u2 n2, hex_char u1 n1, hex_char u0 n0] (if scalar v then v else 0x3F)"

inductive_cases json_itemE: "json_item src cp"

lemma json_hex_digit_char: "n < 16 \<Longrightarrow> json_hex_digit (hex_char upper n) = Some (of_nat n)"
proof -
  assume n: "n < 16"
  have "map (\<lambda>n. json_hex_digit (hex_char upper n)) [0..<16] = map (\<lambda>n. Some (of_nat n)) [0..<16]"
    by (cases upper) (simp_all add: upt_rec hex_char_def json_hex_digit_def)
  then have "map (\<lambda>n. json_hex_digit (hex_char upper n)) [0..<16] ! n = map (\<lambda>n. Some (of_nat n)) [0..<16] ! n" by (rule arg_cong)
  then show ?thesis using n by simp
qed

lemma json_hex_step: "unat (v :: u32) < 4096 \<Longrightarrow> n < 16 \<Longrightarrow> unat (push_bit 4 v OR of_nat n) = unat v * 16 + n"
  using unat_push_or [of v 4 "of_nat n"] by (simp add: unat_of_nat)

lemma json_hex4_chars:
  assumes "n3 < 16" "n2 < 16" "n1 < 16" "n0 < 16"
  shows "json_hex4 (hex_char u3 n3 # hex_char u2 n2 # hex_char u1 n1 # hex_char u0 n0 # t)
     = Some (of_nat (n3 * 4096 + n2 * 256 + n1 * 16 + n0))"
proof -
  define v3 :: u32 where "v3 = push_bit 4 0 OR of_nat n3"
  define v2 where "v2 = push_bit 4 v3 OR of_nat n2"
  define v1 where "v1 = push_bit 4 v2 OR of_nat n1"
  have u3: "unat v3 = n3" using json_hex_step [of 0 n3] assms by (simp add: v3_def)
  have u2: "unat v2 = unat v3 * 16 + n2" unfolding v2_def by (rule json_hex_step) (use u3 assms in simp_all)
  have u1: "unat v1 = unat v2 * 16 + n1" unfolding v1_def by (rule json_hex_step) (use u3 u2 assms in simp_all)
  have "unat (push_bit 4 v1 OR of_nat n0 :: u32) = unat v1 * 16 + n0"
    by (rule json_hex_step) (use u3 u2 u1 assms in simp_all)
  then have "unat (push_bit 4 v1 OR of_nat n0 :: u32) = n3 * 4096 + n2 * 256 + n1 * 16 + n0" using u3 u2 u1 by simp
  then have v: "push_bit 4 v1 OR of_nat n0 = (of_nat (n3 * 4096 + n2 * 256 + n1 * 16 + n0) :: u32)"
    by (metis of_nat_unat ucast_id)
  have "json_hex4 (hex_char u3 n3 # hex_char u2 n2 # hex_char u1 n1 # hex_char u0 n0 # t) = Some (push_bit 4 v1 OR of_nat n0)"
    using assms by (simp add: json_hex4_def json_hex_digit_char v1_def v2_def v3_def)
  then show ?thesis by (simp only: v)
qed

lemma unat_marked_byte:
  assumes "unat x < 2 ^ n" "unat m * 2 ^ n + unat x < 256"
  shows "ucast (push_bit n m OR x :: u32) = (of_nat (unat m * 2 ^ n + unat x) :: u8)"
proof -
  have "unat (push_bit n m OR x) = unat m * 2 ^ n + unat x"
    by (rule unat_push_or) (use assms in simp_all)
  then have "unat (ucast (push_bit n m OR x) :: u8) = unat m * 2 ^ n + unat x"
    using assms(2) by (simp add: unsigned_ucast_eq take_bit_eq_mod)
  also have "\<dots> = unat (of_nat (unat m * 2 ^ n + unat x) :: u8)" by (rule unat_of_nat_u8 [OF assms(2), symmetric])
  finally show ?thesis by (simp only: word_unat_eq_iff)
qed

lemma json_encode_utf8_encode:
  assumes "unat v < 65536"
  shows "json_encode_utf8 v 4 = utf8_encode (unat v)"
proof -
  have and63: "unat (x AND 0x3F :: u32) = unat x mod 64" for x
    using unat_and_mask [of x 6] by (simp add: mask_eq_exp_minus_1)
  have low: "ucast (0x80 OR (x AND 0x3F) :: u32) = (of_nat (0x80 + unat x mod 64) :: u8)" for x
    using unat_marked_byte [of "x AND 0x3F" 6 2] by (simp add: and63)
  have lead2: "ucast (0xC0 OR drop_bit 6 v :: u32) = (of_nat (0xC0 + unat v div 64) :: u8)" if "unat v < 2048"
    using unat_marked_byte [of "drop_bit 6 v" 6 3] that by (simp add: unat_drop_bit less_mult_imp_div_less)
  have lead3: "ucast (0xE0 OR drop_bit 12 v :: u32) = (of_nat (0xE0 + unat v div 4096) :: u8)"
    using unat_marked_byte [of "drop_bit 12 v" 4 14] assms by (simp add: unat_drop_bit less_mult_imp_div_less)
  have one: "(ucast v :: u8) = of_nat (unat v)" by simp
  show ?thesis
    using assms lead2 lead3 low [of v] low [of "drop_bit 6 v"] one
    by (simp add: json_encode_utf8_def utf8_encode_def word_less_nat_alt unat_drop_bit)
qed

definition plain_byte :: "u8 \<Rightarrow> bool" where
  "plain_byte c = (c \<noteq> asc (CHR 0x22) \<and> c \<noteq> asc (CHR 0x5C))"

lemma json_string_loop_byte:
  "plain_byte c \<Longrightarrow> json_string_loop room full out (c # t) =
      (if \<not> full \<and> length out + 1 \<le> room then json_string_loop room full (out @ [c]) t else json_string_loop room True out t)"
  by (subst json_string_loop_char [of "c # t" True "[c]" t]) (simp_all add: json_char_def plain_byte_def)

lemma json_string_loop_full:
  "list_all plain_byte cs \<Longrightarrow> json_string_loop room True out (cs @ t) = json_string_loop room True out t"
  by (induction cs) (simp_all add: json_string_loop_byte)

lemma json_string_loop_plain:
  "list_all plain_byte cs \<Longrightarrow> length out \<le> room \<Longrightarrow>
   json_string_loop room False out (cs @ t) =
     (if length out + length cs \<le> room then json_string_loop room False (out @ cs) t
      else json_string_loop room True (out @ take (room - length out) cs) t)"
proof (induction cs arbitrary: out)
  case (Cons c cs)
  show ?case
  proof (cases "length out + 1 \<le> room")
    case True
    then have "room - length out = Suc (room - length (out @ [c]))" by simp
    then show ?thesis using Cons.IH [of "out @ [c]"] Cons.prems True by (simp add: json_string_loop_byte)
  next
    case False
    then have "room - length out = 0" by simp
    then show ?thesis using Cons.prems False by (simp add: json_string_loop_byte json_string_loop_full)
  qed
qed simp

text \<open>The longest prefix of whole characters that fits.\<close>

fun fitting :: "nat \<Rightarrow> nat list \<Rightarrow> nat list" where
  "fitting room [] = []"
| "fitting room (cp # cps) =
     (if length (utf8_encode cp) \<le> room then cp # fitting (room - length (utf8_encode cp)) cps else [])"

abbreviation utf8_text :: "nat list \<Rightarrow> bytes" where
  "utf8_text cps \<equiv> concat (map utf8_encode cps)"

lemma json_item_scalar: "json_item src cp \<Longrightarrow> cp \<le> 0x10FFFF"
  by (elim json_itemE) (auto simp: scalar_def short_escapes_def split: if_splits)

lemma encode_plain:
  assumes "scalar cp" "cp \<noteq> 0x22" "cp \<noteq> 0x5C"
  shows "list_all plain_byte (utf8_encode cp)"
proof -
  have le: "cp \<le> 0x10FFFF" using assms(1) by (simp add: scalar_def)
  show ?thesis
  proof (cases "cp < 128")
    case True
    then obtain a where "utf8_encode cp = [a]" "unat a = cp" using encode1 by blast
    then show ?thesis using assms(2,3) by (auto simp: plain_byte_def word_unat_eq_iff)
  next
    case False
    obtain a cs where e: "utf8_encode cp = a # cs" "list_all (\<lambda>b. unat b div 64 = 2) cs" "unat a < 128 \<or> 192 \<le> unat a"
      "Suc (length cs) = (if unat a \<ge> 240 then 4 else if unat a \<ge> 224 then 3 else if unat a \<ge> 192 then 2 else 1)"
      by (rule encode_shape [OF le])
    have "length (utf8_encode cp) > 1" using False by (simp add: length_utf8_encode)
    then have "192 \<le> unat a" using e by (auto split: if_splits)
    then show ?thesis using e(2) unfolding e(1) by (auto simp: list_all_iff plain_byte_def word_unat_eq_iff)
  qed
qed

lemma json_item_cases:
  assumes "json_item src cp"
  obtains "src = utf8_encode cp" "list_all plain_byte src"
  | "src \<noteq> []" "hd src = 0x5C" "\<And>t. json_char (src @ t) = (True, utf8_encode cp, t)"
  using assms
proof cases
  case raw
  then show ?thesis using that(1) encode_plain by simp
next
  case (short c)
  then have "json_char (src @ t) = (True, utf8_encode cp, t)" for t
    by (auto simp: short_escapes_def json_char_def json_unescape_def utf8_encode_def)
  then show ?thesis using short that(2) by simp
next
  case (unicode n3 n2 n1 n0 v u3 u2 u1 u0)
  let ?w = "of_nat v :: u32"
  have v: "v < 65536" using unicode by linarith
  then have w: "unat ?w = v" by (simp add: unat_of_nat)
  define x :: u32 where "x = (if ?w \<ge> 0xD800 \<and> ?w \<le> 0xDFFF then 0x3F else ?w)"
  have "unat x = (if scalar v then v else 0x3F)" using v w by (auto simp: x_def scalar_def word_le_nat_alt)
  then have cp: "unat x = cp" "unat x < 65536" using unicode(2) v by (auto split: if_splits)
  have "json_char (src @ t) = (True, json_encode_utf8 x 4, t)" for t
  proof -
    have h: "json_hex4 ([hex_char u3 n3, hex_char u2 n2, hex_char u1 n1, hex_char u0 n0] @ t) = Some ?w"
      using json_hex4_chars [OF unicode(3-6), of u3 u2 u1 u0 t] unicode(7) by simp
    show ?thesis using h unfolding unicode(1) x_def
      by (simp add: json_char_def json_unescape_def Let_def)
  qed
  then show ?thesis using unicode(1) json_encode_utf8_encode [OF cp(2)] cp(1) that(2) by simp
qed

lemma json_string_loop_items_full:
  "list_all2 json_item srcs cps \<Longrightarrow>
   json_string_loop room True out (concat srcs @ asc (CHR 0x22) # rest) = (True, rest, take (json_whole_characters out) out)"
proof (induction srcs cps rule: list_all2_induct)
  case Nil
  show ?case using json_string_loop_quote [of room True out rest] by simp
next
  case (Cons src srcs cp cps)
  from Cons(1) show ?case
  proof (cases rule: json_item_cases)
    case 1
    then show ?thesis using Cons(3) json_string_loop_full by simp
  next
    case 2
    then show ?thesis using Cons(3)
      using json_string_loop_char [of "src @ concat srcs @ asc (CHR 0x22) # rest" True "utf8_encode cp" "concat srcs @ asc (CHR 0x22) # rest" room True out]
      by simp
  qed
qed

lemma json_string_loop_items:
  "list_all2 json_item srcs cps \<Longrightarrow> list_all (\<lambda>cp. cp \<le> 0x10FFFF) old \<Longrightarrow> length (utf8_text old) \<le> room \<Longrightarrow>
   json_string_loop room False (utf8_text old) (concat srcs @ asc (CHR 0x22) # rest)
     = (True, rest, utf8_text old @ utf8_text (fitting (room - length (utf8_text old)) cps))"
proof (induction srcs cps arbitrary: old rule: list_all2_induct)
  case Nil
  show ?case using json_string_loop_quote [of room False "utf8_text old" rest] by simp
next
  case (Cons src srcs cp cps)
  let ?out = "utf8_text old" and ?e = "utf8_encode cp"
  let ?t = "concat srcs @ asc (CHR 0x22) # rest"
  have cp: "cp \<le> 0x10FFFF" by (rule json_item_scalar [OF Cons(1)])
  have whole: "json_whole_characters ?out = length ?out" by (rule json_whole_characters_whole [OF Cons(4)])
  have fits: "json_string_loop room False (?out @ ?e) ?t
      = (True, rest, ?out @ utf8_text (fitting (room - length ?out) (cp # cps)))" if "length ?out + length ?e \<le> room"
    using Cons.IH [of "old @ [cp]"] Cons.prems cp that by simp
  show ?case
  proof (cases "length ?out + length ?e \<le> room")
    case True
    from Cons(1) have "json_string_loop room False ?out (src @ ?t) = json_string_loop room False (?out @ ?e) ?t"
    proof (cases rule: json_item_cases)
      case 1
      then show ?thesis using True json_string_loop_plain [OF 1(2) Cons(5), of ?t] by simp
    next
      case 2
      then show ?thesis using True json_string_loop_char [of "src @ ?t" True ?e ?t room False ?out] by simp
    qed
    then show ?thesis using fits [OF True] by simp
  next
    case False
    then have none: "fitting (room - length ?out) (cp # cps) = []" using Cons(5) by simp
    from Cons(1) show ?thesis
    proof (cases rule: json_item_cases)
      case 1
      let ?j = "room - length ?out"
      have j: "?j < length ?e" using False Cons(5) by linarith
      have "json_string_loop room False ?out (src @ ?t) = json_string_loop room True (?out @ take ?j ?e) ?t"
        using json_string_loop_plain [OF 1(2) Cons(5), of ?t] False 1(1) by simp
      also have "\<dots> = (True, rest, take (json_whole_characters (?out @ take ?j ?e)) (?out @ take ?j ?e))"
        by (rule json_string_loop_items_full [OF Cons(2)])
      also have "json_whole_characters (?out @ take ?j ?e) = length ?out"
        using whole json_whole_characters_tail [OF cp, of ?j ?out] j by (cases "?j = 0") auto
      finally show ?thesis using none by simp
    next
      case 2
      have "json_string_loop room False ?out (src @ ?t) = json_string_loop room True ?out ?t"
        using 2 False json_string_loop_char [of "src @ ?t" True ?e ?t room False ?out] by simp
      also have "\<dots> = (True, rest, take (json_whole_characters ?out) ?out)"
        by (rule json_string_loop_items_full [OF Cons(2)])
      finally show ?thesis using none whole by simp
    qed
  qed
qed

lemma fitting_all: "length (utf8_text cps) \<le> room \<Longrightarrow> fitting room cps = cps"
  by (induction room cps rule: fitting.induct) auto


lemma json_read_string_body_items:
  assumes "list_all2 json_item srcs cps"
  shows "json_read_string_body n (concat srcs @ asc (CHR 0x22) # rest) = (True, rest, utf8_text (fitting (n - 1) cps))"
  using json_string_loop_items [OF assms, of "[]" "n - 1" rest] by (simp add: json_read_string_body_def)

section \<open>Numbers\<close>

lemma json_u64_step:
  assumes "is_digit c"
  defines "digit \<equiv> (ucast (c - asc (CHR ''0'')) :: u64)"
  shows "v > (0xFFFFFFFFFFFFFFFF - digit) div 10 \<longleftrightarrow> 2 ^ 64 \<le> unat v * 10 + digit_val c"
    "unat v * 10 + digit_val c < 2 ^ 64 \<Longrightarrow> unat (v * 10 + digit) = unat v * 10 + digit_val c"
proof -
  have "unat (c - asc (CHR ''0'')) = digit_val c"
    using assms(1) by (simp add: is_digit_def unat_sub digit_val_def)
  then have d: "unat digit = digit_val c" "digit_val c < 10"
    using unat_ucast_u8 [of "c - asc (CHR ''0'')", where 'b = 64] digit_val_less [OF assms(1)] by (simp_all add: digit_def)
  have "digit \<le> 0xFFFFFFFFFFFFFFFF" using d by (simp add: word_le_nat_alt)
  then have "unat ((0xFFFFFFFFFFFFFFFF - digit) div 10) = (18446744073709551615 - digit_val c) div 10"
    by (simp add: unat_div unat_sub d)
  then have "v > (0xFFFFFFFFFFFFFFFF - digit) div 10 \<longleftrightarrow> (18446744073709551615 - digit_val c) div 10 < unat v"
    by (simp add: word_less_nat_alt)
  also have "\<dots> \<longleftrightarrow> 18446744073709551615 - digit_val c < unat v * 10" by (simp add: div_less_iff_less_mult)
  also have "\<dots> \<longleftrightarrow> 2 ^ 64 \<le> unat v * 10 + digit_val c" using d(2) by simp linarith
  finally show "v > (0xFFFFFFFFFFFFFFFF - digit) div 10 \<longleftrightarrow> 2 ^ 64 \<le> unat v * 10 + digit_val c" .
  assume lt: "unat v * 10 + digit_val c < 2 ^ 64"
  have "unat (v * 10) = unat v * 10" using lt by (subst unat_mult_lem [THEN iffD1]) simp_all
  then show "unat (v * 10 + digit) = unat v * 10 + digit_val c"
    using lt d by (subst unat_add_lem [THEN iffD1]) simp_all
qed

lemma json_u64_loop_digits:
  "list_all is_digit ds \<Longrightarrow> rest = [] \<or> \<not> is_digit (hd rest) \<Longrightarrow>
   (if unat v * 10 ^ length ds + digits_value ds < 2 ^ 64
    then json_u64_loop v (ds @ rest) = (Some (of_nat (unat v * 10 ^ length ds + digits_value ds)), rest)
    else fst (json_u64_loop v (ds @ rest)) = None)"
proof (induction ds arbitrary: v)
  case Nil
  have "unat v < 2 ^ 64" using unsigned_less [of v] by simp
  then show ?case using Nil by (cases rest) auto
next
  case (Cons d ds)
  have val: "unat v * 10 ^ length (d # ds) + digits_value (d # ds) = (unat v * 10 + digit_val d) * 10 ^ length ds + digits_value ds"
    using digits_value_append [of "[d]" ds] by (simp add: algebra_simps)
  note step = json_u64_step [of d v]
  show ?case
  proof (cases "unat v * 10 + digit_val d < 2 ^ 64")
    case True
    define v' where "v' = v * 10 + ucast (d - asc (CHR ''0''))"
    have u: "unat v' = unat v * 10 + digit_val d" using step(2) Cons.prems True by (simp add: v'_def)
    have loop: "json_u64_loop v ((d # ds) @ rest) = json_u64_loop v' (ds @ rest)"
      using step(1) Cons.prems True by (simp add: Let_def v'_def)
    have "list_all is_digit ds" using Cons.prems by simp
    from Cons.IH [OF this Cons.prems(2), of v'] show ?thesis unfolding val loop u .
  next
    case False
    define x where "x = unat v * 10 + digit_val d"
    have "x * 1 \<le> x * 10 ^ length ds" by (rule mult_left_mono) simp_all
    then have "\<not> x * 10 ^ length ds + digits_value ds < 2 ^ 64" using False [folded x_def] by linarith
    then show ?thesis unfolding val x_def [symmetric] using False Cons.prems step by (simp add: Let_def)
  qed
qed

section \<open>Values\<close>

text \<open>
  JSON values with the white space a document may have between their tokens, and their text. A string
  is given by its items, a number or literal by its characters.
\<close>

datatype json_value = JString "bytes list" | JAtom bytes
  | JArray bytes "(bytes \<times> json_value \<times> bytes) list"
  | JObject bytes "(bytes \<times> bytes list \<times> bytes \<times> bytes \<times> json_value \<times> bytes) list"

definition quoted :: "bytes list \<Rightarrow> bytes" where
  "quoted srcs = asc (CHR 0x22) # concat srcs @ [asc (CHR 0x22)]"

fun commas :: "bytes list \<Rightarrow> bytes" where
  "commas [] = []"
| "commas [x] = x"
| "commas (x # y # xs) = x @ asc (CHR '','') # commas (y # xs)"

fun json_print :: "json_value \<Rightarrow> bytes" where
  "json_print (JString srcs) = quoted srcs"
| "json_print (JAtom a) = a"
| "json_print (JArray ws vs) = asc (CHR ''['') # ws @ commas (map (\<lambda>(w1, v, w2). w1 @ json_print v @ w2) vs) @ [asc (CHR '']'')]"
| "json_print (JObject ws ms) = asc (CHR ''{'') # ws
     @ commas (map (\<lambda>(w1, k, w2, w3, v, w4). w1 @ quoted k @ w2 @ asc (CHR '':'') # w3 @ json_print v @ w4) ms) @ [asc (CHR ''}'')]"

fun json_depth :: "json_value \<Rightarrow> nat" where
  "json_depth (JString _) = 0"
| "json_depth (JAtom _) = 0"
| "json_depth (JArray _ vs) = Suc (foldr max (map (\<lambda>(_, v, _). json_depth v) vs) 0)"
| "json_depth (JObject _ ms) = Suc (foldr max (map (\<lambda>(_, _, _, _, v, _). json_depth v) ms) 0)"

definition all_space :: "bytes \<Rightarrow> bool" where "all_space ws = list_all json_space ws"

definition atom_byte :: "u8 \<Rightarrow> bool" where
  "atom_byte c = (c \<noteq> 0 \<and> \<not> json_delimiter c \<and> c \<noteq> asc (CHR 0x22) \<and> c \<noteq> asc (CHR ''{'') \<and> c \<noteq> asc (CHR ''['') \<and> c \<noteq> asc (CHR '':''))"

fun wf_json :: "json_value \<Rightarrow> bool" where
  "wf_json (JString srcs) = (\<forall>src \<in> set srcs. \<exists>cp. json_item src cp)"
| "wf_json (JAtom a) = (a \<noteq> [] \<and> list_all atom_byte a)"
| "wf_json (JArray ws vs) = (all_space ws \<and> (\<forall>(w1, v, w2) \<in> set vs. all_space w1 \<and> all_space w2 \<and> wf_json v))"
| "wf_json (JObject ws ms) = (all_space ws \<and> (\<forall>(w1, k, w2, w3, v, w4) \<in> set ms.
     all_space w1 \<and> all_space w2 \<and> all_space w3 \<and> all_space w4 \<and> (\<forall>src \<in> set k. \<exists>cp. json_item src cp) \<and> wf_json v))"

text \<open>Inside a container, the walk passes a piece of text unless the piece nests too deep.\<close>

definition passes :: "nat \<Rightarrow> bool \<Rightarrow> bytes \<Rightarrow> bool" where
  "passes d ok p = (\<forall>t. if ok then json_skip_loop d (p @ t) = json_skip_loop d t else \<not> fst (json_skip_loop d (p @ t)))"

definition neutral :: "u8 \<Rightarrow> bool" where
  "neutral c = (c \<noteq> asc (CHR 0x22) \<and> c \<noteq> asc (CHR ''{'') \<and> c \<noteq> asc (CHR ''['') \<and> c \<noteq> asc (CHR ''}'') \<and> c \<noteq> asc (CHR '']''))"

lemma json_skip_loop_Cons:
  "json_skip_loop d (c # t) =
     (if c = asc (CHR 0x22) then
        (case json_skip_string_body t of (ok, t') \<Rightarrow> if \<not> ok then (False, t') else json_skip_loop d t')
      else if c = asc (CHR ''{'') \<or> c = asc (CHR ''['') then
        (if d + 1 > json_max_depth then (False, t) else json_skip_loop (d + 1) t)
      else if c = asc (CHR ''}'') \<or> c = asc (CHR '']'') then
        (if d - 1 = 0 then (True, t) else json_skip_loop (d - 1) t)
      else json_skip_loop d t)"
  by (subst json_skip_loop.simps) simp

lemma passes_append: "passes d ok1 p \<Longrightarrow> passes d ok2 q \<Longrightarrow> passes d (ok1 \<and> ok2) (p @ q)"
  unfolding passes_def by (cases ok1; cases ok2) auto

lemma passes_neutral: "list_all neutral cs \<Longrightarrow> passes d True cs"
proof (induction cs)
  case (Cons c cs)
  then have "passes d True cs" by simp
  then show ?case using Cons.prems by (auto simp: passes_def json_skip_loop_Cons neutral_def)
qed (simp add: passes_def)

lemma skip_string_plain: "list_all plain_byte cs \<Longrightarrow> json_skip_string_body (cs @ t) = json_skip_string_body t"
  by (induction cs) (auto simp: plain_byte_def)

lemma skip_string_item: "json_item src cp \<Longrightarrow> json_skip_string_body (src @ t) = json_skip_string_body t"
proof (elim json_itemE)
  fix c assume "src = [0x5C, c]"
  then show ?thesis by simp
next
  assume "src = utf8_encode cp" "scalar cp" "cp \<noteq> 0x22" "cp \<noteq> 0x5C"
  then show ?thesis using encode_plain skip_string_plain by simp
next
  fix n3 n2 n1 n0 :: nat and u3 u2 u1 u0
  assume "src = [0x5C, 0x75, hex_char u3 n3, hex_char u2 n2, hex_char u1 n1, hex_char u0 n0]"
    and n: "n3 < 16" "n2 < 16" "n1 < 16" "n0 < 16"
  moreover have "plain_byte (hex_char u n)" if "n < 16" for u n
  proof -
    have "json_hex_digit (asc (CHR 0x22)) = None" "json_hex_digit (asc (CHR 0x5C)) = None" by (simp_all add: json_hex_digit_def)
    then show ?thesis using json_hex_digit_char [OF that, of u] by (auto simp: plain_byte_def)
  qed
  ultimately show ?thesis using skip_string_plain [of "[hex_char u3 n3, hex_char u2 n2, hex_char u1 n1, hex_char u0 n0]" t] by simp
qed

lemma skip_string_items:
  "\<forall>src \<in> set srcs. \<exists>cp. json_item src cp \<Longrightarrow> json_skip_string_body (concat srcs @ asc (CHR 0x22) # t) = (True, t)"
  by (induction srcs) (auto simp: skip_string_item)

lemma passes_quoted: "\<forall>src \<in> set srcs. \<exists>cp. json_item src cp \<Longrightarrow> passes d True (quoted srcs)"
  using skip_string_items by (auto simp: passes_def quoted_def json_skip_loop_Cons)

lemma all_space_neutral: "all_space ws \<Longrightarrow> passes d True ws"
  by (rule passes_neutral) (auto simp: all_space_def list_all_iff json_space_def neutral_def)

lemma passes_bracket:
  assumes "passes (Suc d) ok p" "0 < d" "opening = asc (CHR ''{'') \<or> opening = asc (CHR ''['')" "closing = asc (CHR ''}'') \<or> closing = asc (CHR '']'')"
  shows "passes d (Suc d \<le> 32 \<and> ok) (opening # p @ [closing])"
  using assms unfolding passes_def
  by (auto simp: json_skip_loop_Cons json_max_depth_def)

definition array_pieces :: "(bytes \<times> json_value \<times> bytes) list \<Rightarrow> bytes list" where
  "array_pieces vs = map (\<lambda>(w1, v, w2). w1 @ json_print v @ w2) vs"

definition object_pieces :: "(bytes \<times> bytes list \<times> bytes \<times> bytes \<times> json_value \<times> bytes) list \<Rightarrow> bytes list" where
  "object_pieces ms = map (\<lambda>(w1, k, w2, w3, v, w4). w1 @ quoted k @ w2 @ asc (CHR '':'') # w3 @ json_print v @ w4) ms"

lemma passes_commas_map:
  assumes "\<And>x. x \<in> set xs \<Longrightarrow> passes d (ok x) (f x)"
  shows "passes d (list_all ok xs) (commas (map f xs))"
  using assms
proof (induction xs rule: induct_list012)
  case (3 x y zs)
  have "passes d (ok x) (f x)" using 3 by simp
  moreover have "passes d True [asc (CHR '','')]" by (rule passes_neutral) (simp add: neutral_def)
  moreover have "passes d (list_all ok (y # zs)) (commas (map f (y # zs)))" using 3 by simp
  ultimately have "passes d (ok x \<and> True \<and> list_all ok (y # zs)) (f x @ [asc (CHR '','')] @ commas (map f (y # zs)))"
    by (intro passes_append)
  then show ?case by simp
qed (simp_all add: passes_def)

lemma json_print_inner:
  assumes "0 < d"
  shows "(wf_json (JArray ws vs) \<Longrightarrow> (\<And>w1 v w2. (w1, v, w2) \<in> set vs \<Longrightarrow> passes d (d + json_depth v \<le> 32) (json_print v)) \<Longrightarrow>
     passes d (list_all (\<lambda>(w1, v, w2). d + json_depth v \<le> 32) vs) (ws @ commas (array_pieces vs)))"
    and "(wf_json (JObject ws ms) \<Longrightarrow> (\<And>w1 k w2 w3 v w4. (w1, k, w2, w3, v, w4) \<in> set ms \<Longrightarrow> passes d (d + json_depth v \<le> 32) (json_print v)) \<Longrightarrow>
     passes d (list_all (\<lambda>(w1, k, w2, w3, v, w4). d + json_depth v \<le> 32) ms) (ws @ commas (object_pieces ms)))"
proof -
  assume wf: "wf_json (JArray ws vs)" and IH: "\<And>w1 v w2. (w1, v, w2) \<in> set vs \<Longrightarrow> passes d (d + json_depth v \<le> 32) (json_print v)"
  have "passes d (case x of (w1, v, w2) \<Rightarrow> d + json_depth v \<le> 32) (case x of (w1, v, w2) \<Rightarrow> w1 @ json_print v @ w2)" if "x \<in> set vs" for x
  proof -
    obtain w1 v w2 where x: "x = (w1, v, w2)" by (metis prod_cases3)
    have "passes d (True \<and> (d + json_depth v \<le> 32) \<and> True) (w1 @ json_print v @ w2)"
      using wf IH [of w1 v w2] that x by (intro passes_append all_space_neutral) auto
    then show ?thesis by (simp add: x)
  qed
  then have "passes d (list_all (\<lambda>(w1, v, w2). d + json_depth v \<le> 32) vs) (commas (array_pieces vs))"
    unfolding array_pieces_def by (rule passes_commas_map)
  then show "passes d (list_all (\<lambda>(w1, v, w2). d + json_depth v \<le> 32) vs) (ws @ commas (array_pieces vs))"
    using passes_append [of d True ws] all_space_neutral wf by fastforce
next
  assume wf: "wf_json (JObject ws ms)"
    and IH: "\<And>w1 k w2 w3 v w4. (w1, k, w2, w3, v, w4) \<in> set ms \<Longrightarrow> passes d (d + json_depth v \<le> 32) (json_print v)"
  have "passes d (case x of (w1, k, w2, w3, v, w4) \<Rightarrow> d + json_depth v \<le> 32)
      (case x of (w1, k, w2, w3, v, w4) \<Rightarrow> w1 @ quoted k @ w2 @ asc (CHR '':'') # w3 @ json_print v @ w4)" if "x \<in> set ms" for x
  proof -
    obtain w1 k w2 w3 v w4 where x: "x = (w1, k, w2, w3, v, w4)" by (metis prod_cases6)
    have colon: "passes d True [asc (CHR '':'')]" by (rule passes_neutral) (simp add: neutral_def)
    have "passes d True w1" "passes d True (quoted k)" "passes d True w2" "passes d True w3" "passes d True w4"
      "passes d (d + json_depth v \<le> 32) (json_print v)"
      using wf IH [of w1 k w2 w3 v w4] that x by (auto intro: all_space_neutral passes_quoted)
    with colon have "passes d (True \<and> True \<and> True \<and> True \<and> True \<and> (d + json_depth v \<le> 32) \<and> True)
       (w1 @ quoted k @ w2 @ [asc (CHR '':'')] @ w3 @ json_print v @ w4)"
      by (intro passes_append)
    then show ?thesis by (simp add: x)
  qed
  then have "passes d (list_all (\<lambda>(w1, k, w2, w3, v, w4). d + json_depth v \<le> 32) ms) (commas (object_pieces ms))"
    unfolding object_pieces_def by (rule passes_commas_map)
  then show "passes d (list_all (\<lambda>(w1, k, w2, w3, v, w4). d + json_depth v \<le> 32) ms) (ws @ commas (object_pieces ms))"
    using passes_append [of d True ws] all_space_neutral wf by fastforce
qed

lemma json_depth_array:
  "Suc d \<le> 32 \<and> list_all (\<lambda>(w1, v, w2). Suc d + json_depth v \<le> 32) vs \<longleftrightarrow> d + json_depth (JArray ws vs) \<le> 32"
  by (induction vs) auto

lemma json_depth_object:
  "Suc d \<le> 32 \<and> list_all (\<lambda>(w1, k, w2, w3, v, w4). Suc d + json_depth v \<le> 32) ms \<longleftrightarrow> d + json_depth (JObject ws ms) \<le> 32"
  by (induction ms) auto

lemma json_print_brackets:
  "json_print (JArray ws vs) = asc (CHR ''['') # (ws @ commas (array_pieces vs)) @ [asc (CHR '']'')]"
  "json_print (JObject ws ms) = asc (CHR ''{'') # (ws @ commas (object_pieces ms)) @ [asc (CHR ''}'')]"
  by (simp_all add: array_pieces_def object_pieces_def)

declare json_print.simps(3,4) [simp del]

lemma json_print_passes: "wf_json v \<Longrightarrow> 0 < d \<Longrightarrow> d \<le> 32 \<Longrightarrow> passes d (d + json_depth v \<le> 32) (json_print v)"
proof (induction v arbitrary: d)
  case (JString srcs)
  then show ?case using passes_quoted [of srcs d] by simp
next
  case (JAtom a)
  then have "list_all neutral a" by (auto simp: list_all_iff atom_byte_def neutral_def json_delimiter_def)
  then show ?case using passes_neutral [of a d] JAtom by simp
next
  case (JArray ws vs)
  show ?case
  proof (cases "Suc d \<le> 32")
    case True
    have "passes (Suc d) (list_all (\<lambda>(w1, v, w2). Suc d + json_depth v \<le> 32) vs) (ws @ commas (array_pieces vs))"
    proof (rule json_print_inner(1) [OF _ JArray.prems(1)])
      fix w1 v w2 assume "(w1, v, w2) \<in> set vs"
      then show "passes (Suc d) (Suc d + json_depth v \<le> 32) (json_print v)"
        using JArray.IH [of "(w1, v, w2)" "(v, w2)" v "Suc d"] JArray.prems True by fastforce
    qed simp
    from passes_bracket [OF this JArray.prems(2), of "asc (CHR ''['')" "asc (CHR '']'')"] show ?thesis
      unfolding json_print_brackets json_depth_array [of d vs ws] by blast
  next
    case False
    then show ?thesis using JArray.prems
      by (auto simp: passes_def json_print_brackets json_skip_loop_Cons json_max_depth_def)
  qed
next
  case (JObject ws ms)
  show ?case
  proof (cases "Suc d \<le> 32")
    case True
    have "passes (Suc d) (list_all (\<lambda>(w1, k, w2, w3, v, w4). Suc d + json_depth v \<le> 32) ms) (ws @ commas (object_pieces ms))"
    proof (rule json_print_inner(2) [OF _ JObject.prems(1)])
      fix w1 k w2 w3 v w4 assume "(w1, k, w2, w3, v, w4) \<in> set ms"
      then show "passes (Suc d) (Suc d + json_depth v \<le> 32) (json_print v)"
        using JObject.IH [of "(w1, k, w2, w3, v, w4)" "(k, w2, w3, v, w4)" "(w2, w3, v, w4)" "(w3, v, w4)" "(v, w4)" v "Suc d"] JObject.prems True
        by fastforce
    qed simp
    from passes_bracket [OF this JObject.prems(2), of "asc (CHR ''{'')" "asc (CHR ''}'')"] show ?thesis
      unfolding json_print_brackets json_depth_object [of d ms ws] by blast
  next
    case False
    then show ?thesis using JObject.prems
      by (auto simp: passes_def json_print_brackets json_skip_loop_Cons json_max_depth_def)
  qed
qed

section \<open>Tokens\<close>

lemma json_skip_space_over: "all_space w \<Longrightarrow> t = [] \<or> \<not> json_space (hd t) \<Longrightarrow> json_skip_space (w @ t) = t"
  unfolding json_skip_space_def all_space_def
  by (cases t) (auto simp: list_all_iff dropWhile_append)

lemma json_peek_over: "all_space w \<Longrightarrow> \<not> json_space c \<Longrightarrow> json_peek (w @ c # t) = (c, c # t)"
  using json_skip_space_over [of w "c # t"] by (simp add: json_peek_def)

lemma json_take_over:
  "all_space w \<Longrightarrow> \<not> json_space d \<Longrightarrow> json_take c (w @ d # t) = (if d = c then (True, t) else (False, d # t))"
  by (simp add: json_take_def json_peek_over)

lemma not_space_tokens [simp]:
  "\<not> json_space 0x22" "\<not> json_space 0x7D" "\<not> json_space 0x7B" "\<not> json_space 0x3A" "\<not> json_space 0x2C" "\<not> json_space 0x5B"
  by (simp_all add: json_space_def)

lemma json_print_first:
  assumes "wf_json v"
  obtains c t where "json_print v = c # t" "\<not> json_space c" "c \<noteq> 0"
    "case v of JString srcs \<Rightarrow> c = asc (CHR 0x22) \<and> t = concat srcs @ [asc (CHR 0x22)]
       | JAtom _ \<Rightarrow> c \<noteq> asc (CHR 0x22) \<and> c \<noteq> asc (CHR ''{'') \<and> c \<noteq> asc (CHR ''['')
       | JArray ws vs \<Rightarrow> c = asc (CHR ''['') \<and> t = (ws @ commas (array_pieces vs)) @ [asc (CHR '']'')]
       | JObject ws ms \<Rightarrow> c = asc (CHR ''{'') \<and> t = (ws @ commas (object_pieces ms)) @ [asc (CHR ''}'')]"
proof (cases v)
  case (JAtom a)
  then obtain c t where "a = c # t" using assms by (cases a) auto
  then show ?thesis using that [of c t] JAtom assms by (auto simp: atom_byte_def json_delimiter_def)
qed (use that in \<open>auto simp: quoted_def json_print_brackets json_space_def\<close>)

lemma json_skip_container:
  assumes "passes 1 ok p" "opening = asc (CHR ''{'') \<or> opening = asc (CHR ''['')" "closing = asc (CHR ''}'') \<or> closing = asc (CHR '']'')"
  shows "if ok then json_skip_loop 0 (opening # (p @ [closing]) @ rest) = (True, rest)
     else \<not> fst (json_skip_loop 0 (opening # (p @ [closing]) @ rest))"
  using assms unfolding passes_def by (auto simp: json_skip_loop_Cons json_max_depth_def)

lemma json_skip_print:
  assumes wf: "wf_json v" and w: "all_space w"
    and rest: "\<And>a. v = JAtom a \<Longrightarrow> rest = [] \<or> json_delimiter (hd rest)"
  shows "if json_depth v \<le> 32
     then inkwell_json_skip_value \<lparr>js_text = Some (w @ json_print v @ rest), js_at_first = f\<rparr> = (True, \<lparr>js_text = Some rest, js_at_first = f\<rparr>)
     else \<not> fst (inkwell_json_skip_value \<lparr>js_text = Some (w @ json_print v @ rest), js_at_first = f\<rparr>)"
proof -
  let ?j = "\<lparr>js_text = Some (w @ json_print v @ rest), js_at_first = f\<rparr>"
  obtain c t where c: "json_print v = c # t" "\<not> json_space c" "c \<noteq> 0"
    "case v of JString srcs \<Rightarrow> c = asc (CHR 0x22) \<and> t = concat srcs @ [asc (CHR 0x22)]
       | JAtom _ \<Rightarrow> c \<noteq> asc (CHR 0x22) \<and> c \<noteq> asc (CHR ''{'') \<and> c \<noteq> asc (CHR ''['')
       | JArray ws vs \<Rightarrow> c = asc (CHR ''['') \<and> t = (ws @ commas (array_pieces vs)) @ [asc (CHR '']'')]
       | JObject ws ms \<Rightarrow> c = asc (CHR ''{'') \<and> t = (ws @ commas (object_pieces ms)) @ [asc (CHR ''}'')]"
    by (rule json_print_first [OF wf])
  have peek: "json_peek (w @ json_print v @ rest) = (c, c # t @ rest)"
    using json_peek_over [OF w c(2), of "t @ rest"] by (simp add: c(1))
  have inner: "passes 1 (1 + json_depth u \<le> 32) (json_print u)" if "wf_json u" for u
    using json_print_passes [OF that, of 1] by simp
  show ?thesis
  proof (cases v)
    case (JString srcs)
    then have "json_skip_string_body (t @ rest) = (True, rest)" using skip_string_items [of srcs rest] c(4) wf by simp
    then show ?thesis using JString c peek by (simp add: inkwell_json_skip_value_def)
  next
    case (JAtom a)
    have "list_all (\<lambda>c. \<not> json_delimiter c) (c # t)" using wf JAtom c(1) by (auto simp: list_all_iff atom_byte_def)
    then have "dropWhile (\<lambda>c. \<not> json_delimiter c) (c # t @ rest) = rest"
      using rest [OF JAtom] by (cases rest) (auto simp: list_all_iff dropWhile_append)
    then show ?thesis using JAtom c peek by (simp add: inkwell_json_skip_value_def)
  next
    case (JArray ws vs)
    have p: "passes 1 (list_all (\<lambda>(w1, v, w2). 1 + json_depth v \<le> 32) vs) (ws @ commas (array_pieces vs))"
      by (rule json_print_inner(1)) (use wf JArray inner in \<open>auto simp: wf_json.simps\<close>)
    have "if json_depth v \<le> 32 then json_skip_loop 0 (c # t @ rest) = (True, rest) else \<not> fst (json_skip_loop 0 (c # t @ rest))"
      using json_skip_container [OF p, of c "asc (CHR '']'')" rest] c(4) JArray json_depth_array [of 0 vs ws] by (simp split: if_splits)
    then show ?thesis using JArray c peek by (auto simp: inkwell_json_skip_value_def split: prod.split)
  next
    case (JObject ws ms)
    have p: "passes 1 (list_all (\<lambda>(w1, k, w2, w3, v, w4). 1 + json_depth v \<le> 32) ms) (ws @ commas (object_pieces ms))"
      by (rule json_print_inner(2)) (use wf JObject inner in \<open>auto simp: wf_json.simps\<close>)
    have "if json_depth v \<le> 32 then json_skip_loop 0 (c # t @ rest) = (True, rest) else \<not> fst (json_skip_loop 0 (c # t @ rest))"
      using json_skip_container [OF p, of c "asc (CHR ''}'')" rest] c(4) JObject json_depth_object [of 0 ms ws] by (simp split: if_splits)
    then show ?thesis using JObject c peek by (auto simp: inkwell_json_skip_value_def split: prod.split)
  qed
qed

section \<open>Members of an object\<close>

type_synonym json_member = "bytes \<times> bytes list \<times> bytes \<times> bytes \<times> json_value \<times> bytes"

text \<open>The text after a member: the next members or the end of the object.\<close>

fun members_tail :: "json_member list \<Rightarrow> bytes \<Rightarrow> bytes" where
  "members_tail [] rest = asc (CHR ''}'') # rest"
| "members_tail ms rest = asc (CHR '','') # commas (object_pieces ms) @ asc (CHR ''}'') # rest"

fun member_piece :: "json_member \<Rightarrow> bytes" where
  "member_piece (w1, k, w2, w3, v, w4) = w1 @ quoted k @ w2 @ asc (CHR '':'') # w3 @ json_print v @ w4"

lemma members_Cons: "commas (object_pieces (m # ms)) @ asc (CHR ''}'') # rest = member_piece m @ members_tail ms rest"
  by (cases m; cases ms) (auto simp: object_pieces_def)

lemma members_tail_Cons: "members_tail (m # ms) rest = asc (CHR '','') # member_piece m @ members_tail ms rest"
  unfolding members_tail.simps members_Cons ..

text \<open>Where a search for a key ends: on the value of the first member with that key, or after the object.\<close>

fun find_member :: "(bytes list \<Rightarrow> nat list) \<Rightarrow> bytes \<Rightarrow> json_member list \<Rightarrow> bytes \<Rightarrow> bool \<times> bytes" where
  "find_member name key [] rest = (False, rest)"
| "find_member name key ((w1, k, w2, w3, v, w4) # ms) rest =
     (if utf8_text (name k) = key then (True, w3 @ json_print v @ w4 @ members_tail ms rest)
      else find_member name key ms rest)"

definition good_member :: "(bytes list \<Rightarrow> nat list) \<Rightarrow> json_member \<Rightarrow> bool" where
  "good_member name m = (case m of (w1, k, w2, w3, v, w4) \<Rightarrow>
     all_space w1 \<and> all_space w2 \<and> all_space w3 \<and> all_space w4 \<and> list_all2 json_item k (name k)
     \<and> length (utf8_text (name k)) \<le> 63 \<and> 0 \<notin> set (utf8_text (name k)) \<and> wf_json v \<and> json_depth v \<le> 32)"

lemma next_key_close:
  "all_space w \<Longrightarrow> inkwell_json_next_key \<lparr>js_text = Some (w @ asc (CHR ''}'') # t), js_at_first = f\<rparr> n
     = (False, \<lparr>js_text = Some t, js_at_first = False\<rparr>, [])"
  using json_take_over [of w "asc (CHR ''}'')" "asc (CHR ''}'')" t] by (simp add: inkwell_json_next_key_def)

lemma next_key_quoted:
  assumes "all_space w" "all_space w2" "list_all2 json_item k cps"
  shows "inkwell_json_next_key \<lparr>js_text = Some (w @ quoted k @ w2 @ asc (CHR '':'') # t), js_at_first = True\<rparr> n
     = (True, \<lparr>js_text = Some t, js_at_first = False\<rparr>, utf8_text (fitting (n - 1) cps))"
proof -
  let ?b = "concat k @ asc (CHR 0x22) # w2 @ asc (CHR '':'') # t"
  have q: "quoted k @ w2 @ asc (CHR '':'') # t = asc (CHR 0x22) # ?b" by (simp add: quoted_def)
  have 1: "json_take (asc (CHR ''}'')) (w @ asc (CHR 0x22) # ?b) = (False, asc (CHR 0x22) # ?b)"
    using json_take_over [OF assms(1), of "asc (CHR 0x22)" "asc (CHR ''}'')" ?b] by simp
  have 2: "json_take (asc (CHR 0x22)) (asc (CHR 0x22) # ?b) = (True, ?b)"
    using json_take_over [of "[]" "asc (CHR 0x22)" "asc (CHR 0x22)" ?b] by (simp add: all_space_def)
  have 3: "json_take (asc (CHR '':'')) (w2 @ asc (CHR '':'') # t) = (True, t)"
    using json_take_over [OF assms(2), of "asc (CHR '':'')" "asc (CHR '':'')" t] by simp
  show ?thesis unfolding q inkwell_json_next_key_def
    by (simp only: inkwell_json.select_convs option.case 1 2 3 json_read_string_body_items [OF assms(3)] prod.case not_True_eq_False if_False if_True not_False_eq_True)
qed

lemma next_key_comma:
  assumes "all_space w" "all_space w1" "all_space w2" "list_all2 json_item k cps"
  shows "inkwell_json_next_key \<lparr>js_text = Some (w @ asc (CHR '','') # w1 @ quoted k @ w2 @ asc (CHR '':'') # t), js_at_first = False\<rparr> n
     = (True, \<lparr>js_text = Some t, js_at_first = False\<rparr>, utf8_text (fitting (n - 1) cps))"
proof -
  let ?b = "concat k @ asc (CHR 0x22) # w2 @ asc (CHR '':'') # t"
  let ?c = "w1 @ asc (CHR 0x22) # ?b"
  have q: "quoted k @ w2 @ asc (CHR '':'') # t = asc (CHR 0x22) # ?b" by (simp add: quoted_def)
  have 1: "json_take (asc (CHR ''}'')) (w @ asc (CHR '','') # ?c) = (False, asc (CHR '','') # ?c)"
    using json_take_over [OF assms(1), of "asc (CHR '','')" "asc (CHR ''}'')" ?c] by simp
  have 0: "json_take (asc (CHR '','')) (asc (CHR '','') # ?c) = (True, ?c)"
    using json_take_over [of "[]" "asc (CHR '','')" "asc (CHR '','')" ?c] by (simp add: all_space_def)
  have 2: "json_take (asc (CHR 0x22)) ?c = (True, ?b)"
    using json_take_over [OF assms(2), of "asc (CHR 0x22)" "asc (CHR 0x22)" ?b] by simp
  have 3: "json_take (asc (CHR '':'')) (w2 @ asc (CHR '':'') # t) = (True, t)"
    using json_take_over [OF assms(3), of "asc (CHR '':'')" "asc (CHR '':'')" t] by simp
  show ?thesis unfolding q inkwell_json_next_key_def
    by (simp only: inkwell_json.select_convs option.case 0 1 2 3 json_read_string_body_items [OF assms(4)] prod.case not_True_eq_False if_False if_True not_False_eq_True)
qed

lemma members_tail_delimiter: "json_delimiter (hd (members_tail ms rest))" "members_tail ms rest \<noteq> []"
  by (cases ms; simp add: json_delimiter_def)+

text \<open>One turn of the search, once the key has been read.\<close>

lemma find_loop_turn:
  assumes "good_member name (w1, k, w2, w3, v, w4)"
    and key: "inkwell_json_next_key json 64 = (True, \<lparr>js_text = Some (w3 @ json_print v @ w4 @ members_tail ms rest), js_at_first = False\<rparr>,
        utf8_text (fitting 63 (name k)))"
  shows "json_find_loop json key =
     (if utf8_text (name k) = key then (True, \<lparr>js_text = Some (w3 @ json_print v @ w4 @ members_tail ms rest), js_at_first = False\<rparr>)
      else json_find_loop \<lparr>js_text = Some (w4 @ members_tail ms rest), js_at_first = False\<rparr> key)"
proof -
  let ?rest = "w4 @ members_tail ms rest"
  have g: "all_space w3" "all_space w4" "wf_json v" "json_depth v \<le> 32" "fitting 63 (name k) = name k"
    "takeWhile (\<lambda>c. c \<noteq> 0) (utf8_text (name k)) = utf8_text (name k)"
    using assms(1) by (auto simp: good_member_def fitting_all takeWhile_eq_all_conv)
  have "json_delimiter (hd ?rest)"
    using g(2) members_tail_delimiter [of ms rest] by (cases w4) (auto simp: all_space_def json_delimiter_def)
  then have "inkwell_json_skip_value \<lparr>js_text = Some (w3 @ json_print v @ ?rest), js_at_first = False\<rparr>
      = (True, \<lparr>js_text = Some ?rest, js_at_first = False\<rparr>)"
    using json_skip_print [OF g(3,1), of ?rest False] g(4) by simp
  then show ?thesis using g(5,6) key by (subst json_find_loop.simps) (simp only: prod.case simp_thms if_True if_False)
qed

lemma find_loop_members:
  assumes "list_all (good_member name) ms" "all_space w"
  shows "json_find_loop \<lparr>js_text = Some (w @ members_tail ms rest), js_at_first = False\<rparr> key
     = (case find_member name key ms rest of (ok, t) \<Rightarrow> (ok, \<lparr>js_text = Some t, js_at_first = False\<rparr>))"
  using assms
proof (induction ms arbitrary: w)
  case Nil
  then show ?case using next_key_close [of w rest False 64] by (subst json_find_loop.simps) simp
next
  case (Cons m ms)
  obtain w1 k w2 w3 v w4 where m: "m = (w1, k, w2, w3, v, w4)" by (metis prod_cases6)
  have g: "good_member name (w1, k, w2, w3, v, w4)" using Cons.prems m by simp
  then have s: "all_space w1" "all_space w2" "list_all2 json_item k (name k)" "all_space w4" by (auto simp: good_member_def)
  have "w @ members_tail (m # ms) rest
      = w @ asc (CHR '','') # w1 @ quoted k @ w2 @ asc (CHR '':'') # (w3 @ json_print v @ w4 @ members_tail ms rest)"
    unfolding members_tail_Cons m by simp
  then show ?case
    using find_loop_turn [OF g, of "\<lparr>js_text = Some (w @ members_tail (m # ms) rest), js_at_first = False\<rparr>" ms rest key]
      next_key_comma [OF Cons.prems(2) s(1-3), of "w3 @ json_print v @ w4 @ members_tail ms rest" 64] Cons.IH [of w4] Cons.prems s(4)
    by (simp add: m)
qed

section \<open>Properties\<close>

lemma json_enter_suffix [json_suffix]: "suffix (json_left (snd (json_enter c json))) (json_left json)"
  using json_take_suffix
  by (fastforce simp: json_enter_def json_left_def split: option.splits prod.splits if_splits dest: arg_cong [of _ _ snd])

lemma json_next_element_suffix [json_suffix]: "suffix (json_left (snd (inkwell_json_next_element json))) (json_left json)"
proof (cases "js_text json")
  case None
  then show ?thesis by (simp add: inkwell_json_next_element_def)
next
  case (Some t)
  obtain a1 t1 where 1: "json_take (asc (CHR '']'')) t = (a1, t1)" by force
  obtain a2 t2 where 2: "(if js_at_first json then (True, t1) else json_take (asc (CHR '','')) t1) = (a2, t2)" by force
  obtain a3 t3 where 3: "json_peek t2 = (a3, t3)" by force
  have "suffix t1 t" "suffix t2 t1" "suffix t3 t2"
    using json_take_suffix [of "asc (CHR '']'')" t] json_take_suffix [of "asc (CHR '','')" t1] json_peek_suffix [of t2] 1 2 3
    by (auto split: if_splits)
  then have "suffix t1 t" "suffix t2 t" "suffix t3 t" by (auto intro: suffix_order.trans)
  then show ?thesis using 1 2 3 Some
    by (auto simp: inkwell_json_next_element_def json_left_def [of json])
qed

lemma json_read_suffix [json_suffix]:
  "suffix (json_left (fst (snd (inkwell_json_read_string json n)))) (json_left json)"
  "suffix (json_left (snd (inkwell_json_read_u64 json))) (json_left json)"
  "suffix (json_left (snd (inkwell_json_read_bool json))) (json_left json)"
proof -
  show "suffix (json_left (fst (snd (inkwell_json_read_string json n)))) (json_left json)"
  proof (cases "js_text json")
    case (Some t)
    obtain c u where p: "json_peek t = (c, u)" by force
    have u: "suffix u t" using json_peek_suffix [of t] p by simp
    moreover have "suffix (fst (snd (json_read_string_body n (tl u)))) t"
      unfolding json_read_string_body_def by (rule suffix_order.trans [OF json_string_loop_suffix suffix_tl [OF u]])
    ultimately show ?thesis using Some p
      by (auto simp: inkwell_json_read_string_def json_left_def [of json] split: prod.split)
  qed (simp add: inkwell_json_read_string_def)
  show "suffix (json_left (snd (inkwell_json_read_u64 json))) (json_left json)"
  proof (cases "js_text json")
    case (Some t)
    obtain c u where p: "json_peek t = (c, u)" by force
    have u: "suffix u t" using json_peek_suffix [of t] p by simp
    moreover have "suffix (snd (json_u64_loop 0 u)) t" by (rule suffix_order.trans [OF json_u64_loop_suffix u])
    ultimately show ?thesis using Some p
      by (auto simp: inkwell_json_read_u64_def json_left_def [of json] split: prod.split)
  qed (simp add: inkwell_json_read_u64_def)
  show "suffix (json_left (snd (inkwell_json_read_bool json))) (json_left json)"
  proof (cases "js_text json")
    case (Some t)
    obtain c u where p: "json_peek t = (c, u)" by force
    have u: "suffix u t" using json_peek_suffix [of t] p by simp
    then have "suffix (drop k u) t" for k by (rule suffix_order.trans [OF suffix_drop])
    then show ?thesis using Some p u
      by (auto simp: inkwell_json_read_bool_def json_left_def [of json])
  qed (simp add: inkwell_json_read_bool_def)
qed

lemma json_find_loop_suffix [json_suffix]: "suffix (json_left (snd (json_find_loop json key))) (json_left json)"
proof (induction json key rule: json_find_loop.induct)
  case (1 json key)
  obtain mk json2 name where n: "inkwell_json_next_key json 64 = (mk, json2, name)" by (metis prod_cases3)
  obtain ok json3 where k: "inkwell_json_skip_value json2 = (ok, json3)" by force
  have s: "suffix (json_left json2) (json_left json)" "suffix (json_left json3) (json_left json2)"
    using json_next_key_suffix [of json 64] json_skip_value_suffix [of json2] n k by auto
  have "mk \<Longrightarrow> takeWhile (\<lambda>c. c \<noteq> 0) name \<noteq> key \<Longrightarrow> ok \<Longrightarrow> suffix (json_left (snd (json_find_loop json3 key))) (json_left json3)"
    using 1 [OF n [symmetric] refl _ _ k [symmetric]] by simp
  then show ?case using s n k
    by (subst json_find_loop.simps) (auto intro: suffix_order.trans)
qed

lemma json_object_find_suffix [json_suffix]: "suffix (json_left (snd (inkwell_json_object_find json key))) (json_left json)"
proof (cases key)
  case (Some k)
  obtain ok json2 where e: "inkwell_json_enter_object json = (ok, json2)" by force
  have "suffix (json_left json2) (json_left json)"
    using json_enter_suffix [of "asc (CHR ''{'')" json] e by (simp add: inkwell_json_enter_object_def)
  then show ?thesis using Some e json_find_loop_suffix [of json2 k]
    by (auto simp: inkwell_json_object_find_def intro: suffix_order.trans)
qed (simp add: inkwell_json_object_find_def)

text \<open>
  No operation of the reader ever moves the cursor backwards or past the end of the text it was
  given, whatever the text is and whether or not the operation succeeds.
\<close>

theorem json_cursor_forward:
  "suffix (json_left (snd (inkwell_json_enter_object json))) (json_left json)
   \<and> suffix (json_left (snd (inkwell_json_enter_array json))) (json_left json)
   \<and> suffix (json_left (fst (snd (inkwell_json_next_key json n)))) (json_left json)
   \<and> suffix (json_left (snd (inkwell_json_next_element json))) (json_left json)
   \<and> suffix (json_left (fst (snd (inkwell_json_read_string json n)))) (json_left json)
   \<and> suffix (json_left (snd (inkwell_json_read_u64 json))) (json_left json)
   \<and> suffix (json_left (snd (inkwell_json_read_bool json))) (json_left json)
   \<and> suffix (json_left (snd (inkwell_json_skip_value json))) (json_left json)
   \<and> suffix (json_left (snd (inkwell_json_object_find json key))) (json_left json)"
  using json_next_key_suffix json_suffix
  by (simp add: inkwell_json_enter_object_def inkwell_json_enter_array_def)



text \<open>
  An unsigned number is read exactly or refused: the value of the whole run of digits when it is
  below \<open>2 ^ 64\<close>, with the cursor after the run, and a refusal when it is not. Nothing wraps around.
\<close>

theorem json_read_u64_exact:
  assumes "list_all is_digit ds" "ds \<noteq> []" "rest = [] \<or> \<not> is_digit (hd rest)" "all_space w"
  shows "if digits_value ds < 2 ^ 64
     then inkwell_json_read_u64 \<lparr>js_text = Some (w @ ds @ rest), js_at_first = f\<rparr>
        = (Some (of_nat (digits_value ds)), \<lparr>js_text = Some rest, js_at_first = f\<rparr>)
     else fst (inkwell_json_read_u64 \<lparr>js_text = Some (w @ ds @ rest), js_at_first = f\<rparr>) = None"
proof -
  obtain d ds' where ds: "ds = d # ds'" using assms(2) by (cases ds) auto
  have d: "is_digit d" using assms(1) ds by simp
  then have "\<not> json_space d" by (auto simp: is_digit_def json_space_def)
  then have "json_peek (w @ ds @ rest) = (d, ds @ rest)" using json_peek_over [OF assms(4)] ds by simp
  then show ?thesis using json_u64_loop_digits [OF assms(1,3), of 0] d
    by (auto simp: inkwell_json_read_u64_def is_digit_def not_less split: prod.splits)
qed

theorem json_read_u64_exact_witness:
  "fst (inkwell_json_read_u64 \<lparr>js_text = Some (ascii '' 18446744073709551616,''), js_at_first = True\<rparr>) = None"
  using json_read_u64_exact [of "ascii ''18446744073709551616''" "[0x2C]" "[SPC]" True]
  by (simp add: is_digit_def all_space_def json_space_def digits_value_def digit_val_def)

text \<open>
  C29. Skipping a value of any shape consumes exactly its text, white space before it included, when
  it nests at most 32 containers, and fails when it nests more.
\<close>

theorem json_skip_value_exact:
  assumes "wf_json v" "all_space w" "\<And>a. v = JAtom a \<Longrightarrow> rest = [] \<or> json_delimiter (hd rest)"
  shows "if json_depth v \<le> json_max_depth
     then inkwell_json_skip_value \<lparr>js_text = Some (w @ json_print v @ rest), js_at_first = f\<rparr> = (True, \<lparr>js_text = Some rest, js_at_first = f\<rparr>)
     else \<not> fst (inkwell_json_skip_value \<lparr>js_text = Some (w @ json_print v @ rest), js_at_first = f\<rparr>)"
  using json_skip_print [OF assms] by (simp add: json_max_depth_def)

theorem json_skip_value_exact_witness:
  "inkwell_json_skip_value \<lparr>js_text = Some (json_print (JArray [] [([], JAtom (ascii ''1''), [SPC]), ([], JString [[0x5D]], [])]) @ [0x7D]), js_at_first = True\<rparr>
     = (True, \<lparr>js_text = Some [0x7D], js_at_first = True\<rparr>)"
proof -
  have "json_item [0x5D] 0x5D" using json_item.raw [of "0x5D"] by (simp add: scalar_def utf8_encode_def)
  then have "wf_json (JArray [] [([], JAtom (ascii ''1''), [SPC]), ([], JString [[0x5D]], [])])"
    by (auto simp: all_space_def json_space_def atom_byte_def json_delimiter_def)
  then show ?thesis using json_skip_value_exact [of "JArray [] [([], JAtom (ascii ''1''), [SPC]), ([], JString [[0x5D]], [])]" "[]" "[0x7D]" True]
    by (simp add: all_space_def json_max_depth_def)
qed

text \<open>
  C31. A search in an object stops on the value of the first member whose key is the one sought, and
  after the closing brace when there is none. Keys are compared by the characters they denote; they
  have to fit the 64-byte name buffer.
\<close>

theorem json_object_find_first:
  assumes "list_all (good_member name) ms" "all_space w" "all_space ws"
  shows "inkwell_json_object_find \<lparr>js_text = Some (w @ json_print (JObject ws ms) @ rest), js_at_first = f\<rparr> (Some key)
     = (case find_member name key ms rest of (ok, t) \<Rightarrow> (ok, \<lparr>js_text = Some t, js_at_first = False\<rparr>))"
proof -
  let ?t = "ws @ commas (object_pieces ms) @ asc (CHR ''}'') # rest"
  have "inkwell_json_enter_object \<lparr>js_text = Some (w @ json_print (JObject ws ms) @ rest), js_at_first = f\<rparr>
      = (True, \<lparr>js_text = Some ?t, js_at_first = True\<rparr>)"
    using json_take_over [OF assms(2), of "asc (CHR ''{'')" "asc (CHR ''{'')" ?t]
    by (simp add: inkwell_json_enter_object_def json_enter_def json_print_brackets)
  then have enter: "inkwell_json_object_find \<lparr>js_text = Some (w @ json_print (JObject ws ms) @ rest), js_at_first = f\<rparr> (Some key)
      = json_find_loop \<lparr>js_text = Some ?t, js_at_first = True\<rparr> key" by (simp add: inkwell_json_object_find_def)
  show ?thesis
  proof (cases ms)
    case Nil
    then show ?thesis unfolding enter using next_key_close [OF assms(3), of rest True 64]
      by (subst json_find_loop.simps) (simp add: object_pieces_def)
  next
    case (Cons m ms')
    obtain w1 k w2 w3 v w4 where m: "m = (w1, k, w2, w3, v, w4)" by (metis prod_cases6)
    have g: "good_member name (w1, k, w2, w3, v, w4)" using assms(1) Cons m by simp
    then have s: "all_space (ws @ w1)" "all_space w2" "list_all2 json_item k (name k)" "all_space w4"
      using assms(3) by (auto simp: good_member_def all_space_def)
    have t: "?t = (ws @ w1) @ quoted k @ w2 @ asc (CHR '':'') # (w3 @ json_print v @ w4 @ members_tail ms' rest)"
      using members_Cons [of m ms' rest] by (simp add: Cons m)
    show ?thesis unfolding enter t
      using find_loop_turn [OF g, of "\<lparr>js_text = Some ((ws @ w1) @ quoted k @ w2 @ asc (CHR '':'') # (w3 @ json_print v @ w4 @ members_tail ms' rest)), js_at_first = True\<rparr>" ms' rest key]
        next_key_quoted [OF s(1-3), of "w3 @ json_print v @ w4 @ members_tail ms' rest" 64]
        find_loop_members [of name ms' w4 rest key] assms(1) s(4)
      by (simp add: Cons m)
  qed
qed

theorem json_object_find_first_witness:
  "inkwell_json_object_find \<lparr>js_text = Some (json_print (JObject []
        [([], [[0x61]], [], [], JAtom (ascii ''1''), []), ([SPC], [[0x62]], [], [], JAtom (ascii ''2''), [])])),
      js_at_first = True\<rparr> (Some (ascii ''b''))
     = (True, \<lparr>js_text = Some (ascii ''2}''), js_at_first = False\<rparr>)"
proof -
  have "json_item [0x61] 0x61" "json_item [0x62] 0x62"
    using json_item.raw [of "0x61"] json_item.raw [of "0x62"] by (simp_all add: scalar_def utf8_encode_def)
  then show ?thesis
    using json_object_find_first [of "map (\<lambda>s. if s = [0x61] then 0x61 else 0x62)"
        "[([], [[0x61]], [], [], JAtom (ascii ''1''), []), ([SPC], [[0x62]], [], [], JAtom (ascii ''2''), [])]"
        "[]" "[]" "[]" True "ascii ''b''"]
    by (simp add: good_member_def all_space_def json_space_def utf8_encode_def atom_byte_def json_delimiter_def)
qed

section \<open>Two edges\<close>

text \<open>
  A key that does not fit the name buffer of the search is compared by the part that fits, so a search
  for 63 letters stops on a member whose key is 64 of them.
\<close>

lemma json_object_find_long_key:
  "inkwell_json_object_find \<lparr>js_text = Some (asc (CHR ''{'') # quoted (replicate 64 [0x61]) @ ascii '':1}''), js_at_first = f\<rparr>
       (Some (replicate 63 0x61))
     = (True, \<lparr>js_text = Some (ascii ''1}''), js_at_first = False\<rparr>)"
proof -
  let ?t = "[] @ quoted (replicate 64 [0x61]) @ [] @ asc (CHR '':'') # ascii ''1}''"
  have "json_item [0x61] 0x61" using json_item.raw [of "0x61"] by (simp add: scalar_def utf8_encode_def)
  then have "list_all2 json_item (replicate 64 [0x61]) (replicate 64 0x61)" by (simp add: list_all2_conv_all_nth)
  then have "inkwell_json_next_key \<lparr>js_text = Some ?t, js_at_first = True\<rparr> 64
      = (True, \<lparr>js_text = Some (ascii ''1}''), js_at_first = False\<rparr>, utf8_text (fitting (64 - 1) (replicate 64 0x61)))"
    by (intro next_key_quoted) (simp_all add: all_space_def)
  also have "utf8_text (fitting (64 - 1) (replicate 64 0x61)) = replicate 63 0x61"
    by (simp add: numeral_eq_Suc utf8_encode_def)
  finally have key: "inkwell_json_next_key \<lparr>js_text = Some ?t, js_at_first = True\<rparr> 64
      = (True, \<lparr>js_text = Some (ascii ''1}''), js_at_first = False\<rparr>, replicate 63 0x61)" .
  have "json_find_loop \<lparr>js_text = Some ?t, js_at_first = True\<rparr> (replicate 63 0x61)
      = (True, \<lparr>js_text = Some (ascii ''1}''), js_at_first = False\<rparr>)"
    using key by (subst json_find_loop.simps) simp
  then show ?thesis
    using json_take_over [of "[]" "asc (CHR ''{'')" "asc (CHR ''{'')" ?t]
    by (simp add: inkwell_json_object_find_def inkwell_json_enter_object_def json_enter_def all_space_def)
qed

text \<open>A refused key leaves the cursor where the reading stopped, past the key itself.\<close>

lemma json_next_key_moves:
  "inkwell_json_next_key \<lparr>js_text = Some (quoted [[0x61]] @ ascii ''1}''), js_at_first = True\<rparr> 64
     = (False, \<lparr>js_text = Some (ascii ''1}''), js_at_first = False\<rparr>, ascii ''a'')"
proof -
  have "json_item [0x61] 0x61" using json_item.raw [of "0x61"] by (simp add: scalar_def utf8_encode_def)
  then have "list_all2 json_item [[0x61]] [0x61]" by simp
  from json_read_string_body_items [OF this, of 64 "ascii ''1}''"] show ?thesis
    by (simp add: inkwell_json_next_key_def quoted_def json_take_def json_peek_def json_skip_space_def json_space_def utf8_encode_def)
qed

end
