(* ===== verification/Http_Url.thy ===== *)
theory Http_Url
  imports Inkwell_Decimal "HOL-Library.Sublist"
begin

text \<open>
  The pieces, URLs and requests of the HTTP codec (\<open>src/codec/http.c\<close>): the character classes it
  shares with the response parser, \<open>inkwell_http_url_parse\<close>, \<open>inkwell_http_url_resolve\<close> and
  \<open>inkwell_http_request_format\<close>. A C string is the list of its bytes before the NUL. A refusal is
  \<open>None\<close>, and the URL filled in by a successful call is the result. \<open>safe_url\<close> is what every parsed URL
  satisfies and what makes it safe to write into a request.
\<close>

section \<open>Small pieces\<close>

definition http_digit :: "u8 \<Rightarrow> bool" where
  "http_digit c = (asc (CHR ''0'') \<le> c \<and> c \<le> asc (CHR ''9''))"

definition http_lower :: "u8 \<Rightarrow> u8" where
  "http_lower c = (if asc (CHR ''A'') \<le> c \<and> c \<le> asc (CHR ''Z'') then c - asc (CHR ''A'') + asc (CHR ''a'') else c)"

definition http_equal_nocase :: "bytes \<Rightarrow> bytes \<Rightarrow> bool" where
  "http_equal_nocase a b = (length a = length b \<and> map http_lower a = map http_lower b)"

fun http_prefix_nocase :: "bytes \<Rightarrow> bytes \<Rightarrow> bool" where
  "http_prefix_nocase t [] = True"
| "http_prefix_nocase [] (p # ps) = False"
| "http_prefix_nocase (c # t) (p # ps) = (http_lower c = http_lower p \<and> http_prefix_nocase t ps)"

definition http_alpha :: "u8 \<Rightarrow> bool" where
  "http_alpha c = ((asc (CHR ''a'') \<le> c \<and> c \<le> asc (CHR ''z'')) \<or> (asc (CHR ''A'') \<le> c \<and> c \<le> asc (CHR ''Z'')))"

definition http_token_char :: "u8 \<Rightarrow> bool" where
  "http_token_char c =
     (http_alpha c \<or> http_digit c \<or> c \<in> set (ascii [CHR 0x21, CHR 0x23, CHR 0x24, CHR 0x25, CHR 0x26, CHR 0x27,
        CHR 0x2A, CHR 0x2B, CHR 0x2D, CHR 0x2E, CHR 0x5E, CHR 0x5F, CHR 0x60, CHR 0x7C, CHR 0x7E]))"

definition http_hex :: "u8 \<Rightarrow> nat option" where
  "http_hex c =
     (if http_digit c then Some (unat (c - asc (CHR ''0'')))
      else let c = http_lower c in
        if asc (CHR ''a'') \<le> c \<and> c \<le> asc (CHR ''f'') then Some (unat (c - asc (CHR ''a'')) + 10) else None)"

definition http_scheme_char :: "u8 \<Rightarrow> bool \<Rightarrow> bool" where
  "http_scheme_char c first =
     (http_alpha c \<or> \<not> first \<and> (http_digit c \<or> c = asc (CHR ''+'') \<or> c = asc (CHR ''-'') \<or> c = asc (CHR ''.'')))"

definition http_url_byte_ok :: "u8 \<Rightarrow> bool" where
  "http_url_byte_ok c = (0x20 < c \<and> c \<noteq> 0x7F)"

section \<open>URLs\<close>

definition http_head_max :: nat where "http_head_max = 16384"
definition http_url_max :: nat where "http_url_max = 4096"
definition http_host_max :: nat where "http_host_max = 256"

record inkwell_http_url =
  url_tls :: bool
  url_host :: bytes
  url_port :: u16
  url_target :: bytes

definition http_url_bytes_ok :: "bytes \<Rightarrow> bool" where
  "http_url_bytes_ok t = list_all http_url_byte_ok t"

definition http_url_set_target :: "inkwell_http_url \<Rightarrow> bytes \<Rightarrow> inkwell_http_url option" where
  "http_url_set_target out rest =
     (if \<not> http_url_bytes_ok rest then None
      else let t = takeWhile (\<lambda>c. c \<noteq> asc (CHR ''#'')) rest; slash = (t \<noteq> [] \<and> rest ! 0 = asc (CHR ''/'')) in
        if http_url_max < length t + (if slash then 0 else 1) + 1 then None
        else Some (out\<lparr>url_target := (if slash then [] else [asc (CHR ''/'')]) @ t\<rparr>))"

text \<open>The host of an authority and the text of its port, when it has a colon for one.\<close>

definition http_split_authority :: "bytes \<Rightarrow> (bytes \<times> bytes option) option" where
  "http_split_authority authority =
     (if authority ! 0 = asc (CHR ''['') then
        (if asc (CHR '']'') \<notin> set authority then None
         else
           let host = takeWhile (\<lambda>c. c \<noteq> asc (CHR '']'')) (drop 1 authority);
               after = drop (length host + 2) authority in
           if after \<noteq> [] \<and> after ! 0 \<noteq> asc (CHR '':'') then None
           else if \<not> list_all (\<lambda>c. http_hex c \<noteq> None \<or> c = asc (CHR '':'') \<or> c = asc (CHR ''.'')) host then None
           else Some (host, if after = [] then None else Some (drop 1 after)))
      else
        let host = takeWhile (\<lambda>c. c \<noteq> asc (CHR '':'')) authority in
        Some (host, if asc (CHR '':'') \<in> set authority then Some (drop (length host + 1) authority) else None))"

fun http_port_loop :: "nat \<Rightarrow> bytes \<Rightarrow> nat option" where
  "http_port_loop port [] = Some port"
| "http_port_loop port (c # t) =
     (if \<not> http_digit c then None else http_port_loop (port * 10 + unat (c - asc (CHR ''0''))) t)"

text \<open>The port a port text names: the default when it is empty.\<close>

definition http_parse_port :: "u16 \<Rightarrow> bytes \<Rightarrow> u16 option" where
  "http_parse_port default_port t =
     (if t = [] then Some default_port
      else if 5 < length t then None
      else case http_port_loop 0 t of
        None \<Rightarrow> None
      | Some port \<Rightarrow> if port = 0 \<or> 65535 < port then None else Some (of_nat port))"

text \<open>The scheme: whether it is secure, its default port and what follows it.\<close>

definition http_url_scheme :: "bytes \<Rightarrow> (bool \<times> u16 \<times> bytes) option" where
  "http_url_scheme u =
     (if http_prefix_nocase u (ascii ''https://'') then Some (True, 443, drop 8 u)
      else if http_prefix_nocase u (ascii ''http://'') then Some (False, 80, drop 7 u)
      else None)"

definition inkwell_http_url_parse :: "bytes option \<Rightarrow> inkwell_http_url option" where
  "inkwell_http_url_parse url = do {
     u \<leftarrow> url;
     (tls, port, rest) \<leftarrow> http_url_scheme u;
     let authority = takeWhile (\<lambda>c. c \<noteq> asc (CHR ''/'') \<and> c \<noteq> asc (CHR ''?'') \<and> c \<noteq> asc (CHR ''#'')) rest;
     (if authority = [] \<or> \<not> http_url_bytes_ok authority \<or> asc (CHR ''@'') \<in> set authority then None else Some ());
     (host, port_text) \<leftarrow> http_split_authority authority;
     (if host = [] \<or> http_host_max \<le> length host then None else Some ());
     port \<leftarrow> (case port_text of None \<Rightarrow> Some port | Some t \<Rightarrow> http_parse_port port t);
     http_url_set_target \<lparr>url_tls = tls, url_host = host, url_port = port, url_target = []\<rparr> (drop (length authority) rest)
   }"

text \<open>The length of the scheme a reference starts with.\<close>

definition http_scheme_len :: "bytes \<Rightarrow> nat" where
  "http_scheme_len t =
     (case t of [] \<Rightarrow> 0
      | c # t' \<Rightarrow> if http_scheme_char c True then 1 + run_len (\<lambda>c. http_scheme_char c False) t' else 0)"

definition http_keep :: "bytes \<Rightarrow> bytes \<Rightarrow> bytes" where
  "http_keep target location =
     (let path = takeWhile (\<lambda>c. c \<noteq> asc (CHR ''?'')) target in
      if location ! 0 \<noteq> asc (CHR ''?'') then rev (dropWhile (\<lambda>c. c \<noteq> asc (CHR ''/'')) (rev path)) else path)"

definition inkwell_http_url_resolve :: "inkwell_http_url option \<Rightarrow> bytes option \<Rightarrow> inkwell_http_url option" where
  "inkwell_http_url_resolve base location = do {
     base \<leftarrow> base;
     location \<leftarrow> location;
     let scheme = http_scheme_len location;
     if location = [] then None
     else if 0 < scheme \<and> scheme < length location \<and> location ! scheme = asc (CHR '':'')
     then inkwell_http_url_parse (Some location)
     else if take 2 location = ascii ''//''
     then
       (let absolute = (if url_tls base then ascii ''https'' else ascii ''http'') @ asc (CHR '':'') # location in
        if http_url_max + 8 \<le> length absolute then None else inkwell_http_url_parse (Some absolute))
     else if location ! 0 = asc (CHR ''#'') then Some base
     else if location ! 0 = asc (CHR ''/'') then http_url_set_target base location
     else
       (let merged = http_keep (url_target base) location @ location in
        if http_url_max \<le> length merged then None else http_url_set_target base merged)
   }"

section \<open>The request\<close>

datatype inkwell_http_method = HTTP_GET | HTTP_HEAD | HTTP_POST

fun http_method_name :: "inkwell_http_method \<Rightarrow> bytes" where
  "http_method_name HTTP_HEAD = ascii ''HEAD''"
| "http_method_name HTTP_POST = ascii ''POST''"
| "http_method_name HTTP_GET = ascii ''GET''"

abbreviation CRLF :: bytes where "CRLF \<equiv> [0x0D, 0x0A]"

text \<open>
  The loop over the header lines. \<open>at\<close> bytes of the buffer are taken when it starts; the result is what the
  loop adds.
\<close>

fun http_header_lines :: "nat \<Rightarrow> nat \<Rightarrow> bytes option list \<Rightarrow> bytes option" where
  "http_header_lines cap at [] = Some []"
| "http_header_lines cap at (None # hs) = Some []"
| "http_header_lines cap at (Some h # hs) =
     (if CR \<in> set h \<or> LF \<in> set h then None
      else if cap - at \<le> length h + 2 then None
      else map_option (\<lambda>later. h @ CRLF @ later) (http_header_lines cap (at + length h + 2) hs))"

definition http_request_start :: "inkwell_http_method \<Rightarrow> inkwell_http_url \<Rightarrow> bytes" where
  "http_request_start method url =
     (let v6 = asc (CHR '':'') \<in> set (url_host url);
          default_port = url_port url = (if url_tls url then 443 else 80);
          port = (if default_port then [] else asc (CHR '':'') # decimal (unat (url_port url))) in
      http_method_name method @ [SPC] @ url_target url @ ascii '' HTTP/1.1'' @ CRLF
      @ ascii ''Host: '' @ (if v6 then [asc (CHR ''['')] else []) @ url_host url @ (if v6 then [asc (CHR '']'')] else []) @ port @ CRLF
      @ ascii ''Connection: close'' @ CRLF)"

definition inkwell_http_request_format ::
  "nat \<Rightarrow> inkwell_http_method \<Rightarrow> inkwell_http_url option \<Rightarrow> bytes option list option \<Rightarrow> bytes option" where
  "inkwell_http_request_format cap method url headers = do {
     url \<leftarrow> url;
     (if cap = 0 \<or> url_host url = [] \<or> url_target url = [] \<or> url_target url ! 0 \<noteq> asc (CHR ''/'') then None else Some ());
     let start = http_request_start method url;
     (if cap \<le> length start then None else Some ());
     lines \<leftarrow> http_header_lines cap (length start) (case headers of None \<Rightarrow> [] | Some hs \<Rightarrow> hs);
     if cap - (length start + length lines) < 3 then None else Some (start @ lines @ CRLF)
   }"

section \<open>Safe URLs\<close>

definition host_ok :: "bytes \<Rightarrow> bool" where
  "host_ok host =
     (host \<noteq> [] \<and> length host < http_host_max \<and> http_url_bytes_ok host
      \<and> list_all (\<lambda>c. c \<notin> {asc (CHR ''/''), asc (CHR ''?''), asc (CHR ''#''), asc (CHR ''@'')}) host
      \<and> (if asc (CHR '':'') \<in> set host
         then list_all (\<lambda>c. http_hex c \<noteq> None \<or> c = asc (CHR '':'') \<or> c = asc (CHR ''.'')) host
         else hd host \<noteq> asc (CHR ''['')))"

definition target_ok :: "bytes \<Rightarrow> bool" where
  "target_ok t = (t \<noteq> [] \<and> hd t = asc (CHR ''/'') \<and> length t < http_url_max \<and> http_url_bytes_ok t \<and> asc (CHR ''#'') \<notin> set t)"

definition safe_url :: "inkwell_http_url \<Rightarrow> bool" where
  "safe_url u = (host_ok (url_host u) \<and> url_port u \<noteq> 0 \<and> target_ok (url_target u))"

lemma unat_http_lower: "unat (http_lower c) = (if 65 \<le> unat c \<and> unat c \<le> 90 then unat c + 32 else unat c)"
proof (cases "65 \<le> unat c \<and> unat c \<le> 90")
  case True
  have "http_lower c = c + 0x20" using True by (simp add: http_lower_def word_le_nat_alt)
  then show ?thesis using True by (simp add: unat_word_ariths)
qed (auto simp: http_lower_def word_le_nat_alt)

lemma http_url_byte_ok_lower: "http_url_byte_ok (http_lower c) = http_url_byte_ok c"
  by (auto simp: http_url_byte_ok_def word_less_nat_alt word_unat_eq_iff unat_http_lower)

lemma http_prefix_nocase_map: "http_prefix_nocase u p \<longleftrightarrow> map http_lower (take (length p) u) = map http_lower p"
  by (induction u p rule: http_prefix_nocase.induct) auto

lemma http_prefix_ok:
  assumes "http_prefix_nocase u p" "list_all http_url_byte_ok p"
  shows "list_all http_url_byte_ok (take (length p) u)"
proof -
  have "list_all http_url_byte_ok (map http_lower (take (length p) u))"
    using assms by (simp add: http_prefix_nocase_map list.pred_map comp_def http_url_byte_ok_lower)
  then show ?thesis by (simp add: list.pred_map comp_def http_url_byte_ok_lower)
qed

lemma set_target_safe:
  assumes "http_url_set_target u rest = Some out"
  shows "target_ok (url_target out)" "http_url_bytes_ok rest"
    "url_tls out = url_tls u" "url_host out = url_host u" "url_port out = url_port u"
proof -
  let ?t = "takeWhile (\<lambda>c. c \<noteq> asc (CHR ''#'')) rest"
  have t: "list_all http_url_byte_ok rest \<Longrightarrow> list_all http_url_byte_ok ?t" "asc (CHR ''#'') \<notin> set ?t"
    by (auto simp: list_all_iff dest: set_takeWhileD)
  have "?t \<noteq> [] \<Longrightarrow> hd ?t = rest ! 0" by (cases rest) (auto split: if_splits)
  then show "target_ok (url_target out)" "http_url_bytes_ok rest"
    "url_tls out = url_tls u" "url_host out = url_host u" "url_port out = url_port u"
    using assms t
    by (auto simp: http_url_set_target_def Let_def target_ok_def http_url_bytes_ok_def http_url_byte_ok_def http_url_max_def split: if_splits)
qed

lemma http_hex_ok:
  "http_hex c \<noteq> None \<Longrightarrow> c \<notin> {asc (CHR ''/''), asc (CHR ''?''), asc (CHR ''#''), asc (CHR ''@''), asc (CHR ''[''), asc (CHR '']'')}"
  by (auto simp: http_hex_def http_digit_def http_lower_def Let_def)

lemma split_authority_host:
  assumes "http_split_authority a = Some (host, port)" "host \<noteq> []" "length host < http_host_max"
    "http_url_bytes_ok a" "list_all (\<lambda>c. c \<notin> {asc (CHR ''/''), asc (CHR ''?''), asc (CHR ''#''), asc (CHR ''@'')}) a"
  shows "host_ok host"
proof -
  have "set host \<subseteq> set a"
    using assms(1) by (auto simp: http_split_authority_def Let_def split: if_splits dest!: set_takeWhileD dest: in_set_dropD)
  then have sub: "http_url_bytes_ok host" "list_all (\<lambda>c. c \<notin> {asc (CHR ''/''), asc (CHR ''?''), asc (CHR ''#''), asc (CHR ''@'')}) host"
    using assms(4,5) by (auto simp: http_url_bytes_ok_def list_all_iff)
  show ?thesis
  proof (cases "a ! 0 = asc (CHR ''['')")
    case True
    then have h: "list_all (\<lambda>c. http_hex c \<noteq> None \<or> c = asc (CHR '':'') \<or> c = asc (CHR ''.'')) host"
      using assms(1) by (auto simp: http_split_authority_def Let_def split: if_splits)
    then have "hd host \<noteq> asc (CHR ''['')"
      using http_hex_ok [of "hd host"] assms(2) by (cases host) auto
    then show ?thesis using h sub assms(2,3) by (simp add: host_ok_def)
  next
    case False
    then have h: "host = takeWhile (\<lambda>c. c \<noteq> asc (CHR '':'')) a"
      using assms(1) by (auto simp: http_split_authority_def Let_def split: if_splits)
    then have "asc (CHR '':'') \<notin> set host" by (auto dest: set_takeWhileD)
    moreover have "hd host \<noteq> asc (CHR ''['')" using h False assms(2) by (cases a) (auto split: if_splits)
    ultimately show ?thesis using sub assms(2,3) by (simp add: host_ok_def)
  qed
qed

lemma parse_port_nonzero: "http_parse_port d t = Some p \<Longrightarrow> d \<noteq> 0 \<Longrightarrow> p \<noteq> 0"
  by (auto simp: http_parse_port_def word_unat_eq_iff unat_of_nat not_less split: if_splits option.splits)

lemma http_url_scheme_ok:
  assumes "http_url_scheme u = Some (tls, d, rest)"
  shows "d \<noteq> 0" "http_url_bytes_ok rest \<Longrightarrow> http_url_bytes_ok u"
proof -
  show "d \<noteq> 0" using assms by (auto simp: http_url_scheme_def split: if_splits)
  obtain p n where p: "http_prefix_nocase u p" "list_all http_url_byte_ok p" "rest = drop n u" "n = length p"
  proof (cases "http_prefix_nocase u (ascii ''https://'')")
    case True
    then show thesis using assms
      by (intro that [of "ascii ''https://''" 8]) (auto simp: http_url_scheme_def http_url_byte_ok_def)
  next
    case False
    then show thesis using assms
      by (intro that [of "ascii ''http://''" 7]) (auto simp: http_url_scheme_def http_url_byte_ok_def split: if_splits)
  qed
  show "http_url_bytes_ok rest \<Longrightarrow> http_url_bytes_ok u"
    using http_prefix_ok [OF p(1,2)] unfolding p(3,4) http_url_bytes_ok_def by (metis append_take_drop_id list_all_append)
qed

definition authority_byte :: "u8 \<Rightarrow> bool" where
  "authority_byte c = (c \<noteq> asc (CHR ''/'') \<and> c \<noteq> asc (CHR ''?'') \<and> c \<noteq> asc (CHR ''#''))"

text \<open>The cases of a successful parse.\<close>

lemma url_parseE:
  assumes "inkwell_http_url_parse (Some u) = Some out"
  obtains tls d rest host pt port where
    "http_url_scheme u = Some (tls, d, rest)"
    "http_url_bytes_ok (takeWhile authority_byte rest)" "asc (CHR ''@'') \<notin> set (takeWhile authority_byte rest)"
    "http_split_authority (takeWhile authority_byte rest) = Some (host, pt)" "host \<noteq> []"
    "length host < http_host_max" "(case pt of None \<Rightarrow> Some d | Some t \<Rightarrow> http_parse_port d t) = Some port"
    "http_url_set_target \<lparr>url_tls = tls, url_host = host, url_port = port, url_target = []\<rparr> (dropWhile authority_byte rest) = Some out"
proof -
  have "(\<lambda>c. c \<noteq> asc (CHR ''/'') \<and> c \<noteq> asc (CHR ''?'') \<and> c \<noteq> asc (CHR ''#'')) = authority_byte"
    by (rule ext) (simp add: authority_byte_def)
  note parse = assms [unfolded inkwell_http_url_parse_def this Let_def dropWhile_eq_drop [symmetric]]
  then obtain tls d rest where s: "http_url_scheme u = Some (tls, d, rest)" by (cases "http_url_scheme u") auto
  from parse show thesis
    by (auto simp: s bind_eq_Some_conv not_le split: if_splits intro!: that [OF s])
qed

lemma url_parse_safe:
  assumes "inkwell_http_url_parse (Some u) = Some out"
  shows "safe_url out" "http_url_bytes_ok u"
proof -
  obtain tls d rest host pt port where
    s: "http_url_scheme u = Some (tls, d, rest)"
    and ok: "http_url_bytes_ok (takeWhile authority_byte rest)" "asc (CHR ''@'') \<notin> set (takeWhile authority_byte rest)"
    and h: "http_split_authority (takeWhile authority_byte rest) = Some (host, pt)" "host \<noteq> []" "length host < http_host_max"
    and p: "(case pt of None \<Rightarrow> Some d | Some t \<Rightarrow> http_parse_port d t) = Some port"
    and t: "http_url_set_target \<lparr>url_tls = tls, url_host = host, url_port = port, url_target = []\<rparr> (dropWhile authority_byte rest) = Some out"
    using url_parseE [OF assms] .
  have "port \<noteq> 0" using p parse_port_nonzero http_url_scheme_ok(1) [OF s] by (auto split: option.splits)
  moreover have "list_all (\<lambda>c. c \<notin> {asc (CHR ''/''), asc (CHR ''?''), asc (CHR ''#''), asc (CHR ''@'')}) (takeWhile authority_byte rest)"
    using ok(2) by (auto simp: list_all_iff authority_byte_def dest: set_takeWhileD)
  then have "host_ok host" by (rule split_authority_host [OF h ok(1)])
  ultimately show "safe_url out" using set_target_safe [OF t] by (simp add: safe_url_def)
  have "http_url_bytes_ok (takeWhile authority_byte rest @ dropWhile authority_byte rest)"
    using ok(1) set_target_safe(2) [OF t] by (simp only: http_url_bytes_ok_def list_all_append)
  then show "http_url_bytes_ok u" using http_url_scheme_ok(2) [OF s] by simp
qed


section \<open>Printing and parsing\<close>

definition http_url_print :: "inkwell_http_url \<Rightarrow> bytes" where
  "http_url_print u =
     (if url_tls u then ascii ''https://'' else ascii ''http://'')
     @ (if asc (CHR '':'') \<in> set (url_host u) then asc (CHR ''['') # url_host u @ [asc (CHR '']'')] else url_host u)
     @ asc (CHR '':'') # decimal (unat (url_port u)) @ url_target u"

lemma http_digit_eq: "http_digit c = is_digit c"
  by (simp add: http_digit_def is_digit_def)

lemma http_port_loop_digits:
  "list_all is_digit ds \<Longrightarrow> http_port_loop v ds = Some (v * 10 ^ length ds + digits_value ds)"
proof (induction ds arbitrary: v)
  case (Cons c ds)
  have "unat (c - asc (CHR ''0'')) = digit_val c"
    using Cons.prems by (simp add: digit_val_def is_digit_unat unat_sub word_le_nat_alt)
  then show ?case using Cons digits_value_append [of "[c]" ds] by (simp add: http_digit_eq algebra_simps)
qed simp

lemma http_parse_port_decimal:
  assumes "p \<noteq> 0" shows "http_parse_port d (decimal (unat p)) = Some p"
proof -
  have "unat p < 10 ^ 5" by (rule less_trans [OF unat_u16_lt]) simp
  then have "length (decimal (unat p)) \<le> 5" by (intro decimal_length) simp_all
  moreover have "unat p \<noteq> 0" using assms by (auto simp: unat_eq_zero)
  moreover have "\<not> 65535 < unat p" using unat_u16_lt [of p] by linarith
  ultimately show ?thesis
    using http_port_loop_digits [OF decimal_digits, of 0 "unat p"] by (simp add: http_parse_port_def)
qed

lemma set_target_ok: "target_ok t \<Longrightarrow> http_url_set_target u t = Some (u\<lparr>url_target := t\<rparr>)"
proof -
  assume t: "target_ok t"
  then have eq: "takeWhile (\<lambda>c. c \<noteq> 0x23) t = t" by (auto simp: target_ok_def takeWhile_eq_all_conv)
  show ?thesis using t by (auto simp: target_ok_def http_url_set_target_def hd_conv_nth Let_def eq)
qed

lemma split_authority_print:
  assumes "host_ok host"
  shows "http_split_authority ((if asc (CHR '':'') \<in> set host then asc (CHR ''['') # host @ [asc (CHR '']'')] else host) @ asc (CHR '':'') # p)
     = Some (host, Some p)"
proof (cases "asc (CHR '':'') \<in> set host")
  case True
  then have h: "list_all (\<lambda>c. http_hex c \<noteq> None \<or> c = asc (CHR '':'') \<or> c = asc (CHR ''.'')) host" using assms by (simp add: host_ok_def)
  then have "asc (CHR '']'') \<notin> set host" using http_hex_ok by (fastforce simp: list_all_iff)
  then have "takeWhile (\<lambda>c. c \<noteq> asc (CHR '']'')) (host @ asc (CHR '']'') # asc (CHR '':'') # p) = host"
    by (simp add: takeWhile_append)
  then show ?thesis using True h by (simp add: http_split_authority_def Let_def)
next
  case False
  then have eq: "takeWhile (\<lambda>c. c \<noteq> asc (CHR '':'')) (host @ asc (CHR '':'') # p) = host" by (simp add: takeWhile_append)
  obtain c host' where "host = c # host'" "c \<noteq> asc (CHR ''['')" using False assms by (cases host) (auto simp: host_ok_def)
  then have first: "(host @ asc (CHR '':'') # p) ! 0 \<noteq> asc (CHR ''['')" by simp
  show ?thesis using False first unfolding http_split_authority_def Let_def if_not_P [OF False] if_not_P [OF first] eq by simp
qed

lemma digit_authority: "is_digit c \<Longrightarrow> authority_byte c \<and> http_url_byte_ok c \<and> c \<noteq> asc (CHR ''@'')"
  by (auto simp: is_digit_unat authority_byte_def http_url_byte_ok_def word_less_nat_alt)

lemma http_url_scheme_print:
  "http_url_scheme ((if tls then ascii ''https://'' else ascii ''http://'') @ t) = Some (tls, if tls then 443 else 80, t)"
  by (simp add: http_url_scheme_def http_lower_def)

lemma url_parse_print: "safe_url u \<Longrightarrow> inkwell_http_url_parse (Some (http_url_print u)) = Some u"
proof -
  assume u: "safe_url u"
  define a where "a = (if asc (CHR '':'') \<in> set (url_host u) then asc (CHR ''['') # url_host u @ [asc (CHR '']'')] else url_host u)
     @ asc (CHR '':'') # decimal (unat (url_port u))"
  have h: "host_ok (url_host u)" and t: "target_ok (url_target u)" and p: "url_port u \<noteq> 0" using u by (simp_all add: safe_url_def)
  have "list_all (\<lambda>c. authority_byte c \<and> http_url_byte_ok c \<and> c \<noteq> asc (CHR ''@'')) (url_host u)"
    using h by (auto simp: host_ok_def list_all_iff http_url_bytes_ok_def authority_byte_def)
  then have a: "list_all (\<lambda>c. authority_byte c \<and> http_url_byte_ok c \<and> c \<noteq> asc (CHR ''@'')) a"
    using decimal_digits [of "unat (url_port u)"] digit_authority
    by (auto simp: a_def list_all_iff authority_byte_def http_url_byte_ok_def)
  then have ok: "http_url_bytes_ok a" "asc (CHR ''@'') \<notin> set a" "\<And>c. c \<in> set a \<Longrightarrow> authority_byte c"
    unfolding http_url_bytes_ok_def list_all_iff by blast+
  have "a \<noteq> []" by (simp add: a_def)
  obtain t' where t': "url_target u = asc (CHR ''/'') # t'" using t by (cases "url_target u") (auto simp: target_ok_def)
  have tw: "takeWhile (\<lambda>c. c \<noteq> asc (CHR ''/'') \<and> c \<noteq> asc (CHR ''?'') \<and> c \<noteq> asc (CHR ''#'')) (a @ url_target u) = a"
    using ok(3) unfolding t' authority_byte_def by (subst takeWhile_append2) simp_all
  have print: "http_url_print u = (if url_tls u then ascii ''https://'' else ascii ''http://'') @ (a @ url_target u)"
    by (simp add: http_url_print_def a_def)
  have drop: "drop (length a) (a @ url_target u) = url_target u" by simp
  have split: "http_split_authority a = Some (url_host u, Some (decimal (unat (url_port u))))"
    unfolding a_def by (rule split_authority_print [OF h])
  have host: "url_host u \<noteq> []" "\<not> http_host_max \<le> length (url_host u)" using h by (simp_all add: host_ok_def)
  show ?thesis unfolding inkwell_http_url_parse_def print
    using ok host \<open>a \<noteq> []\<close>
    by (simp only: bind.bind_lunit http_url_scheme_print prod.case Let_def tw drop split simp_thms if_False
        http_parse_port_decimal [OF p] set_target_ok [OF t] option.case) simp
qed

section \<open>References\<close>

text \<open>A reference that names an authority: it has a scheme, or starts with two slashes.\<close>

definition names_authority :: "bytes \<Rightarrow> bool" where
  "names_authority location =
     (let scheme = http_scheme_len location in
      (0 < scheme \<and> scheme < length location \<and> location ! scheme = asc (CHR '':'')) \<or> take 2 location = ascii ''//'')"


lemma url_resolve_relative:
  assumes "\<not> names_authority location"
  shows "inkwell_http_url_resolve (Some base) (Some location) =
     (if location = [] then None
      else if location ! 0 = asc (CHR ''#'') then Some base
      else if location ! 0 = asc (CHR ''/'') then http_url_set_target base location
      else if http_url_max \<le> length (http_keep (url_target base) location @ location) then None
      else http_url_set_target base (http_keep (url_target base) location @ location))"
  using assms unfolding names_authority_def inkwell_http_url_resolve_def Let_def bind.bind_lunit
  by (simp only: de_Morgan_disj if_False simp_thms split: if_splits)




text \<open>
  C32. A parsed URL is safe to send: its host and target hold no space, control byte or fragment, its
  target starts with a slash, its host names no user and its port is not zero. The text it was parsed
  from had no space or control byte anywhere, and printing the URL and parsing it again gives it back.
\<close>

theorem http_url_parse_correct:
  assumes "inkwell_http_url_parse (Some u) = Some out"
  shows "safe_url out \<and> http_url_bytes_ok u \<and> inkwell_http_url_parse (Some (http_url_print out)) = Some out"
  using url_parse_safe [OF assms] url_parse_print by blast

theorem http_url_parse_correct_witness:
  "safe_url \<lparr>url_tls = True, url_host = ascii ''h'', url_port = 8443, url_target = ascii ''/?q''\<rparr>"
proof -
  have "inkwell_http_url_parse (Some (ascii ''https://h:8443?q#f''))
      = Some \<lparr>url_tls = True, url_host = ascii ''h'', url_port = 8443, url_target = ascii ''/?q''\<rparr>"
    by (simp add: inkwell_http_url_parse_def http_url_scheme_def http_lower_def Let_def http_url_bytes_ok_def http_url_byte_ok_def
        http_split_authority_def http_host_max_def http_parse_port_def http_digit_def http_url_set_target_def http_url_max_def)
  from http_url_parse_correct [OF this] show ?thesis by simp
qed




section \<open>Requests\<close>

text \<open>A text cut at its line feeds, as a server reads it.\<close>

function lf_lines :: "bytes \<Rightarrow> bytes list" where
  "lf_lines t =
     (if LF \<in> set t then takeWhile (\<lambda>c. c \<noteq> LF) t # lf_lines (drop 1 (dropWhile (\<lambda>c. c \<noteq> LF) t)) else [])"
  by auto
termination
proof (relation "measure length", goal_cases)
  case (2 t)
  then have "dropWhile (\<lambda>c. c \<noteq> LF) t \<noteq> []" by (auto simp: dropWhile_eq_Nil_conv)
  then show ?case using length_dropWhile_le [of "\<lambda>c. c \<noteq> LF" t] by (cases "dropWhile (\<lambda>c. c \<noteq> LF) t") auto
qed simp

declare lf_lines.simps [simp del]

lemma lf_lines_line: "LF \<notin> set l \<Longrightarrow> lf_lines (l @ LF # t) = l # lf_lines t"
proof -
  assume "LF \<notin> set l"
  then have "takeWhile (\<lambda>c. c \<noteq> LF) (l @ LF # t) = l" "dropWhile (\<lambda>c. c \<noteq> LF) (l @ LF # t) = LF # t"
    by (simp_all add: takeWhile_append dropWhile_append)
  then show ?thesis by (subst lf_lines.simps) simp
qed

lemma lf_lines_crlf: "LF \<notin> set l \<Longrightarrow> lf_lines (l @ CRLF @ t) = (l @ [CR]) # lf_lines t"
  using lf_lines_line [of "l @ [CR]" t] by simp

text \<open>The header lines of a call: those before the first NULL.\<close>

fun given_headers :: "bytes option list \<Rightarrow> bytes list" where
  "given_headers (Some h # hs) = h # given_headers hs"
| "given_headers _ = []"

lemma header_lines:
  "http_header_lines cap at hs = Some out \<Longrightarrow> at < cap \<Longrightarrow>
     lf_lines (out @ t) = map (\<lambda>l. l @ [CR]) (given_headers hs) @ lf_lines t
     \<and> list_all (\<lambda>h. CR \<notin> set h \<and> LF \<notin> set h) (given_headers hs) \<and> at + length out < cap"
proof (induction cap at hs arbitrary: out rule: http_header_lines.induct)
  case (3 cap at h hs)
  obtain later where later: "http_header_lines cap (at + length h + 2) hs = Some later" "out = h @ CRLF @ later"
    and h: "CR \<notin> set h" "LF \<notin> set h" "length h + 2 < cap - at"
    using 3(2) by (auto split: if_splits)
  have "at + length h + 2 < cap" using h(3) by linarith
  then show ?case using 3(1) [OF _ _ later(1)] h lf_lines_crlf [OF h(2), of "later @ t"] by (simp add: later(2))
qed auto

definition request_line :: "inkwell_http_method \<Rightarrow> inkwell_http_url \<Rightarrow> bytes" where
  "request_line method url = http_method_name method @ [SPC] @ url_target url @ ascii '' HTTP/1.1''"

definition host_line :: "inkwell_http_url \<Rightarrow> bytes" where
  "host_line url = ascii ''Host: '' @
     (if asc (CHR '':'') \<in> set (url_host url) then asc (CHR ''['') # url_host url @ [asc (CHR '']'')] else url_host url) @
     (if url_port url = (if url_tls url then 443 else 80) then [] else asc (CHR '':'') # decimal (unat (url_port url)))"

lemma request_start_lines:
  "http_request_start method url = request_line method url @ CRLF @ host_line url @ CRLF @ ascii ''Connection: close'' @ CRLF"
  by (simp add: http_request_start_def request_line_def host_line_def Let_def)

lemma safe_url_no_lf:
  assumes "safe_url url"
  shows "LF \<notin> set (request_line m url)" "LF \<notin> set (host_line url)"
proof -
  have ok: "\<not> http_url_byte_ok LF" "\<not> is_digit LF" by (simp_all add: http_url_byte_ok_def is_digit_def)
  then have "LF \<notin> set (url_host url)" "LF \<notin> set (url_target url)" "LF \<notin> set (decimal n)" for n
    using assms decimal_digits [of n] unfolding safe_url_def host_ok_def target_ok_def http_url_bytes_ok_def list_all_iff by blast+
  then show "LF \<notin> set (request_line m url)" "LF \<notin> set (host_line url)"
    by (cases m; simp add: request_line_def host_line_def)+
qed

text \<open>
  C34. The request written for a safe URL fits its buffer and is, line by line, the request line, the
  Host line, \<open>Connection: close\<close> and the header lines of the caller, each ended by CR LF, followed by
  the empty line. Nothing in the URL or in a header adds a line of its own.
\<close>

theorem http_request_lines:
  assumes "safe_url url" "inkwell_http_request_format cap method (Some url) (Some hs) = Some out"
  shows "length out < cap \<and> list_all (\<lambda>h. CR \<notin> set h \<and> LF \<notin> set h) (given_headers hs) \<and>
     lf_lines out = map (\<lambda>l. l @ [CR])
       ([request_line method url, host_line url, ascii ''Connection: close''] @ given_headers hs @ [[]])"
proof -
  let ?start = "http_request_start method url"
  obtain hl where l: "http_header_lines cap (length ?start) hs = Some hl" "length ?start < cap"
    "out = ?start @ hl @ CRLF" "length ?start + length hl + 3 \<le> cap"
    using assms(2) unfolding inkwell_http_request_format_def Let_def
    by (auto simp: bind_eq_Some_conv split: if_splits)
  have close: "LF \<notin> set (ascii ''Connection: close'')" by simp
  have "lf_lines out = map (\<lambda>l. l @ [CR]) [request_line method url, host_line url, ascii ''Connection: close''] @ lf_lines (hl @ CRLF)"
    using lf_lines_crlf [OF safe_url_no_lf(1) [OF assms(1)]] lf_lines_crlf [OF safe_url_no_lf(2) [OF assms(1)]] lf_lines_crlf [OF close]
    unfolding l(3) request_start_lines append_assoc list.map by simp
  moreover have "lf_lines CRLF = [[CR]]" using lf_lines_crlf [of "[]" "[]"] by (simp add: lf_lines.simps)
  ultimately show ?thesis using header_lines [OF l(1,2), of CRLF] l(3,4) by simp
qed

theorem http_request_lines_witness:
  "lf_lines (ascii ''GET / HTTP/1.1'' @ CRLF @ ascii ''Host: h'' @ CRLF @ ascii ''Connection: close'' @ CRLF @ ascii ''A: b'' @ CRLF @ CRLF)
     = map (\<lambda>l. l @ [CR]) [ascii ''GET / HTTP/1.1'', ascii ''Host: h'', ascii ''Connection: close'', ascii ''A: b'', []]"
proof -
  let ?url = "\<lparr>url_tls = False, url_host = ascii ''h'', url_port = 80, url_target = ascii ''/''\<rparr>"
  have "safe_url ?url"
    by (simp add: safe_url_def host_ok_def target_ok_def http_url_bytes_ok_def http_url_byte_ok_def http_host_max_def http_url_max_def)
  moreover have "inkwell_http_request_format 256 HTTP_GET (Some ?url) (Some [Some (ascii ''A: b''), None])
      = Some (ascii ''GET / HTTP/1.1'' @ CRLF @ ascii ''Host: h'' @ CRLF @ ascii ''Connection: close'' @ CRLF @ ascii ''A: b'' @ CRLF @ CRLF)"
    by (simp add: inkwell_http_request_format_def http_request_start_def Let_def)
  ultimately show ?thesis using http_request_lines [of ?url 256 HTTP_GET "[Some (ascii ''A: b''), None]"]
    by (simp add: request_line_def host_line_def)
qed

text \<open>A reference that is only a fragment is accepted whatever its bytes, a line break included.\<close>

lemma http_url_resolve_fragment: "inkwell_http_url_resolve (Some base) (Some (asc (CHR ''#'') # l)) = Some base"
proof -
  have "\<not> names_authority (asc (CHR ''#'') # l)"
    by (simp add: names_authority_def http_scheme_len_def http_scheme_char_def http_alpha_def)
  then show ?thesis by (simp add: url_resolve_relative)
qed

end
