(* ===== verification/Piecewise.thy ===== *)
theory Piecewise
  imports Main
begin

text \<open>
  Readers that are fed in pieces. The HTTP response parser and the ESP ROM reader share one contract: a call
  is given the bytes at hand, consumes some of them, and answers how many it consumed and what it found;
  the caller feeds the rest again. \<open>drive\<close> is the loop of such a caller. The interface \<open>piecewise_reader\<close>
  relates the call to a machine that takes one byte at a time, and its lemmas say that the loop computes what
  the machine does, so that where the bytes are cut is of no consequence.
\<close>

section \<open>Machines and loops\<close>

fun byte_run :: "('s \<Rightarrow> 'a \<Rightarrow> 'o list \<times> 's) \<Rightarrow> 's \<Rightarrow> 'a list \<Rightarrow> 'o list \<times> 's" where
  "byte_run step s [] = ([], s)"
| "byte_run step s (c # t) = (case step s c of (b, s') \<Rightarrow> case byte_run step s' t of (b', s'') \<Rightarrow> (b @ b', s''))"

lemma byte_run_append:
  "byte_run step s (xs @ ys) = (case byte_run step s xs of (b, s') \<Rightarrow> case byte_run step s' ys of (b', s'') \<Rightarrow> (b @ b', s''))"
  by (induction xs arbitrary: s) (auto split: prod.splits)

lemma byte_run_append_eq:
  "byte_run step s xs = (b, s') \<Longrightarrow> byte_run step s' ys = (b', s'') \<Longrightarrow> byte_run step s (xs @ ys) = (b @ b', s'')"
  by (simp add: byte_run_append)

text \<open>The loop over one piece: feed what is left until it is all consumed, or a call consumes nothing.\<close>

function drive :: "('s \<Rightarrow> 'a list \<Rightarrow> nat \<times> 'o list \<times> 's) \<Rightarrow> 's \<Rightarrow> 'a list \<Rightarrow> 'o list \<times> 's" where
  "drive feed s t =
     (if t = [] then ([], s)
      else case feed s t of (n, b, s') \<Rightarrow>
        if n = 0 then (b, s')
        else case drive feed s' (drop n t) of (b', s'') \<Rightarrow> (b @ b', s''))"
  by auto
termination by (relation "measure (\<lambda>(_, _, t). length t)") auto

declare drive.simps [simp del]

fun drive_pieces :: "('s \<Rightarrow> 'a list \<Rightarrow> nat \<times> 'o list \<times> 's) \<Rightarrow> 's \<Rightarrow> 'a list list \<Rightarrow> 'o list \<times> 's" where
  "drive_pieces feed s [] = ([], s)"
| "drive_pieces feed s (p # ps) =
     (case drive feed s p of (b, s') \<Rightarrow> case drive_pieces feed s' ps of (b', s'') \<Rightarrow> (b @ b', s''))"

section \<open>The interface\<close>

locale piecewise_reader =
  fixes feed :: "'s \<Rightarrow> 'a list \<Rightarrow> nat \<times> 'o list \<times> 's"
    and step :: "'s \<Rightarrow> 'a \<Rightarrow> 'o list \<times> 's"
    and inv :: "'s \<Rightarrow> bool"
  assumes feed_consumes: "inv s \<Longrightarrow> feed s t = (n, b, s') \<Longrightarrow> n \<le> length t"
    and feed_step: "inv s \<Longrightarrow> feed s t = (n, b, s') \<Longrightarrow> byte_run step s (take n t) = (b, s')"
    and feed_inv: "inv s \<Longrightarrow> feed s t = (n, b, s') \<Longrightarrow> inv s'"
    and feed_stuck: "inv s \<Longrightarrow> feed s t = (0, b, s') \<Longrightarrow> byte_run step s t = ([], s)"
begin

lemma drive_run: "inv s \<Longrightarrow> drive feed s t = byte_run step s t \<and> inv (snd (drive feed s t))"
proof (induction t arbitrary: s rule: length_induct)
  case (1 t)
  obtain n b s' where f: "feed s t = (n, b, s')" by (metis prod_cases3)
  note run = feed_step [OF "1.prems" f] and inv' = feed_inv [OF "1.prems" f]
  consider "t = []" | "t \<noteq> []" "n = 0" | "t \<noteq> []" "0 < n" by blast
  then show ?case
  proof cases
    case 1
    then show ?thesis using "1.prems" by (simp add: drive.simps)
  next
    case 2
    then have "drive feed s t = (b, s')" using f by (simp add: drive.simps)
    moreover have "b = []" "s' = s" using run 2 by simp_all
    ultimately show ?thesis using feed_stuck [OF "1.prems" f [unfolded 2]] "1.prems" by simp
  next
    case 3
    then have "length (drop n t) < length t" by simp
    then have IH: "drive feed s' (drop n t) = byte_run step s' (drop n t)" "inv (snd (drive feed s' (drop n t)))"
      using 1(1) [rule_format, OF _ inv'] by blast+
    have "byte_run step s (take n t @ drop n t) = (case byte_run step s' (drop n t) of (b', s'') \<Rightarrow> (b @ b', s''))"
      unfolding byte_run_append run by simp
    moreover have "drive feed s t = (case drive feed s' (drop n t) of (b', s'') \<Rightarrow> (b @ b', s''))"
      using 3 f by (subst drive.simps) simp
    ultimately show ?thesis using IH by (auto split: prod.splits)
  qed
qed

lemma drive_pieces_run: "inv s \<Longrightarrow> drive_pieces feed s ps = byte_run step s (concat ps)"
proof (induction ps arbitrary: s)
  case (Cons p ps)
  obtain b s' where d: "drive feed s p = (b, s')" by force
  have "byte_run step s p = (b, s')" "inv s'" using drive_run [OF Cons.prems, of p] d by simp_all
  then show ?case using Cons.IH [of s'] d by (simp add: byte_run_append)
qed simp

end

end
