(* ===== verification/Http_Response.thy ===== *)
theory Http_Response
  imports Http_Url Piecewise
begin

text \<open>
  The response parser of the HTTP codec (\<open>src/codec/http.c\<close>): \<open>struct inkwell_http_response\<close> as a record,
  one definition per function, \<open>inkwell_http_response_feed\<close> with its result (how many bytes it consumed
  and the slice of body it found). The parser's position in the head is the list of bytes still to read.
  The reference is \<open>http_byte\<close>, the same machine taking one byte at a time; the interpretation of
  \<open>piecewise_reader\<close> shows that the loop the header asks callers to write computes what it does, so that how
  the bytes of a response are cut into calls never matters.
\<close>

section \<open>State\<close>

datatype http_phase = PHASE_HEAD | PHASE_LENGTH | PHASE_CHUNK_SIZE | PHASE_CHUNK_DATA | PHASE_CHUNK_END
  | PHASE_CHUNK_END_LF | PHASE_TRAILER | PHASE_UNTIL_CLOSE | PHASE_DONE | PHASE_FAILED

datatype inkwell_http_framing = FRAMING_NONE | FRAMING_LENGTH | FRAMING_CHUNKED | FRAMING_UNTIL_CLOSE

datatype inkwell_http_error = HTTP_OK | ERR_STATUS_LINE | ERR_HEADER | ERR_HEAD_TOO_LARGE | ERR_LENGTH | ERR_ENCODING
  | ERR_CHUNK | ERR_UPGRADE | ERR_TRUNCATED

text \<open>\<open>head_len\<close> and \<open>chunk_line_len\<close> are the lengths of the lists.\<close>

record inkwell_http_response =
  r_status :: nat
  r_framing :: inkwell_http_framing
  r_content_length :: u64
  r_body_received :: u64
  r_error :: inkwell_http_error
  r_head :: bytes
  r_phase :: http_phase
  r_head_request :: bool
  r_line_len :: nat
  r_line_cr :: bool
  r_remaining :: u64
  r_chunk_line :: bytes
  r_trailer_len :: nat

definition http_chunk_line_max :: nat where "http_chunk_line_max = 128"

section \<open>The head\<close>

definition http_fail :: "inkwell_http_error \<Rightarrow> inkwell_http_response \<Rightarrow> inkwell_http_response" where
  "http_fail e r = r\<lparr>r_error := e, r_phase := PHASE_FAILED\<rparr>"

text \<open>The first line of a text, without its LF or a CR before it, and what follows.\<close>

definition http_next_line :: "bytes \<Rightarrow> bytes \<times> bytes" where
  "http_next_line t =
     (let line = takeWhile (\<lambda>c. c \<noteq> LF) t in
      (if line \<noteq> [] \<and> last line = CR then butlast line else line, drop (length line + 1) t))"

definition http_blank :: "u8 \<Rightarrow> bool" where
  "http_blank c = (c = SPC \<or> c = TAB)"

definition http_trim :: "bytes \<Rightarrow> bytes" where
  "http_trim value = rev (dropWhile http_blank (rev (dropWhile http_blank value)))"

definition http_split_header :: "bytes \<Rightarrow> (bytes \<times> bytes) option" where
  "http_split_header line =
     (let colon = run_len http_token_char line in
      if colon = 0 \<or> length line \<le> colon \<or> line ! colon \<noteq> asc (CHR '':'') then None
      else let value = drop (colon + 1) line in
        if CR \<in> set value \<or> NUL \<in> set value then None else Some (take colon line, http_trim value))"

fun http_length_loop :: "u64 \<Rightarrow> bytes \<Rightarrow> u64 option" where
  "http_length_loop parsed [] = Some parsed"
| "http_length_loop parsed (c # t) =
     (if \<not> http_digit c \<or> (- 1 - 9) div 10 < parsed then None
      else http_length_loop (parsed * 10 + ucast (c - asc (CHR ''0''))) t)"

text \<open>The fields of a head that frame the body: the Content-Length, if any, and whether it is chunked.\<close>

definition http_field :: "bytes \<Rightarrow> bytes \<Rightarrow> u64 option \<Rightarrow> bool \<Rightarrow> inkwell_http_error + (u64 option \<times> bool)" where
  "http_field name value len chunked =
     (if http_equal_nocase name (ascii ''content-length'') then
        (if value = [] then Inl ERR_LENGTH
         else case http_length_loop 0 value of
           None \<Rightarrow> Inl ERR_LENGTH
         | Some parsed \<Rightarrow> if len \<noteq> None \<and> len \<noteq> Some parsed then Inl ERR_LENGTH else Inr (Some parsed, chunked))
      else if http_equal_nocase name (ascii ''transfer-encoding'') then
        (if chunked \<or> \<not> http_equal_nocase value (ascii ''chunked'') then Inl ERR_ENCODING else Inr (len, True))
      else Inr (len, chunked))"

lemma http_next_line_less: "t \<noteq> [] \<Longrightarrow> length (snd (http_next_line t)) < length t"
  by (cases t) (auto simp: http_next_line_def Let_def)

function http_fields_loop :: "bytes \<Rightarrow> u64 option \<Rightarrow> bool \<Rightarrow> inkwell_http_error + (u64 option \<times> bool)" where
  "http_fields_loop t len chunked =
     (if t = [] then Inr (len, chunked)
      else case http_next_line t of (line, t') \<Rightarrow>
        if line = [] then Inr (len, chunked)
        else case http_split_header line of
          None \<Rightarrow> Inl ERR_HEADER
        | Some (name, value) \<Rightarrow>
            (case http_field name value len chunked of
               Inl e \<Rightarrow> Inl e
             | Inr (len', chunked') \<Rightarrow> http_fields_loop t' len' chunked'))"
  by auto
termination
proof (relation "measure (\<lambda>(t, _). length t)", goal_cases)
  case (2 t len chunked p line t')
  then show ?case using http_next_line_less [of t] by (metis case_prod_conv in_measure snd_conv)
qed simp

declare http_fields_loop.simps [simp del]

definition http_status_line :: "bytes \<Rightarrow> nat option" where
  "http_status_line line =
     (if length line < 12 \<or> take 7 line \<noteq> ascii ''HTTP/1.'' \<or> \<not> http_digit (line ! 7) \<or> line ! 8 \<noteq> SPC \<or>
         \<not> http_digit (line ! 9) \<or> \<not> http_digit (line ! 10) \<or> \<not> http_digit (line ! 11) \<or>
         (12 < length line \<and> line ! 12 \<noteq> SPC) then None
      else Some (unat (line ! 9 - asc (CHR ''0'')) * 100 + unat (line ! 10 - asc (CHR ''0'')) * 10 + unat (line ! 11 - asc (CHR ''0''))))"

text \<open>How the body is framed, once the head is read.\<close>

definition http_frame_body :: "nat \<Rightarrow> u64 option \<Rightarrow> bool \<Rightarrow> inkwell_http_response \<Rightarrow> inkwell_http_response" where
  "http_frame_body status len chunked r =
     (let r = r\<lparr>r_status := status\<rparr> in
      if r_head_request r \<or> status = 204 \<or> status = 304 then r\<lparr>r_framing := FRAMING_NONE, r_phase := PHASE_DONE\<rparr>
      else if chunked then r\<lparr>r_framing := FRAMING_CHUNKED, r_phase := PHASE_CHUNK_SIZE, r_chunk_line := []\<rparr>
      else case len of
        Some n \<Rightarrow> r\<lparr>r_framing := FRAMING_LENGTH, r_content_length := n, r_remaining := n,
                    r_phase := (if n = 0 then PHASE_DONE else PHASE_LENGTH)\<rparr>
      | None \<Rightarrow> r\<lparr>r_framing := FRAMING_UNTIL_CLOSE, r_phase := PHASE_UNTIL_CLOSE\<rparr>)"

definition http_parse_head :: "inkwell_http_response \<Rightarrow> bool \<times> inkwell_http_response" where
  "http_parse_head r =
     (case http_next_line (r_head r) of (line, t) \<Rightarrow>
      case http_status_line line of
        None \<Rightarrow> (False, http_fail ERR_STATUS_LINE r)
      | Some status \<Rightarrow>
          if status < 100 then (False, http_fail ERR_STATUS_LINE r)
          else if status = 101 then (False, http_fail ERR_UPGRADE r)
          else case http_fields_loop t None False of
            Inl e \<Rightarrow> (False, http_fail e r)
          | Inr (len, chunked) \<Rightarrow>
              if status < 200 then (True, r\<lparr>r_head := []\<rparr>)
              else (True, http_frame_body status len chunked r))"

definition http_head_byte :: "inkwell_http_response \<Rightarrow> u8 \<Rightarrow> bool \<times> inkwell_http_response" where
  "http_head_byte r c =
     (if http_head_max \<le> length (r_head r) + 1 then (True, http_fail ERR_HEAD_TOO_LARGE r)
      else let r = r\<lparr>r_head := r_head r @ [c]\<rparr> in
        if c \<noteq> LF then (False, r\<lparr>r_line_len := r_line_len r + 1\<rparr>)
        else let blank = r_line_len r = 0 \<or> (r_line_len r = 1 \<and> r_head r ! (length (r_head r) - 2) = CR);
                 r = r\<lparr>r_line_len := 0\<rparr> in
          if \<not> blank then (False, r)
          else if length (r_head r) \<le> 2 then (False, r\<lparr>r_head := []\<rparr>)
          else case http_parse_head r of (ok, r) \<Rightarrow>
            if \<not> ok then (True, r) else (r_status r \<noteq> 0, r))"

section \<open>Chunks\<close>

text \<open>The hexadecimal size a chunk line starts with, and what follows it.\<close>

fun http_chunk_size_loop :: "u64 \<Rightarrow> bytes \<Rightarrow> (u64 \<times> bytes) option" where
  "http_chunk_size_loop n [] = Some (n, [])"
| "http_chunk_size_loop n (c # t) =
     (case http_hex c of None \<Rightarrow> Some (n, c # t)
      | Some d \<Rightarrow> if drop_bit 4 (- 1) < n then None else http_chunk_size_loop (push_bit 4 n OR of_nat d) t)"

definition http_chunk_line_size :: "bytes \<Rightarrow> u64 option" where
  "http_chunk_line_size line =
     (case http_chunk_size_loop 0 line of None \<Rightarrow> None
      | Some (n, t) \<Rightarrow>
          if length t = length line then None
          else let t = dropWhile http_blank t in
            if t \<noteq> [] \<and> t ! 0 \<noteq> asc (CHR '';'') then None
            else if CR \<in> set t \<or> NUL \<in> set t then None else Some n)"

definition http_chunk_size_byte :: "inkwell_http_response \<Rightarrow> u8 \<Rightarrow> bool \<times> inkwell_http_response" where
  "http_chunk_size_byte r c =
     (if c \<noteq> LF then
        (if http_chunk_line_max \<le> length (r_chunk_line r) + 1 then (False, http_fail ERR_CHUNK r)
         else (True, r\<lparr>r_chunk_line := r_chunk_line r @ [c]\<rparr>))
      else
        let line = (if r_chunk_line r \<noteq> [] \<and> last (r_chunk_line r) = CR then butlast (r_chunk_line r) else r_chunk_line r);
            r = r\<lparr>r_chunk_line := []\<rparr> in
        case http_chunk_line_size line of
          None \<Rightarrow> (False, http_fail ERR_CHUNK r)
        | Some n \<Rightarrow>
            if n = 0 then (True, r\<lparr>r_phase := PHASE_TRAILER, r_line_len := 0, r_trailer_len := 0\<rparr>)
            else (True, r\<lparr>r_phase := PHASE_CHUNK_DATA, r_remaining := n\<rparr>))"

text \<open>The byte after a chunk's data, and the one after its CR. True when the response goes on.\<close>

definition http_chunk_end_byte :: "inkwell_http_response \<Rightarrow> u8 \<Rightarrow> bool \<times> inkwell_http_response" where
  "http_chunk_end_byte r c =
     (if c = CR then (True, r\<lparr>r_phase := PHASE_CHUNK_END_LF\<rparr>)
      else if c = LF then (True, r\<lparr>r_phase := PHASE_CHUNK_SIZE\<rparr>)
      else (False, http_fail ERR_CHUNK r))"

definition http_chunk_end_lf_byte :: "inkwell_http_response \<Rightarrow> u8 \<Rightarrow> bool \<times> inkwell_http_response" where
  "http_chunk_end_lf_byte r c = (if c \<noteq> LF then (False, http_fail ERR_CHUNK r) else (True, r\<lparr>r_phase := PHASE_CHUNK_SIZE\<rparr>))"

definition http_trailer_byte :: "inkwell_http_response \<Rightarrow> u8 \<Rightarrow> bool \<times> inkwell_http_response" where
  "http_trailer_byte r c =
     (let r = r\<lparr>r_trailer_len := r_trailer_len r + 1\<rparr> in
      if http_head_max \<le> r_trailer_len r then (False, http_fail ERR_HEAD_TOO_LARGE r)
      else if c \<noteq> LF then (True, r\<lparr>r_line_len := r_line_len r + 1, r_line_cr := (c = CR)\<rparr>)
      else let blank = r_line_len r = 0 \<or> (r_line_len r = 1 \<and> r_line_cr r); r = r\<lparr>r_line_len := 0\<rparr> in
        if blank then (False, r\<lparr>r_phase := PHASE_DONE\<rparr>) else (True, r))"

section \<open>Feeding\<close>

definition inkwell_http_response_init :: "bool \<Rightarrow> inkwell_http_response" where
  "inkwell_http_response_init head_request =
     \<lparr>r_status = 0, r_framing = FRAMING_NONE, r_content_length = 0, r_body_received = 0, r_error = HTTP_OK, r_head = [],
      r_phase = PHASE_HEAD, r_head_request = head_request, r_line_len = 0, r_line_cr = False, r_remaining = 0,
      r_chunk_line = [], r_trailer_len = 0\<rparr>"

text \<open>
  One byte of a phase that consumes its bytes one at a time: whether the loop goes on, and the state. The
  loop of the feed leaves at the first byte that says so.
\<close>

definition http_control_byte :: "inkwell_http_response \<Rightarrow> u8 \<Rightarrow> bool \<times> inkwell_http_response" where
  "http_control_byte r c =
     (case r_phase r of
        PHASE_HEAD \<Rightarrow> (case http_head_byte r c of (stop, r) \<Rightarrow> (\<not> stop, r))
      | PHASE_CHUNK_SIZE \<Rightarrow> http_chunk_size_byte r c
      | PHASE_CHUNK_END \<Rightarrow> http_chunk_end_byte r c
      | PHASE_CHUNK_END_LF \<Rightarrow> http_chunk_end_lf_byte r c
      | PHASE_TRAILER \<Rightarrow> http_trailer_byte r c
      | _ \<Rightarrow> (False, r))"

text \<open>The state after \<open>n\<close> bytes of a body of known length, or of a chunk.\<close>

definition http_take_body :: "nat \<Rightarrow> inkwell_http_response \<Rightarrow> inkwell_http_response" where
  "http_take_body n r =
     (let r = r\<lparr>r_remaining := r_remaining r - of_nat n, r_body_received := r_body_received r + of_nat n\<rparr> in
      if r_remaining r = 0 then r\<lparr>r_phase := (if r_phase r = PHASE_LENGTH then PHASE_DONE else PHASE_CHUNK_END)\<rparr> else r)"

text \<open>The loop of the feed over what is left of the input, with the bytes consumed before it.\<close>

fun http_feed_loop :: "inkwell_http_response \<Rightarrow> nat \<Rightarrow> bytes \<Rightarrow> nat \<times> bytes \<times> inkwell_http_response" where
  "http_feed_loop r at [] = (at, [], r)"
| "http_feed_loop r at (c # t) =
     (if r_phase r = PHASE_LENGTH \<or> r_phase r = PHASE_CHUNK_DATA then
        (let avail = length (c # t); n = (if unat (r_remaining r) < avail then unat (r_remaining r) else avail) in
         (at + n, take n (c # t), http_take_body n r))
      else if r_phase r = PHASE_UNTIL_CLOSE then
        (at + length (c # t), c # t, r\<lparr>r_body_received := r_body_received r + of_nat (length (c # t))\<rparr>)
      else if r_phase r = PHASE_DONE \<or> r_phase r = PHASE_FAILED then (at, [], r)
      else case http_control_byte r c of (continue, r) \<Rightarrow>
        if continue then http_feed_loop r (at + 1) t else (at + 1, [], r))"

text \<open>The count of bytes consumed, the slice of body and the state.\<close>

definition inkwell_http_response_feed :: "inkwell_http_response \<Rightarrow> bytes \<Rightarrow> nat \<times> bytes \<times> inkwell_http_response" where
  "inkwell_http_response_feed r input = http_feed_loop r 0 input"

definition inkwell_http_response_finish :: "inkwell_http_response \<Rightarrow> bool \<times> inkwell_http_response" where
  "inkwell_http_response_finish r =
     (if r_phase r = PHASE_DONE then (True, r)
      else if r_phase r = PHASE_UNTIL_CLOSE then (True, r\<lparr>r_phase := PHASE_DONE\<rparr>)
      else if r_phase r \<noteq> PHASE_FAILED then (False, http_fail ERR_TRUNCATED r)
      else (False, r))"

definition inkwell_http_response_head_done :: "inkwell_http_response \<Rightarrow> bool" where
  "inkwell_http_response_head_done r = (r_status r \<noteq> 0)"

definition inkwell_http_response_done :: "inkwell_http_response \<Rightarrow> bool" where
  "inkwell_http_response_done r = (r_phase r = PHASE_DONE)"

definition inkwell_http_response_failed :: "inkwell_http_response \<Rightarrow> bool" where
  "inkwell_http_response_failed r = (r_phase r = PHASE_FAILED)"

function http_header_loop :: "bytes \<Rightarrow> bytes \<Rightarrow> bytes option" where
  "http_header_loop name t =
     (if t = [] then None
      else case http_next_line t of (line, t') \<Rightarrow>
        if line = [] then None
        else case http_split_header line of
          Some (field, value) \<Rightarrow> if http_equal_nocase field name then Some value else http_header_loop name t'
        | None \<Rightarrow> http_header_loop name t')"
  by auto
termination
  by (relation "measure (\<lambda>(_, t). length t)") (simp_all, (metis http_next_line_less snd_conv)+)

declare http_header_loop.simps [simp del]

definition inkwell_http_response_header :: "inkwell_http_response \<Rightarrow> bytes option \<Rightarrow> bytes option" where
  "inkwell_http_response_header r name =
     (case name of None \<Rightarrow> None
      | Some n \<Rightarrow> if \<not> inkwell_http_response_head_done r then None
                 else http_header_loop n (snd (http_next_line (r_head r))))"

fun inkwell_http_error_name :: "inkwell_http_error \<Rightarrow> bytes" where
  "inkwell_http_error_name HTTP_OK = ascii ''ok''"
| "inkwell_http_error_name ERR_STATUS_LINE = ascii ''status line''"
| "inkwell_http_error_name ERR_HEADER = ascii ''header''"
| "inkwell_http_error_name ERR_HEAD_TOO_LARGE = ascii ''head too large''"
| "inkwell_http_error_name ERR_LENGTH = ascii ''content length''"
| "inkwell_http_error_name ERR_ENCODING = ascii ''transfer encoding''"
| "inkwell_http_error_name ERR_CHUNK = ascii ''chunk''"
| "inkwell_http_error_name ERR_UPGRADE = ascii ''upgrade''"
| "inkwell_http_error_name ERR_TRUNCATED = ascii ''truncated''"

section \<open>One byte at a time\<close>

definition http_byte :: "inkwell_http_response \<Rightarrow> u8 \<Rightarrow> bytes \<times> inkwell_http_response" where
  "http_byte r c =
     (case r_phase r of
        PHASE_LENGTH \<Rightarrow> ([c], http_take_body 1 r)
      | PHASE_CHUNK_DATA \<Rightarrow> ([c], http_take_body 1 r)
      | PHASE_UNTIL_CLOSE \<Rightarrow> ([c], r\<lparr>r_body_received := r_body_received r + 1\<rparr>)
      | PHASE_DONE \<Rightarrow> ([], r)
      | PHASE_FAILED \<Rightarrow> ([], r)
      | _ \<Rightarrow> ([], snd (http_control_byte r c)))"

abbreviation http_run :: "inkwell_http_response \<Rightarrow> bytes \<Rightarrow> bytes \<times> inkwell_http_response" where
  "http_run \<equiv> byte_run http_byte"

definition http_over :: "inkwell_http_response \<Rightarrow> bool" where
  "http_over r = (r_phase r = PHASE_DONE \<or> r_phase r = PHASE_FAILED)"

lemma http_run_over: "http_over r \<Longrightarrow> http_run r t = ([], r)"
  by (induction t) (auto simp: http_byte_def http_over_def)

section \<open>The invariant\<close>

text \<open>
  A phase that takes body bytes has some left to take, the buffers are within their bounds, and the status
  is known exactly when the head is complete.
\<close>

definition http_inv :: "inkwell_http_response \<Rightarrow> bool" where
  "http_inv r =
     ((r_phase r = PHASE_LENGTH \<or> r_phase r = PHASE_CHUNK_DATA \<longrightarrow> r_remaining r \<noteq> 0)
      \<and> length (r_head r) < http_head_max \<and> length (r_chunk_line r) < http_chunk_line_max
      \<and> (r_phase r = PHASE_HEAD \<longrightarrow> r_status r = 0)
      \<and> (r_phase r \<noteq> PHASE_HEAD \<and> r_phase r \<noteq> PHASE_FAILED \<longrightarrow> 200 \<le> r_status r)
      \<and> (r_phase r = PHASE_FAILED \<longleftrightarrow> r_error r \<noteq> HTTP_OK))"

named_theorems http_inv_intros "the invariant after each step"

lemma http_inv_init [http_inv_intros]: "http_inv (inkwell_http_response_init head_request)"
  by (simp add: http_inv_def inkwell_http_response_init_def http_head_max_def http_chunk_line_max_def)

lemma http_inv_fail [http_inv_intros]: "http_inv r \<Longrightarrow> e \<noteq> HTTP_OK \<Longrightarrow> http_inv (http_fail e r)"
  by (auto simp: http_inv_def http_fail_def)

lemma http_field_error: "http_field name value len chunked = Inl e \<Longrightarrow> e \<noteq> HTTP_OK"
  by (auto simp: http_field_def split: if_splits option.splits)

lemma http_fields_error: "http_fields_loop t len chunked = Inl e \<Longrightarrow> e \<noteq> HTTP_OK"
proof (induction t len chunked rule: http_fields_loop.induct)
  case (1 t len chunked)
  from "1.prems" show ?case
    by (subst (asm) http_fields_loop.simps)
      (auto split: if_splits prod.splits option.splits sum.splits dest: http_field_error "1.IH")
qed

lemma http_parse_head_inv [http_inv_intros]:
  assumes "http_inv r" "r_phase r = PHASE_HEAD"
  shows "http_inv (snd (http_parse_head r))"
    "r_phase (snd (http_parse_head r)) = PHASE_HEAD \<longleftrightarrow> fst (http_parse_head r) \<and> r_status (snd (http_parse_head r)) = 0"
  using assms http_fields_error
  by (auto simp: http_parse_head_def http_frame_body_def Let_def http_inv_def http_fail_def http_head_max_def http_chunk_line_max_def
      split: prod.splits option.splits sum.splits)


lemma http_inv_head [http_inv_intros]:
  "http_inv r \<Longrightarrow> r_phase r = PHASE_HEAD \<Longrightarrow> length h < http_head_max \<Longrightarrow> http_inv (r\<lparr>r_head := h, r_line_len := n\<rparr>)"
  by (simp add: http_inv_def)

lemma http_head_byte_cases:
  assumes "\<not> http_head_max \<le> length (r_head r) + 1"
  obtains (line) n where "http_head_byte r c = (False, r\<lparr>r_head := r_head r @ [c], r_line_len := n\<rparr>)"
  | (noise) "http_head_byte r c = (False, r\<lparr>r_head := [], r_line_len := 0\<rparr>)"
  | (parse) ok r' where "http_parse_head (r\<lparr>r_head := r_head r @ [c], r_line_len := 0\<rparr>) = (ok, r')"
      "http_head_byte r c = (\<not> ok \<or> r_status r' \<noteq> 0, r')"
proof -
  obtain ok r' where p: "http_parse_head (r\<lparr>r_head := r_head r @ [c], r_line_len := 0\<rparr>) = (ok, r')" by force
  let ?blank = "r_line_len r = 0 \<or> (r_line_len r = 1 \<and> (r_head r @ [c]) ! (length (r_head r @ [c]) - 2) = CR)"
  consider "c \<noteq> LF" | "c = LF" "\<not> ?blank" | "c = LF" "?blank" "length (r_head r @ [c]) \<le> 2" | "c = LF" "?blank" "\<not> length (r_head r @ [c]) \<le> 2"
    by blast
  then show thesis
  proof cases
    case 1
    then show thesis using assms by (intro line) (simp add: http_head_byte_def Let_def)
  next
    case 2
    then show thesis using assms by (intro line [of 0]) (auto simp: http_head_byte_def Let_def)
  next
    case 3
    then show thesis using assms by (intro noise) (auto simp: http_head_byte_def Let_def)
  next
    case 4
    then have "http_head_byte r c = (case http_parse_head (r\<lparr>r_head := r_head r @ [c], r_line_len := 0\<rparr>) of (ok, r) \<Rightarrow>
        if \<not> ok then (True, r) else (r_status r \<noteq> 0, r))"
      using assms by (auto simp: http_head_byte_def Let_def)
    then show thesis using p by (intro parse [OF p]) simp
  qed
qed

lemma http_head_byte_inv:
  assumes "http_inv r" "r_phase r = PHASE_HEAD"
  shows "http_inv (snd (http_head_byte r c)) \<and> (fst (http_head_byte r c) \<longleftrightarrow> r_phase (snd (http_head_byte r c)) \<noteq> PHASE_HEAD)"
proof (cases "http_head_max \<le> length (r_head r) + 1")
  case True
  then show ?thesis using http_inv_fail [OF assms(1)] by (simp add: http_head_byte_def http_fail_def)
next
  case False
  then have h: "http_inv (r\<lparr>r_head := r_head r @ [c], r_line_len := n\<rparr>)" for n
    using http_inv_head [OF assms] by simp
  from False show ?thesis
  proof (cases rule: http_head_byte_cases [where c = c])
    case (parse ok r')
    then show ?thesis using http_parse_head_inv [OF h [of 0]] assms(2) by auto
  next
    case noise
    then show ?thesis using http_inv_head [OF assms, of "[]" 0] assms(2) by (simp add: http_head_max_def)
  qed (use h assms(2) in simp)
qed

lemma http_chunk_size_byte_inv:
  assumes "http_inv r" "r_phase r = PHASE_CHUNK_SIZE"
  shows "http_inv (snd (http_chunk_size_byte r c))"
proof (cases "c = LF")
  case True
  have "http_inv (r\<lparr>r_chunk_line := []\<rparr>)" using assms by (simp add: http_inv_def http_chunk_line_max_def)
  moreover have "200 \<le> r_status r" "r_error r = HTTP_OK" using assms by (auto simp: http_inv_def)
  ultimately show ?thesis using True assms
    by (auto simp: http_chunk_size_byte_def Let_def http_inv_def http_fail_def split: option.split)
next
  case False
  then show ?thesis using assms by (auto simp: http_chunk_size_byte_def http_inv_def http_fail_def)
qed

lemma http_chunk_end_byte_inv:
  "http_inv r \<Longrightarrow> r_phase r = PHASE_CHUNK_END \<Longrightarrow> http_inv (snd (http_chunk_end_byte r c))"
  "http_inv r \<Longrightarrow> r_phase r = PHASE_CHUNK_END_LF \<Longrightarrow> http_inv (snd (http_chunk_end_lf_byte r c))"
  by (simp_all add: http_chunk_end_byte_def http_chunk_end_lf_byte_def http_inv_def http_fail_def)

lemma http_trailer_byte_inv:
  "http_inv r \<Longrightarrow> r_phase r = PHASE_TRAILER \<Longrightarrow> http_inv (snd (http_trailer_byte r c))"
  by (simp add: http_trailer_byte_def Let_def http_inv_def http_fail_def)

lemma http_control_byte_inv: "http_inv r \<Longrightarrow> http_inv (snd (http_control_byte r c))"
  using http_head_byte_inv [of r c] http_chunk_size_byte_inv [of r c] http_chunk_end_byte_inv [of r c] http_trailer_byte_inv [of r c]
  by (cases "r_phase r") (auto simp: http_control_byte_def split: prod.split)

lemma http_take_body_inv: "http_inv r \<Longrightarrow> r_phase r = PHASE_LENGTH \<or> r_phase r = PHASE_CHUNK_DATA \<Longrightarrow> http_inv (http_take_body n r)"
  by (auto simp: http_take_body_def http_inv_def Let_def)

lemma http_run_body:
  assumes "r_phase r = PHASE_LENGTH \<or> r_phase r = PHASE_CHUNK_DATA" "0 < length t" "length t \<le> unat (r_remaining r)"
  shows "http_run r t = (t, http_take_body (length t) r)"
  using assms
proof (induction t arbitrary: r)
  case (Cons c t)
  have byte: "http_byte r c = ([c], http_take_body 1 r)" using Cons.prems(1) by (auto simp: http_byte_def)
  show ?case
  proof (cases "t = []")
    case True
    then show ?thesis using byte by simp
  next
    case False
    then have big: "1 < unat (r_remaining r)" using Cons.prems(3) by (cases t) auto
    then have left: "unat (r_remaining r - 1) = unat (r_remaining r) - 1" by (subst unat_sub) (auto simp: word_le_nat_alt)
    then have nz: "r_remaining r \<noteq> 1" using big by auto
    have "http_run (http_take_body 1 r) t = (t, http_take_body (length t) (http_take_body 1 r))"
      by (rule Cons.IH) (use Cons.prems(1,3) False nz left in \<open>auto simp: http_take_body_def\<close>)
    moreover have "http_take_body (length t) (http_take_body 1 r) = http_take_body (length (c # t)) r"
      using nz by (simp add: http_take_body_def Let_def algebra_simps)
    ultimately show ?thesis using byte by simp
  qed
qed simp

lemma http_run_until_close:
  "r_phase r = PHASE_UNTIL_CLOSE \<Longrightarrow> http_run r t = (t, r\<lparr>r_body_received := r_body_received r + of_nat (length t)\<rparr>)"
  by (induction t arbitrary: r) (auto simp: http_byte_def algebra_simps)

lemma http_byte_control:
  "\<not> http_over r \<Longrightarrow> r_phase r \<noteq> PHASE_LENGTH \<Longrightarrow> r_phase r \<noteq> PHASE_CHUNK_DATA \<Longrightarrow> r_phase r \<noteq> PHASE_UNTIL_CLOSE \<Longrightarrow>
   http_byte r c = ([], snd (http_control_byte r c))"
  by (auto simp: http_byte_def http_over_def split: http_phase.splits)

lemma http_feed_loop_run:
  assumes "http_inv r" "http_feed_loop r at t = (n, b, r')"
  shows "\<exists>k. n = at + k \<and> k \<le> length t \<and> http_run r (take k t) = (b, r') \<and> http_inv r' \<and> (0 < k \<or> t = [] \<or> http_over r)"
  using assms
proof (induction t arbitrary: r at)
  case (Cons c t)
  consider "r_phase r = PHASE_LENGTH \<or> r_phase r = PHASE_CHUNK_DATA" | "r_phase r = PHASE_UNTIL_CLOSE" | "http_over r"
    | "\<not> http_over r" "r_phase r \<noteq> PHASE_LENGTH" "r_phase r \<noteq> PHASE_CHUNK_DATA" "r_phase r \<noteq> PHASE_UNTIL_CLOSE"
    by blast
  then show ?case
  proof cases
    case 1
    define k where "k = (if unat (r_remaining r) < length (c # t) then unat (r_remaining r) else length (c # t))"
    have "r_remaining r \<noteq> 0" using Cons.prems(1) 1 by (auto simp: http_inv_def)
    then have k: "0 < k" "k \<le> length (c # t)" "k \<le> unat (r_remaining r)" by (auto simp: k_def unat_gt_0)
    have "(n, b, r') = (at + k, take k (c # t), http_take_body k r)"
      using Cons.prems(2) 1 unfolding http_feed_loop.simps Let_def k_def [symmetric] by simp
    then show ?thesis
      using http_run_body [OF 1, of "take k (c # t)"] k http_take_body_inv [OF Cons.prems(1) 1]
      by (intro exI [of _ k]) (auto simp: min_def)
  next
    case 2
    then show ?thesis using Cons.prems http_run_until_close [OF 2, of "c # t"]
      by (intro exI [of _ "length (c # t)"]) (auto simp: http_inv_def)
  next
    case 3
    then show ?thesis using Cons.prems by (intro exI [of _ 0]) (auto simp: http_over_def)
  next
    case 4
    obtain go r1 where g: "http_control_byte r c = (go, r1)" by force
    have r1: "http_inv r1" using http_control_byte_inv [OF Cons.prems(1), of c] g by simp
    have b: "http_byte r c = ([], r1)" using http_byte_control [OF 4] g by simp
    have loop: "http_feed_loop r at (c # t) = (if go then http_feed_loop r1 (at + 1) t else (at + 1, [], r1))"
      using 4 g by (simp add: http_over_def)
    show ?thesis
    proof (cases go)
      case True
      then obtain k where "n = at + 1 + k" "k \<le> length t" "http_run r1 (take k t) = (b, r')" "http_inv r'"
        using Cons.IH [OF r1, of "at + 1"] Cons.prems(2) loop by auto
      then show ?thesis using b by (intro exI [of _ "Suc k"]) simp
    next
      case False
      then show ?thesis using Cons.prems(2) loop r1 b by (intro exI [of _ 1]) simp
    qed
  qed
qed auto


section \<open>The contract of the feed\<close>

interpretation http: piecewise_reader inkwell_http_response_feed http_byte http_inv
proof (unfold_locales, goal_cases)
  case (1 s t n b s')
  then show ?case using http_feed_loop_run [of s 0 t n b s'] by (auto simp: inkwell_http_response_feed_def)
next
  case (2 s t n b s')
  then show ?case using http_feed_loop_run [of s 0 t n b s'] by (auto simp: inkwell_http_response_feed_def)
next
  case (3 s t n b s')
  then show ?case using http_feed_loop_run [of s 0 t n b s'] by (auto simp: inkwell_http_response_feed_def)
next
  case (4 s t b s')
  then show ?case using http_feed_loop_run [of s 0 t 0 b s'] http_run_over [of s t] by (auto simp: inkwell_http_response_feed_def)
qed

lemma drive_pieces_whole:
  "drive_pieces inkwell_http_response_feed (inkwell_http_response_init head_request) pieces
     = drive inkwell_http_response_feed (inkwell_http_response_init head_request) (concat pieces)"
  using http.drive_pieces_run [OF http_inv_init] http.drive_run [OF http_inv_init] by simp

text \<open>
  C15. The parser gives the same answer however the bytes of a response are cut into calls: driving it
  over any list of pieces leaves the state and the body that one byte at a time does, and so the state and
  the body of the whole.
\<close>

theorem http_response_pieces:
  "drive_pieces inkwell_http_response_feed (inkwell_http_response_init head_request) pieces
     = byte_run http_byte (inkwell_http_response_init head_request) (concat pieces)
   \<and> drive inkwell_http_response_feed (inkwell_http_response_init head_request) (concat pieces)
     = drive_pieces inkwell_http_response_feed (inkwell_http_response_init head_request) pieces"
  using http.drive_pieces_run [OF http_inv_init] http.drive_run [OF http_inv_init] by simp


lemma http_head_byte_received: "r_body_received (snd (http_head_byte r c)) = r_body_received r"
proof (cases "http_head_max \<le> length (r_head r) + 1")
  case True
  then show ?thesis by (simp add: http_head_byte_def http_fail_def)
next
  case False
  then show ?thesis
  proof (cases rule: http_head_byte_cases [where c = c])
    case (parse ok r')
    have "r_body_received (snd (http_parse_head r1)) = r_body_received r1" for r1
      by (simp add: http_parse_head_def http_fail_def http_frame_body_def Let_def split: prod.split option.split sum.split)
    from this [of "r\<lparr>r_head := r_head r @ [c], r_line_len := 0\<rparr>"] show ?thesis using parse by simp
  qed simp_all
qed

lemma http_body_control_received:
  "r_body_received (snd (http_chunk_size_byte r c)) = r_body_received r"
  "r_body_received (snd (http_chunk_end_byte r c)) = r_body_received r"
  "r_body_received (snd (http_chunk_end_lf_byte r c)) = r_body_received r"
  "r_body_received (snd (http_trailer_byte r c)) = r_body_received r"
  by (simp_all add: http_chunk_size_byte_def http_chunk_end_byte_def http_chunk_end_lf_byte_def http_trailer_byte_def
      Let_def http_fail_def split: option.split)

lemma http_control_byte_received: "r_body_received (snd (http_control_byte r c)) = r_body_received r"
  using http_head_byte_received [of r c] http_body_control_received [of r c]
  by (cases "r_phase r") (auto simp: http_control_byte_def split: prod.split)

lemma http_feed_loop_slice:
  "http_feed_loop r at t = (n, b, r') \<Longrightarrow>
     suffix b (take (n - at) t) \<and> r_body_received r' = r_body_received r + of_nat (length b)"
proof (induction t arbitrary: r at)
  case (Cons c t)
  obtain go r1 where g: "http_control_byte r c = (go, r1)" by force
  have recv: "r_body_received r1 = r_body_received r" using http_control_byte_received [of r c] g by simp
  show ?case
  proof (cases "http_over r \<or> r_phase r = PHASE_LENGTH \<or> r_phase r = PHASE_CHUNK_DATA \<or> r_phase r = PHASE_UNTIL_CLOSE")
    case True
    then show ?thesis using Cons.prems
      by (auto simp: http_over_def Let_def http_take_body_def min_def split: if_splits)
  next
    case False
    then have loop: "http_feed_loop r at (c # t) = (if go then http_feed_loop r1 (at + 1) t else (at + 1, [], r1))"
      using g by (simp add: http_over_def)
    show ?thesis
    proof (cases go)
      case True
      then have f: "http_feed_loop r1 (at + 1) t = (n, b, r')" using Cons.prems loop by simp
      then have IH: "suffix b (take (n - (at + 1)) t)" "r_body_received r' = r_body_received r1 + of_nat (length b)"
        using Cons.IH by auto
      show ?thesis
      proof (cases "n - at")
        case 0
        then show ?thesis using IH recv by simp
      next
        case (Suc k)
        then have "n - (at + 1) = k" by linarith
        then show ?thesis using IH recv Suc by (simp add: suffix_Cons)
      qed
    next
      case False
      then show ?thesis using Cons.prems loop recv by simp
    qed
  qed
qed simp

text \<open>
  The contract of a call, in every state the parser can reach: it consumes at least one byte when it is
  given any, until the response is done or has failed, and none after that; it hands out a slice of the bytes
  it consumed, and counts it.
\<close>

theorem http_feed_progress:
  "let r = snd (drive_pieces inkwell_http_response_feed (inkwell_http_response_init head_request) pieces);
       (n, body, r') = inkwell_http_response_feed r input in
   n \<le> length input
   \<and> (n = 0 \<longleftrightarrow> input = [] \<or> inkwell_http_response_done r \<or> inkwell_http_response_failed r)
   \<and> suffix body (take n input)
   \<and> r_body_received r' = r_body_received r + of_nat (length body)
   \<and> http_inv r'"
proof -
  define r where "r = snd (drive_pieces inkwell_http_response_feed (inkwell_http_response_init head_request) pieces)"
  obtain n body r' where f: "inkwell_http_response_feed r input = (n, body, r')" by (metis prod_cases3)
  have "http_inv r"
    using http.drive_run [OF http_inv_init, of head_request "concat pieces"] unfolding r_def drive_pieces_whole by (rule conjunct2)
  then have "n \<le> length input" "http_inv r'" "0 < n \<or> input = [] \<or> http_over r"
    using http_feed_loop_run [of r 0 input n body r'] f by (auto simp: inkwell_http_response_feed_def)
  moreover have "n = 0" if "input = [] \<or> http_over r"
    using f that by (cases input) (auto simp: inkwell_http_response_feed_def http_over_def)
  moreover have "suffix body (take n input)" "r_body_received r' = r_body_received r + of_nat (length body)"
    using http_feed_loop_slice [of r 0 input n body r'] f by (simp_all add: inkwell_http_response_feed_def)
  ultimately show ?thesis
    unfolding r_def [symmetric] Let_def f prod.case inkwell_http_response_done_def inkwell_http_response_failed_def http_over_def
    by auto
qed

end
