(* ===== verification/Http_Message.thy ===== *)
theory Http_Message
  imports Http_Response
begin

text \<open>
  Whole HTTP responses. The reference is written by printing: \<open>response_head\<close> is the head a server sends
  (status line, fields with optional blanks, empty line) and \<open>chunked_body\<close> a body in the chunked coding of
  RFC 9112. The lemmas run the byte machine of \<open>Http_Response\<close> over the lines of a head, the fields that
  frame the body, chunks and trailers; the two properties put them together for the two framings that carry
  their own end, and say that a connection cut short is never taken for a whole response.
\<close>

section \<open>Lines of a head\<close>

text \<open>A line of the head: no line feed in it, and not the empty line.\<close>

definition head_line :: "bytes \<Rightarrow> bool" where
  "head_line l = (LF \<notin> set l \<and> l \<noteq> [])"

lemma http_run_head_text:
  assumes "r_phase r = PHASE_HEAD" "LF \<notin> set l" "length (r_head r) + length l < http_head_max"
  shows "http_run r l = ([], r\<lparr>r_head := r_head r @ l, r_line_len := r_line_len r + length l\<rparr>)"
  using assms
proof (induction l arbitrary: r)
  case (Cons c l)
  have "http_byte r c = ([], r\<lparr>r_head := r_head r @ [c], r_line_len := r_line_len r + 1\<rparr>)"
    using Cons.prems by (auto simp: http_byte_def http_control_byte_def http_head_byte_def Let_def)
  then show ?case using Cons.IH [of "r\<lparr>r_head := r_head r @ [c], r_line_len := r_line_len r + 1\<rparr>"] Cons.prems by simp
qed simp

lemma http_run_head_line:
  assumes "r_phase r = PHASE_HEAD" "head_line l" "length (r_head r) + length l + 2 < http_head_max" "r_line_len r = 0"
  shows "http_run r (l @ CRLF) = ([], r\<lparr>r_head := r_head r @ l @ CRLF\<rparr>)"
proof -
  let ?r = "r\<lparr>r_head := r_head r @ l @ [CR], r_line_len := length l + 1\<rparr>"
  have "http_run r (l @ [CR]) = ([], ?r)"
    using http_run_head_text [of r "l @ [CR]"] assms by (simp add: head_line_def)
  moreover have "http_head_byte ?r LF = (False, ?r\<lparr>r_head := r_head ?r @ [LF], r_line_len := 0\<rparr>)"
    using assms by (auto simp: http_head_byte_def Let_def head_line_def)
  then have "http_run ?r [LF] = ([], ?r\<lparr>r_head := r_head ?r @ [LF], r_line_len := 0\<rparr>)"
    using assms(1) by (simp add: http_byte_def http_control_byte_def)
  ultimately have "http_run r ((l @ [CR]) @ [LF]) = ([] @ [], ?r\<lparr>r_head := r_head ?r @ [LF], r_line_len := 0\<rparr>)"
    by (rule byte_run_append_eq)
  then show ?thesis using assms(4) by simp
qed

definition head_text :: "bytes list \<Rightarrow> bytes" where
  "head_text ls = concat (map (\<lambda>l. l @ CRLF) ls)"

lemma head_text_Cons [simp]: "head_text (l # ls) = l @ CRLF @ head_text ls"
  by (simp add: head_text_def)

lemma head_text_Nil [simp]: "head_text [] = []"
  by (simp add: head_text_def)

lemma http_run_head_lines:
  assumes "r_phase r = PHASE_HEAD" "list_all head_line ls" "length (r_head r) + length (head_text ls) < http_head_max" "r_line_len r = 0"
  shows "http_run r (head_text ls) = ([], r\<lparr>r_head := r_head r @ head_text ls\<rparr>)"
  using assms
proof (induction ls arbitrary: r)
  case (Cons l ls)
  have "http_run r (l @ CRLF) = ([], r\<lparr>r_head := r_head r @ l @ CRLF\<rparr>)"
    by (rule http_run_head_line) (use Cons.prems in auto)
  moreover have "http_run (r\<lparr>r_head := r_head r @ l @ CRLF\<rparr>) (head_text ls) = ([], r\<lparr>r_head := r_head r @ head_text (l # ls)\<rparr>)"
    using Cons.IH [of "r\<lparr>r_head := r_head r @ l @ CRLF\<rparr>"] Cons.prems by simp
  ultimately show ?case using byte_run_append_eq [of http_byte r "l @ CRLF"] by fastforce
qed simp

lemma http_run_head_cr:
  assumes "r_phase r = PHASE_HEAD" "list_all head_line ls" "length (head_text ls @ CRLF) < http_head_max" "r_line_len r = 0" "r_head r = []"
  shows "http_run r (head_text ls @ [CR]) = ([], r\<lparr>r_head := head_text ls @ [CR], r_line_len := 1\<rparr>)"
proof -
  let ?h = "r\<lparr>r_head := head_text ls\<rparr>"
  have "http_run r (head_text ls) = ([], ?h)" using http_run_head_lines [of r ls] assms by simp
  moreover have "http_run ?h [CR] = ([], r\<lparr>r_head := head_text ls @ [CR], r_line_len := 1\<rparr>)"
    using http_run_head_text [of ?h "[CR]"] assms by simp
  ultimately show ?thesis using byte_run_append_eq [of http_byte r "head_text ls"] by fastforce
qed

lemma http_run_head:
  assumes "r_phase r = PHASE_HEAD" "list_all head_line ls" "ls \<noteq> []" "length (head_text ls @ CRLF) < http_head_max" "r_line_len r = 0" "r_head r = []"
    and parse: "http_parse_head (r\<lparr>r_head := head_text ls @ CRLF\<rparr>) = (ok, r')"
  shows "http_run r (head_text ls @ CRLF) = ([], r')"
proof -
  let ?c = "r\<lparr>r_head := head_text ls @ [CR], r_line_len := 1\<rparr>"
  have long: "2 \<le> length (head_text ls)" using assms(3) by (cases ls) auto
  have run: "http_run r (head_text ls @ [CR]) = ([], ?c)" by (rule http_run_head_cr) (use assms in auto)
  have "r\<lparr>r_head := head_text ls @ CRLF, r_line_len := 0\<rparr> = r\<lparr>r_head := head_text ls @ CRLF\<rparr>" using assms(5) by simp
  then have "snd (http_head_byte ?c LF) = r'"
    using parse assms(4) long by (auto simp: http_head_byte_def Let_def nth_append split: prod.split)
  then have "http_run ?c [LF] = ([], r')"
    using assms(1) by (auto simp: http_byte_def http_control_byte_def split: prod.split)
  then have "http_run r ((head_text ls @ [CR]) @ [LF]) = ([] @ [], r')" by (rule byte_run_append_eq [OF run])
  then show ?thesis by simp
qed

section \<open>Fields\<close>

text \<open>A field as a server writes it: name, colon, optional blanks, v, optional blanks.\<close>

type_synonym field = "bytes \<times> bytes \<times> bytes \<times> bytes"

fun field_line :: "field \<Rightarrow> bytes" where
  "field_line (name, w1, v, w2) = name @ asc (CHR '':'') # w1 @ v @ w2"

definition wf_field :: "field \<Rightarrow> bool" where
  "wf_field f = (case f of (name, w1, v, w2) \<Rightarrow>
     name \<noteq> [] \<and> list_all http_token_char name \<and> list_all http_blank w1 \<and> list_all http_blank w2
     \<and> CR \<notin> set v \<and> LF \<notin> set v \<and> NUL \<notin> set v
     \<and> (v \<noteq> [] \<longrightarrow> \<not> http_blank (hd v) \<and> \<not> http_blank (last v)))"

lemma http_trim_value:
  assumes "list_all http_blank w1" "list_all http_blank w2" "v \<noteq> [] \<longrightarrow> \<not> http_blank (hd v) \<and> \<not> http_blank (last v)"
  shows "http_trim (w1 @ v @ w2) = v"
proof (cases "v = []")
  case True
  have "\<forall>c \<in> set (w1 @ w2). http_blank c" using assms by (auto simp: list_all_iff)
  then have "dropWhile http_blank (w1 @ w2) = []" by (simp only: dropWhile_eq_Nil_conv)
  then show ?thesis unfolding True http_trim_def append_Nil by (simp only: rev.simps dropWhile.simps)
next
  case False
  have "dropWhile http_blank (w1 @ v @ w2) = v @ w2"
    using assms False by (subst dropWhile_append2) (auto simp: list_all_iff dropWhile_eq_self_iff)
  moreover have "dropWhile http_blank (rev w2 @ rev v) = rev v"
    using assms False by (subst dropWhile_append2) (auto simp: list_all_iff dropWhile_eq_self_iff hd_rev)
  ultimately show ?thesis by (simp add: http_trim_def)
qed

lemma http_split_field:
  assumes "wf_field (name, w1, v, w2)"
  shows "http_split_header (field_line (name, w1, v, w2)) = Some (name, v)"
proof -
  have wf: "name \<noteq> []" "list_all http_token_char name" "list_all http_blank w1" "list_all http_blank w2"
    "CR \<notin> set v" "NUL \<notin> set v" "v \<noteq> [] \<longrightarrow> \<not> http_blank (hd v) \<and> \<not> http_blank (last v)"
    using assms by (auto simp: wf_field_def)
  have "\<not> http_token_char (asc (CHR '':''))" by (simp add: http_token_char_def http_alpha_def http_digit_def)
  then have colon: "run_len http_token_char (field_line (name, w1, v, w2)) = length name"
    using run_len_append [OF wf(2), of "asc (CHR '':'') # w1 @ v @ w2"] by simp
  have "CR \<notin> set w1" "CR \<notin> set w2" "NUL \<notin> set w1" "NUL \<notin> set w2"
    using wf(3,4) by (auto simp: list_all_iff http_blank_def)
  then show ?thesis using wf http_trim_value [OF wf(3,4,7)]
    unfolding http_split_header_def colon by (simp add: Let_def)
qed

lemma field_head_line: "wf_field f \<Longrightarrow> head_line (field_line f)"
proof -
  assume wf: "wf_field f"
  obtain name w1 v w2 where f: "f = (name, w1, v, w2)" by (metis prod_cases4)
  have "\<not> http_token_char LF" "\<not> http_blank LF" by (simp_all add: http_token_char_def http_alpha_def http_digit_def http_blank_def)
  then have "LF \<notin> set name" "LF \<notin> set w1" "LF \<notin> set w2" using wf f by (auto simp: wf_field_def list_all_iff)
  then show ?thesis using wf f by (simp add: head_line_def wf_field_def)
qed

lemma http_next_line_crlf: "LF \<notin> set l \<Longrightarrow> http_next_line (l @ CRLF @ t) = (l, t)"
proof -
  assume "LF \<notin> set l"
  then have "takeWhile (\<lambda>c. c \<noteq> LF) ((l @ [CR]) @ LF # t) = l @ [CR]" by (subst takeWhile_append2) auto
  then have "takeWhile (\<lambda>c. c \<noteq> LF) (l @ CRLF @ t) = l @ [CR]" by simp
  then show ?thesis unfolding http_next_line_def Let_def by simp
qed

text \<open>What the fields say about the body, in their order.\<close>

fun fields_frame :: "field list \<Rightarrow> u64 option \<Rightarrow> bool \<Rightarrow> inkwell_http_error + (u64 option \<times> bool)" where
  "fields_frame [] len chunked = Inr (len, chunked)"
| "fields_frame ((name, w1, v, w2) # fs) len chunked =
     (case http_field name v len chunked of Inl e \<Rightarrow> Inl e | Inr (len', chunked') \<Rightarrow> fields_frame fs len' chunked')"

lemma http_fields_loop_fields:
  "list_all wf_field fs \<Longrightarrow> http_fields_loop (head_text (map field_line fs) @ CRLF) len chunked = fields_frame fs len chunked"
proof (induction fs len chunked rule: fields_frame.induct)
  case (1 len chunked)
  have "http_next_line CRLF = ([], [])" using http_next_line_crlf [of "[]" "[]"] by simp
  then show ?case by (subst http_fields_loop.simps) simp
next
  case (2 name w1 v w2 fs len chunked)
  let ?f = "(name, w1, v, w2)"
  have wf: "wf_field ?f" "head_line (field_line ?f)" using 2(2) field_head_line by auto
  have next_line: "http_next_line (head_text (map field_line (?f # fs)) @ CRLF) = (field_line ?f, head_text (map field_line fs) @ CRLF)"
    using http_next_line_crlf [of "field_line ?f" "head_text (map field_line fs) @ CRLF"] wf(2) by (simp add: head_line_def)
  have ne: "head_text (map field_line (?f # fs)) @ CRLF \<noteq> []" "field_line ?f \<noteq> []" using wf(2) by (auto simp: head_line_def)
  show ?case
  proof (cases "http_field name v len chunked")
    case (Inl e)
    then show ?thesis using ne
      by (subst http_fields_loop.simps) (simp only: next_line prod.case if_False http_split_field [OF wf(1)] option.case sum.case fields_frame.simps)
  next
    case (Inr p)
    then show ?thesis using ne 2
      by (subst http_fields_loop.simps, cases p)
        (simp only: next_line prod.case if_False http_split_field [OF wf(1)] option.case sum.case fields_frame.simps list.pred_inject)
  qed
qed

section \<open>What the fields say\<close>

definition is_length :: "field \<Rightarrow> bool" where
  "is_length f = http_equal_nocase (fst f) (ascii ''content-length'')"

definition is_encoding :: "field \<Rightarrow> bool" where
  "is_encoding f = http_equal_nocase (fst f) (ascii ''transfer-encoding'')"

definition field_value :: "field \<Rightarrow> bytes" where
  "field_value f = fst (snd (snd f))"

text \<open>Every Content-Length says \<open>n\<close>, and at most one Transfer-Encoding says chunked.\<close>

definition framed :: "nat \<Rightarrow> field list \<Rightarrow> bool" where
  "framed n fs =
     (n \<le> 18446744073709551609 \<and>
      list_all (\<lambda>f. is_length f \<longrightarrow> field_value f \<noteq> [] \<and> list_all is_digit (field_value f) \<and> digits_value (field_value f) = n) fs \<and>
      list_all (\<lambda>f. is_encoding f \<longrightarrow> http_equal_nocase (field_value f) (ascii ''chunked'')) fs \<and>
      length (filter is_encoding fs) \<le> 1)"

lemma length_not_encoding: "is_length f \<Longrightarrow> \<not> is_encoding f"
  by (auto simp: is_length_def is_encoding_def http_equal_nocase_def)

lemma http_length_loop_digits:
  assumes "list_all is_digit ds" "unat v * 10 ^ length ds + digits_value ds \<le> 18446744073709551609"
  shows "http_length_loop v ds = Some (of_nat (unat v * 10 ^ length ds + digits_value ds))"
  using assms
proof (induction ds arbitrary: v)
  case (Cons c ds)
  have d: "is_digit c" "digit_val c < 10" using Cons.prems(1) digit_val_less by auto
  have split: "digits_value (c # ds) = digit_val c * 10 ^ length ds + digits_value ds"
    using digits_value_append [of "[c]" ds] by simp
  have eq: "unat v * 10 ^ length (c # ds) + digits_value (c # ds) = (unat v * 10 + digit_val c) * 10 ^ length ds + digits_value ds"
    unfolding split by (simp add: algebra_simps)
  have "(unat v * 10 + digit_val c) * 1 \<le> (unat v * 10 + digit_val c) * 10 ^ length ds" by (rule mult_le_mono2) simp
  also have "\<dots> \<le> unat v * 10 ^ length (c # ds) + digits_value (c # ds)" unfolding eq by (rule le_add1)
  also note Cons.prems(2)
  finally have small: "unat v * 10 + digit_val c \<le> 18446744073709551609" by simp
  then have "\<not> (- 1 - 9 :: u64) div 10 < v" by (simp add: word_less_nat_alt unat_div)
  moreover have c: "ucast (c - asc (CHR ''0'')) = (of_nat (digit_val c) :: u64)"
  proof -
    have "unat (c - asc (CHR ''0'')) = digit_val c" using d(1) by (simp add: digit_val_def is_digit_unat unat_sub word_le_nat_alt)
    then show ?thesis by (metis of_nat_unat)
  qed
  have v: "v * 10 + of_nat (digit_val c) = of_nat (unat v * 10 + digit_val c)" by simp
  have u: "unat (v * 10 + of_nat (digit_val c)) = unat v * 10 + digit_val c"
    unfolding v unat_of_nat using small by simp
  ultimately show ?case using Cons.IH [of "v * 10 + of_nat (digit_val c)"] Cons.prems d(1) unfolding eq
    by (simp add: http_digit_eq u c [simplified])
qed simp

lemma http_field_other: "\<not> is_length f \<Longrightarrow> \<not> is_encoding f \<Longrightarrow> http_field (fst f) v len chunked = Inr (len, chunked)"
  by (simp add: http_field_def is_length_def is_encoding_def)

lemma fields_frame_framed:
  assumes "framed n fs" "len = None \<or> len = Some (of_nat n)" "chunked \<longrightarrow> filter is_encoding fs = []"
  shows "fields_frame fs len chunked =
     Inr (if list_ex is_length fs then Some (of_nat n) else len, chunked \<or> list_ex is_encoding fs)"
  using assms
proof (induction fs arbitrary: len chunked)
  case (Cons f fs)
  obtain name w1 v w2 where f: "f = (name, w1, v, w2)" by (metis prod_cases4)
  have fr: "framed n fs" using Cons.prems(1) by (auto simp: framed_def split: if_splits)
  consider "is_length f" "\<not> is_encoding f" | "is_encoding f" "\<not> is_length f" | "\<not> is_length f" "\<not> is_encoding f"
    using length_not_encoding by blast
  then show ?case
  proof cases
    case 1
    then have v: "v \<noteq> []" "list_all is_digit v" "digits_value v = n" "n \<le> 18446744073709551609"
      using Cons.prems(1) f by (auto simp: framed_def field_value_def)
    then have "http_field name v len chunked = Inr (Some (of_nat n), chunked)"
      using http_length_loop_digits [of v 0] 1 f Cons.prems(2) by (auto simp: http_field_def is_length_def)
    then show ?thesis using Cons.IH [OF fr, of "Some (of_nat n)" chunked] Cons.prems(3) 1 f by simp
  next
    case 2
    then have nil: "filter is_encoding fs = []" using Cons.prems(1) by (simp add: framed_def)
    have "http_equal_nocase v (ascii ''chunked'')" using Cons.prems(1) 2 f by (simp add: framed_def field_value_def)
    then have "http_field name v len chunked = Inr (len, True)"
      using 2 f Cons.prems(3) by (auto simp: http_field_def is_length_def is_encoding_def)
    then show ?thesis using Cons.IH [OF fr Cons.prems(2), of True] nil 2 f by simp
  next
    case 3
    then have "http_field name v len chunked = Inr (len, chunked)" using http_field_other [of f] f by simp
    then show ?thesis using Cons.IH [OF fr Cons.prems(2), of chunked] Cons.prems(3) 3 f by simp
  qed
qed simp

section \<open>Status lines\<close>

definition status_line :: "u8 \<Rightarrow> nat \<Rightarrow> bytes \<Rightarrow> bytes" where
  "status_line minor status reason = ascii ''HTTP/1.'' @ minor # SPC # decimal status @ reason"

definition wf_status :: "u8 \<Rightarrow> nat \<Rightarrow> bytes \<Rightarrow> bool" where
  "wf_status minor status reason =
     (is_digit minor \<and> 200 \<le> status \<and> status < 1000 \<and> (reason = [] \<or> hd reason = SPC) \<and> LF \<notin> set reason)"

lemma decimal_three:
  assumes "100 \<le> n" "n < 1000"
  shows "decimal n = [of_nat (48 + n div 100), of_nat (48 + n div 10 mod 10), of_nat (48 + n mod 10)]"
proof -
  have "decimal (n div 100) = [of_nat (48 + n div 100)]" using assms by (subst decimal.simps) (simp del: of_nat_add)
  moreover have "decimal (n div 10) = decimal (n div 100) @ [of_nat (48 + n div 10 mod 10)]"
    using assms by (subst decimal.simps) (simp add: div_mult2_eq [symmetric] del: of_nat_add)
  moreover have "decimal n = decimal (n div 10) @ [of_nat (48 + n mod 10)]"
    using assms by (subst decimal.simps) (simp del: of_nat_add)
  ultimately show ?thesis by simp
qed

lemma digit_minus: "n < 10 \<Longrightarrow> unat ((of_nat (48 + n) :: u8) - 48) = n"
  by (simp add: unat_of_nat)

lemma http_status_line_ok:
  assumes "wf_status minor status reason"
  shows "http_status_line (status_line minor status reason) = Some status" "head_line (status_line minor status reason)"
proof -
  have wf: "is_digit minor" "100 \<le> status" "status < 1000" "reason = [] \<or> hd reason = SPC" "LF \<notin> set reason"
    using assms by (auto simp: wf_status_def)
  define a b c where "a = status div 100" and "b = status div 10 mod 10" and "c = status mod 10"
  have lt: "a < 10" "b < 10" "c < 10" using wf(3) by (auto simp: a_def b_def c_def)
  have sum: "a * 100 + b * 10 + c = status"
  proof -
    have "status div 100 = status div 10 div 10" by (simp add: div_mult2_eq [symmetric])
    then show ?thesis unfolding a_def b_def c_def
      using div_mult_mod_eq [of status 10] div_mult_mod_eq [of "status div 10" 10] by linarith
  qed
  define x y z :: u8 where "x = of_nat (48 + a)" and "y = of_nat (48 + b)" and "z = of_nat (48 + c)"
  have line: "status_line minor status reason = ascii ''HTTP/1.'' @ minor # SPC # x # y # z # reason"
    using decimal_three [OF wf(2,3)] by (simp add: status_line_def a_def b_def c_def x_def y_def z_def del: of_nat_add)
  have dig: "http_digit x" "http_digit y" "http_digit z" "http_digit minor"
    using digit_char lt wf(1) by (simp_all add: http_digit_eq x_def y_def z_def del: of_nat_add)
  have vals: "unat (x - 48) = a" "unat (y - 48) = b" "unat (z - 48) = c"
    using digit_minus lt by (simp_all add: x_def y_def z_def del: of_nat_add)
  show "http_status_line (status_line minor status reason) = Some status"
    unfolding line http_status_line_def using dig vals sum wf(4) by (cases reason) auto
  have "LF \<notin> {minor, x, y, z}" using dig by (auto simp: http_digit_def)
  then show "head_line (status_line minor status reason)" unfolding line head_line_def using wf(5) by simp
qed

section \<open>Whole heads\<close>

definition response_head :: "u8 \<Rightarrow> nat \<Rightarrow> bytes \<Rightarrow> field list \<Rightarrow> bytes" where
  "response_head minor status reason fs = head_text (status_line minor status reason # map field_line fs) @ CRLF"

text \<open>The parser after a head, on the two framings that carry their own end.\<close>

lemma http_run_response_head:
  assumes "wf_status minor status reason" "list_all wf_field fs" "framed n fs"
    "length (response_head minor status reason fs) < http_head_max"
  shows "http_run (inkwell_http_response_init head_request) (response_head minor status reason fs)
     = ([], http_frame_body status (if list_ex is_length fs then Some (of_nat n) else None) (list_ex is_encoding fs)
         ((inkwell_http_response_init head_request)\<lparr>r_head := response_head minor status reason fs\<rparr>))"
proof -
  let ?ls = "status_line minor status reason # map field_line fs"
  let ?init = "inkwell_http_response_init head_request"
  have ls: "list_all head_line ?ls" using http_status_line_ok(2) [OF assms(1)] assms(2) field_head_line by (auto simp: list_all_iff)
  have next_line: "http_next_line (head_text ?ls @ CRLF) = (status_line minor status reason, head_text (map field_line fs) @ CRLF)"
    using http_next_line_crlf [of "status_line minor status reason" "head_text (map field_line fs) @ CRLF"] http_status_line_ok(2) [OF assms(1)]
    by (simp add: head_line_def)
  have "200 \<le> status" using assms(1) by (simp add: wf_status_def)
  then have "http_parse_head (?init\<lparr>r_head := head_text ?ls @ CRLF\<rparr>)
      = (True, http_frame_body status (if list_ex is_length fs then Some (of_nat n) else None) (list_ex is_encoding fs)
          (?init\<lparr>r_head := head_text ?ls @ CRLF\<rparr>))"
    unfolding http_parse_head_def
    by (simp add: next_line [simplified] http_status_line_ok(1) [OF assms(1)] http_fields_loop_fields [OF assms(2), simplified] fields_frame_framed [OF assms(3)])
  moreover have "r_phase ?init = PHASE_HEAD" "r_line_len ?init = 0" "r_head ?init = []" by (simp_all add: inkwell_http_response_init_def)
  ultimately show ?thesis using http_run_head [of ?init ?ls] ls assms(4) unfolding response_head_def by simp
qed

section \<open>Connections cut short\<close>

lemma http_run_until_close_phase:
  "r_phase r = PHASE_UNTIL_CLOSE \<Longrightarrow> r_phase (snd (http_run r t)) = PHASE_UNTIL_CLOSE"
  by (simp add: http_run_until_close)

text \<open>A response that ends with its last byte is not accepted before it.\<close>

lemma http_cut_short:
  assumes whole: "r_phase (snd (http_run s (t @ [c]))) = PHASE_DONE" and before: "\<not> http_over (snd (http_run s t))"
    and part: "strict_prefix part (t @ [c])"
  shows "\<not> fst (inkwell_http_response_finish (snd (http_run s part)))"
proof -
  have "prefix part t" using part by (auto simp: strict_prefix_def)
  then obtain u where u: "t = part @ u" by (auto simp: prefix_def)
  obtain b r where r: "http_run s part = (b, r)" by force
  have rest: "snd (http_run s (part @ v)) = snd (http_run r v)" for v
    using r by (simp add: byte_run_append split: prod.split)
  have "\<not> http_over r" using before http_run_over [of r u] rest [of u] u by auto
  moreover have "r_phase r \<noteq> PHASE_UNTIL_CLOSE"
    using whole rest [of "u @ [c]"] http_run_until_close_phase [of r "u @ [c]"] u by auto
  ultimately show ?thesis using r by (auto simp: inkwell_http_response_finish_def http_over_def)
qed

lemma http_run_response_head_cr:
  assumes "wf_status minor status reason" "list_all wf_field fs" "length (response_head minor status reason fs) < http_head_max"
  shows "r_phase (snd (http_run (inkwell_http_response_init head_request) (butlast (response_head minor status reason fs)))) = PHASE_HEAD"
proof -
  let ?ls = "status_line minor status reason # map field_line fs"
  have "list_all head_line ?ls" using http_status_line_ok(2) [OF assms(1)] assms(2) field_head_line by (auto simp: list_all_iff)
  moreover have "butlast (response_head minor status reason fs) = head_text ?ls @ [CR]" by (simp add: response_head_def butlast_append)
  ultimately show ?thesis
    using http_run_head_cr [of "inkwell_http_response_init head_request" ?ls] assms(3) unfolding response_head_def
    by (simp add: inkwell_http_response_init_def)
qed

section \<open>Header fields\<close>

lemma http_header_loop_fields:
  "list_all wf_field fs \<Longrightarrow>
   http_header_loop name (head_text (map field_line fs) @ CRLF) = map_option field_value (find (\<lambda>f. http_equal_nocase (fst f) name) fs)"
proof (induction fs)
  case Nil
  have "http_next_line CRLF = ([], [])" using http_next_line_crlf [of "[]" "[]"] by simp
  then show ?case by (subst http_header_loop.simps) simp
next
  case (Cons f fs)
  obtain n w1 v w2 where f: "f = (n, w1, v, w2)" by (metis prod_cases4)
  have wf: "wf_field (n, w1, v, w2)" "head_line (field_line f)" using Cons.prems field_head_line f by auto
  have next_line: "http_next_line (head_text (map field_line (f # fs)) @ CRLF) = (field_line f, head_text (map field_line fs) @ CRLF)"
    using http_next_line_crlf [of "field_line f" "head_text (map field_line fs) @ CRLF"] wf(2) by (simp add: head_line_def)
  have ne: "head_text (map field_line (f # fs)) @ CRLF \<noteq> []" "field_line f \<noteq> []" using wf(2) by (auto simp: head_line_def)
  have split: "http_split_header (field_line f) = Some (n, v)" using http_split_field [OF wf(1)] f by simp
  show ?case using ne Cons
    by (subst http_header_loop.simps) (simp only: next_line prod.case if_False split option.case, simp add: f field_value_def [of "(n, w1, v, w2)"])
qed

lemma http_response_header_fields:
  assumes "wf_status minor status reason" "list_all wf_field fs" "r_head r = response_head minor status reason fs" "r_status r \<noteq> 0"
  shows "inkwell_http_response_header r (Some name) = map_option field_value (find (\<lambda>f. http_equal_nocase (fst f) name) fs)"
proof -
  have "http_next_line (r_head r) = (status_line minor status reason, head_text (map field_line fs) @ CRLF)"
    using http_next_line_crlf [of "status_line minor status reason" "head_text (map field_line fs) @ CRLF"] http_status_line_ok(2) [OF assms(1)]
    by (simp add: head_line_def assms(3) response_head_def)
  then show ?thesis using http_header_loop_fields [OF assms(2), of name] assms(4)
    by (simp add: inkwell_http_response_header_def inkwell_http_response_head_done_def)
qed

text \<open>No part of a response with a known length is accepted for the whole.\<close>

lemma http_length_cut:
  assumes "wf_status minor status reason" "list_all wf_field fs" "length (response_head minor status reason fs) < http_head_max"
    and h: "http_run (inkwell_http_response_init False) (response_head minor status reason fs) = ([], r1)"
    and r1: "body \<noteq> [] \<Longrightarrow> r_phase r1 = PHASE_LENGTH" "unat (r_remaining r1) = length body"
    and whole: "r_phase (snd (http_run (inkwell_http_response_init False) (response_head minor status reason fs @ body))) = PHASE_DONE"
    and part: "strict_prefix part (response_head minor status reason fs @ body)"
  shows "\<not> fst (inkwell_http_response_finish (snd (http_run (inkwell_http_response_init False) part)))"
proof -
  let ?init = "inkwell_http_response_init False"
  let ?t = "response_head minor status reason fs @ body"
  have "?t \<noteq> []" by (simp add: response_head_def)
  then have t: "?t = butlast ?t @ [last ?t]" by (rule append_butlast_last_id [symmetric])
  have "\<not> http_over (snd (http_run ?init (butlast ?t)))"
  proof (cases body rule: rev_cases)
    case Nil
    then show ?thesis using http_run_response_head_cr [OF assms(1-3), of False] by (simp add: http_over_def)
  next
    case (snoc body' c)
    have "\<not> http_over (snd (http_run r1 body'))"
    proof (cases "body' = []")
      case False
      have "r_remaining r1 = of_nat (length body)" using r1(2) by (metis of_nat_unat ucast_id)
      then have "r_remaining r1 - of_nat (length body') = 1" by (simp add: snoc)
      then show ?thesis using http_run_body [of r1 body'] r1 False snoc by (auto simp: http_take_body_def http_over_def Let_def)
    qed (use r1(1) snoc in \<open>simp add: http_over_def\<close>)
    then show ?thesis using h snoc by (simp add: butlast_append byte_run_append split: prod.split_asm prod.split)
  qed
  then show ?thesis using http_cut_short [of ?init "butlast ?t" "last ?t" part] whole part t by simp
qed

text \<open>
  C17. A response whose head says how long its body is, in any number of agreeing Content-Length fields among
  others, is read whole: the body handed out is the body sent, byte for byte and however the bytes were cut,
  the response is done at its last byte, and what follows on the connection is left alone.
\<close>

theorem http_response_with_length:
  assumes "wf_status minor status reason" "status \<noteq> 204" "status \<noteq> 304" "list_all wf_field fs"
    "framed (length body) fs" "list_ex is_length fs" "\<not> list_ex is_encoding fs"
    "length (response_head minor status reason fs) < http_head_max"
    "concat pieces = response_head minor status reason fs @ body @ extra"
  shows "case drive_pieces inkwell_http_response_feed (inkwell_http_response_init False) pieces of (got, r) \<Rightarrow>
     got = body \<and> inkwell_http_response_done r \<and> r_status r = status \<and> r_framing r = FRAMING_LENGTH
     \<and> r_content_length r = of_nat (length body) \<and> r_body_received r = of_nat (length body) \<and> r_error r = HTTP_OK
     \<and> (\<forall>name. inkwell_http_response_header r (Some name) = map_option field_value (find (\<lambda>f. http_equal_nocase (fst f) name) fs))
     \<and> (\<forall>part. strict_prefix part (response_head minor status reason fs @ body) \<longrightarrow>
           \<not> fst (inkwell_http_response_finish (snd (drive inkwell_http_response_feed (inkwell_http_response_init False) part))))"
proof -
  let ?init = "inkwell_http_response_init False"
  define r1 where "r1 = http_frame_body status (Some (of_nat (length body))) False (?init\<lparr>r_head := response_head minor status reason fs\<rparr>)"
  have small: "length body \<le> 18446744073709551609" using assms(5) by (simp add: framed_def)
  then have n: "unat (of_nat (length body) :: u64) = length body" unfolding unat_of_nat by simp
  have r1: "r_phase r1 = (if length body = 0 then PHASE_DONE else PHASE_LENGTH)" "r_remaining r1 = of_nat (length body)"
    "r_body_received r1 = 0" "r_status r1 = status" "r_framing r1 = FRAMING_LENGTH" "r_content_length r1 = of_nat (length body)" "r_error r1 = HTTP_OK"
    "r_head r1 = response_head minor status reason fs"
    using assms(2,3) n by (auto simp: r1_def http_frame_body_def Let_def inkwell_http_response_init_def unat_eq_0 [symmetric])
  define r2 where "r2 = (if body = [] then r1 else http_take_body (length body) r1)"
  have r2: "r_phase r2 = PHASE_DONE" "r_body_received r2 = of_nat (length body)" "r_status r2 = status" "r_framing r2 = FRAMING_LENGTH"
    "r_content_length r2 = of_nat (length body)" "r_error r2 = HTTP_OK" "r_head r2 = response_head minor status reason fs"
    using r1 by (auto simp: r2_def http_take_body_def Let_def)
  have b: "http_run r1 body = (body, r2)"
    using http_run_body [of r1 body] r1(1,2) n by (cases "body = []") (auto simp: r2_def)
  have o: "http_run r2 extra = ([], r2)" using http_run_over [of r2] r2(1) by (simp add: http_over_def)
  have h: "http_run ?init (response_head minor status reason fs) = ([], r1)"
    using http_run_response_head [OF assms(1,4,5,8), of False] assms(6,7) by (simp add: r1_def)
  have all: "http_run ?init (concat pieces) = ([] @ (body @ []), r2)"
    unfolding assms(9) by (rule byte_run_append_eq [OF h byte_run_append_eq [OF b o]])
  have "r_phase (snd (http_run ?init (response_head minor status reason fs @ body))) = PHASE_DONE"
    using byte_run_append_eq [OF h b] r2(1) by simp
  then have "\<not> fst (inkwell_http_response_finish (snd (http_run ?init part)))" if "strict_prefix part (response_head minor status reason fs @ body)" for part
    using http_length_cut [OF assms(1,4,8) h] r1(1,2) n that by simp
  then show ?thesis using r2 all http.drive_pieces_run [OF http_inv_init, of False pieces] http.drive_run [OF http_inv_init, of False]
      http_response_header_fields [OF assms(1,4) r2(7)] assms(1)
    by (simp add: inkwell_http_response_done_def wf_status_def)
qed

section \<open>Chunks\<close>

definition hex_value :: "bytes \<Rightarrow> nat" where
  "hex_value hs = foldl (\<lambda>v c. v * 16 + the (http_hex c)) 0 hs"

lemma hex_value_foldl: "foldl (\<lambda>v c. v * 16 + the (http_hex c)) v hs = v * 16 ^ length hs + hex_value hs"
proof (induction hs arbitrary: v)
  case (Cons c hs)
  have "hex_value (c # hs) = the (http_hex c) * 16 ^ length hs + hex_value hs"
    using Cons.IH [of "the (http_hex c)"] by (simp add: hex_value_def)
  then show ?case using Cons.IH [of "v * 16 + the (http_hex c)"] by (simp add: algebra_simps)
qed (simp add: hex_value_def)

lemma hex_value_Cons: "hex_value (c # hs) = the (http_hex c) * 16 ^ length hs + hex_value hs"
  using hex_value_foldl [of "the (http_hex c)" hs] by (simp add: hex_value_def)

lemma http_hex_less: "http_hex c = Some d \<Longrightarrow> d < 16"
proof -
  assume h: "http_hex c = Some d"
  have "unat (c - asc (CHR ''0'')) < 10" if "http_digit c" using that by (auto simp: http_digit_def unat_sub word_le_nat_alt)
  moreover have "unat (x - asc (CHR ''a'')) < 6" if "asc (CHR ''a'') \<le> x" "x \<le> asc (CHR ''f'')" for x :: u8
    using that by (auto simp: unat_sub word_le_nat_alt)
  ultimately show ?thesis using h by (force simp: http_hex_def Let_def split: if_splits)
qed

lemma http_chunk_size_loop_digits:
  assumes "list_all (\<lambda>c. http_hex c \<noteq> None) hs" "unat v * 16 ^ length hs + hex_value hs < 2 ^ 64" "t = [] \<or> http_hex (hd t) = None"
  shows "http_chunk_size_loop v (hs @ t) = Some (of_nat (unat v * 16 ^ length hs + hex_value hs), t)"
  using assms
proof (induction hs arbitrary: v)
  case Nil
  then show ?case by (cases t) (auto simp: hex_value_def)
next
  case (Cons c hs)
  obtain d where d: "http_hex c = Some d" "d < 16" using Cons.prems(1) http_hex_less by auto
  have eq: "unat v * 16 ^ length (c # hs) + hex_value (c # hs) = (unat v * 16 + d) * 16 ^ length hs + hex_value hs"
    using d by (simp add: hex_value_Cons algebra_simps)
  have "(unat v * 16 + d) * 1 \<le> (unat v * 16 + d) * 16 ^ length hs" by (rule mult_le_mono2) simp
  also have "\<dots> \<le> unat v * 16 ^ length (c # hs) + hex_value (c # hs)" unfolding eq by (rule le_add1)
  also note Cons.prems(2)
  finally have small: "unat v * 16 + d < 2 ^ 64" by simp
  have "(drop_bit 4 (- 1) :: u64) = 0xFFFFFFFFFFFFFFF" by (simp add: mask_eq_exp_minus_1)
  then have "\<not> drop_bit 4 (- 1) < v" using small by (simp add: word_less_nat_alt)
  moreover have "unat (of_nat d :: u64) = d" using d(2) unfolding unat_of_nat by simp
  then have u: "unat (push_bit 4 v OR of_nat d) = unat v * 16 + d"
    using unat_push_or [of v 4 "of_nat d"] small d(2) by simp
  ultimately show ?case using Cons.IH [of "push_bit 4 v OR of_nat d"] Cons.prems d(1) unfolding eq u by simp
qed

text \<open>A chunk: its size in hexadecimal, extensions and data.\<close>

type_synonym chunk = "bytes \<times> bytes \<times> bytes"

definition wf_chunk_line :: "nat \<Rightarrow> bytes \<Rightarrow> bytes \<Rightarrow> bool" where
  "wf_chunk_line n hs ext =
     (hs \<noteq> [] \<and> list_all (\<lambda>c. http_hex c \<noteq> None) hs \<and> hex_value hs = n \<and> n < 2 ^ 64
      \<and> (case dropWhile http_blank ext of [] \<Rightarrow> True | c # _ \<Rightarrow> c = asc (CHR '';''))
      \<and> CR \<notin> set ext \<and> LF \<notin> set ext \<and> NUL \<notin> set ext \<and> length hs + length ext + 1 < http_chunk_line_max)"

lemma http_chunk_line_size_ok: "wf_chunk_line n hs ext \<Longrightarrow> http_chunk_line_size (hs @ ext) = Some (of_nat n)"
proof -
  assume wf: "wf_chunk_line n hs ext"
  have "ext = [] \<or> http_hex (hd ext) = None"
  proof (cases ext)
    case (Cons c e)
    have "http_blank c \<or> c = asc (CHR '';'')" using wf Cons by (auto simp: wf_chunk_line_def split: if_splits)
    then show ?thesis using Cons by (auto simp: http_blank_def http_hex_def http_digit_def http_lower_def Let_def)
  qed simp
  then have "http_chunk_size_loop 0 (hs @ ext) = Some (of_nat n, ext)"
    using http_chunk_size_loop_digits [of hs 0 ext] wf by (simp add: wf_chunk_line_def)
  moreover have "CR \<notin> set (dropWhile http_blank ext)" "NUL \<notin> set (dropWhile http_blank ext)"
    using wf by (auto simp: wf_chunk_line_def dest: set_dropWhileD)
  moreover have "dropWhile http_blank ext \<noteq> [] \<Longrightarrow> dropWhile http_blank ext ! 0 = asc (CHR '';'')"
    using wf by (cases "dropWhile http_blank ext") (auto simp: wf_chunk_line_def)
  moreover have "length ext \<noteq> length (hs @ ext)" using wf by (simp add: wf_chunk_line_def)
  ultimately show ?thesis unfolding http_chunk_line_size_def Let_def by (simp only: option.case prod.case if_False) auto
qed

lemma http_run_chunk_text:
  assumes "r_phase r = PHASE_CHUNK_SIZE" "LF \<notin> set l" "length (r_chunk_line r) + length l < http_chunk_line_max"
  shows "http_run r l = ([], r\<lparr>r_chunk_line := r_chunk_line r @ l\<rparr>)"
  using assms
proof (induction l arbitrary: r)
  case (Cons c l)
  have "http_byte r c = ([], r\<lparr>r_chunk_line := r_chunk_line r @ [c]\<rparr>)"
    using Cons.prems by (auto simp: http_byte_def http_control_byte_def http_chunk_size_byte_def)
  then show ?case using Cons.IH [of "r\<lparr>r_chunk_line := r_chunk_line r @ [c]\<rparr>"] Cons.prems by simp
qed simp

lemma http_run_chunk_line:
  assumes "r_phase r = PHASE_CHUNK_SIZE" "r_chunk_line r = []" "wf_chunk_line n hs ext"
  shows "http_run r (hs @ ext @ CRLF) = ([], if n = 0 then r\<lparr>r_phase := PHASE_TRAILER, r_line_len := 0, r_trailer_len := 0\<rparr>
     else r\<lparr>r_phase := PHASE_CHUNK_DATA, r_remaining := of_nat n\<rparr>)"
proof -
  let ?c = "r\<lparr>r_chunk_line := (hs @ ext) @ [CR]\<rparr>"
  have "\<not> http_hex LF \<noteq> None" by (simp add: http_hex_def http_digit_def http_lower_def Let_def)
  then have lf: "LF \<notin> set hs" using assms(3) unfolding wf_chunk_line_def list_all_iff by blast
  then have run: "http_run r ((hs @ ext) @ [CR]) = ([], ?c)"
    using http_run_chunk_text [of r "(hs @ ext) @ [CR]"] assms by (simp add: wf_chunk_line_def)
  have "n < 2 ^ 64" using assms(3) by (simp add: wf_chunk_line_def)
  then have "(of_nat n :: u64) = 0 \<longleftrightarrow> n = 0" by (simp add: word_unat_eq_iff unat_of_nat)
  moreover have "?c\<lparr>r_chunk_line := []\<rparr> = r" using assms(2) by simp
  ultimately have "http_run ?c [LF] = ([], if n = 0 then r\<lparr>r_phase := PHASE_TRAILER, r_line_len := 0, r_trailer_len := 0\<rparr>
      else r\<lparr>r_phase := PHASE_CHUNK_DATA, r_remaining := of_nat n\<rparr>)"
    using assms(1) http_chunk_line_size_ok [OF assms(3)]
    by (auto simp: http_byte_def http_control_byte_def http_chunk_size_byte_def Let_def butlast_append)
  from byte_run_append_eq [OF run this] show ?thesis by simp
qed

fun chunk_text :: "chunk \<Rightarrow> bytes" where
  "chunk_text (hs, ext, data) = hs @ ext @ CRLF @ data @ CRLF"

definition wf_chunk :: "chunk \<Rightarrow> bool" where
  "wf_chunk ch = (case ch of (hs, ext, data) \<Rightarrow> data \<noteq> [] \<and> wf_chunk_line (length data) hs ext)"

definition chunk_data :: "chunk \<Rightarrow> bytes" where
  "chunk_data ch = snd (snd ch)"

lemma http_run_chunk:
  assumes "r_phase r = PHASE_CHUNK_SIZE" "r_chunk_line r = []" "wf_chunk ch"
  shows "http_run r (chunk_text ch)
     = (chunk_data ch, r\<lparr>r_remaining := 0, r_body_received := r_body_received r + of_nat (length (chunk_data ch))\<rparr>)"
proof -
  obtain hs ext data where ch: "ch = (hs, ext, data)" by (metis prod_cases3)
  let ?n = "length data"
  let ?d = "r\<lparr>r_phase := PHASE_CHUNK_DATA, r_remaining := of_nat ?n\<rparr>"
  let ?e = "?d\<lparr>r_remaining := 0, r_body_received := r_body_received r + of_nat ?n, r_phase := PHASE_CHUNK_END\<rparr>"
  let ?f = "r\<lparr>r_remaining := 0, r_body_received := r_body_received r + of_nat ?n\<rparr>"
  have data: "data \<noteq> []" "wf_chunk_line ?n hs ext" using assms(3) ch by (auto simp: wf_chunk_def)
  have "?n < 2 ^ 64" using data(2) by (simp add: wf_chunk_line_def)
  then have n: "unat (of_nat ?n :: u64) = ?n" unfolding unat_of_nat by simp
  have 1: "http_run r (hs @ ext @ CRLF) = ([], ?d)" using http_run_chunk_line [OF assms(1,2) data(2)] data(1) by simp
  have 2: "http_run ?d data = (data, ?e)"
    using http_run_body [of ?d data] data(1) n by (simp add: http_take_body_def)
  have "r\<lparr>r_phase := PHASE_CHUNK_SIZE\<rparr> = r" using assms(1) by simp
  then have 3: "http_run ?e CRLF = ([], ?f)"
    using assms(1) by (simp add: http_byte_def http_control_byte_def http_chunk_end_byte_def http_chunk_end_lf_byte_def)
  from byte_run_append_eq [OF 1 byte_run_append_eq [OF 2 3]] show ?thesis by (simp add: ch chunk_data_def)
qed

lemma http_run_chunks:
  assumes "r_phase r = PHASE_CHUNK_SIZE" "r_chunk_line r = []" "list_all wf_chunk chs"
  shows "\<exists>rem. http_run r (concat (map chunk_text chs))
     = (concat (map chunk_data chs), r\<lparr>r_remaining := rem, r_body_received := r_body_received r + of_nat (length (concat (map chunk_data chs)))\<rparr>)"
  using assms
proof (induction chs arbitrary: r)
  case Nil
  then show ?case by (intro exI [of _ "r_remaining r"]) simp
next
  case (Cons ch chs)
  let ?r = "r\<lparr>r_remaining := 0, r_body_received := r_body_received r + of_nat (length (chunk_data ch))\<rparr>"
  have 1: "http_run r (chunk_text ch) = (chunk_data ch, ?r)" using http_run_chunk Cons.prems by simp
  obtain rem where 2: "http_run ?r (concat (map chunk_text chs)) = (concat (map chunk_data chs),
      ?r\<lparr>r_remaining := rem, r_body_received := r_body_received ?r + of_nat (length (concat (map chunk_data chs)))\<rparr>)"
    using Cons.IH [of ?r] Cons.prems by auto
  from byte_run_append_eq [OF 1 2] show ?case by (intro exI [of _ rem]) (simp add: add.assoc)
qed

lemma http_run_trailer_text:
  assumes "r_phase r = PHASE_TRAILER" "LF \<notin> set l" "r_trailer_len r + length l < http_head_max"
  shows "http_run r l = ([], r\<lparr>r_trailer_len := r_trailer_len r + length l, r_line_len := r_line_len r + length l,
     r_line_cr := (if l = [] then r_line_cr r else last l = CR)\<rparr>)"
  using assms
proof (induction l arbitrary: r)
  case (Cons c l)
  let ?r = "r\<lparr>r_trailer_len := r_trailer_len r + 1, r_line_len := r_line_len r + 1, r_line_cr := (c = CR)\<rparr>"
  have "http_byte r c = ([], ?r)"
    using Cons.prems by (auto simp: http_byte_def http_control_byte_def http_trailer_byte_def Let_def)
  then show ?case using Cons.IH [of ?r] Cons.prems by simp
qed simp

lemma http_run_trailer_line:
  assumes "r_phase r = PHASE_TRAILER" "LF \<notin> set l" "r_trailer_len r + length l + 2 < http_head_max" "r_line_len r = 0"
  shows "http_run r (l @ CRLF) = ([], r\<lparr>r_trailer_len := r_trailer_len r + length l + 2, r_line_cr := True,
     r_phase := (if l = [] then PHASE_DONE else PHASE_TRAILER)\<rparr>)"
proof -
  let ?c = "r\<lparr>r_trailer_len := r_trailer_len r + length l + 1, r_line_len := length l + 1, r_line_cr := True\<rparr>"
  have 1: "http_run r (l @ [CR]) = ([], ?c)" using http_run_trailer_text [of r "l @ [CR]"] assms by simp
  have 2: "http_run ?c [LF] = ([], r\<lparr>r_trailer_len := r_trailer_len r + length l + 2, r_line_cr := True,
      r_phase := (if l = [] then PHASE_DONE else PHASE_TRAILER)\<rparr>)"
    using assms by (auto simp: http_byte_def http_control_byte_def http_trailer_byte_def Let_def)
  from byte_run_append_eq [OF 1 2] show ?thesis by simp
qed

lemma http_run_trailers:
  assumes "r_phase r = PHASE_TRAILER" "list_all head_line ls" "r_trailer_len r + length (head_text ls @ CRLF) < http_head_max" "r_line_len r = 0"
  shows "\<exists>n. http_run r (head_text ls @ CRLF) = ([], r\<lparr>r_trailer_len := n, r_line_cr := True, r_phase := PHASE_DONE\<rparr>)"
  using assms
proof (induction ls arbitrary: r)
  case Nil
  then show ?case using http_run_trailer_line [of r "[]"] by (intro exI [of _ "r_trailer_len r + 2"]) simp
next
  case (Cons l ls)
  let ?r = "r\<lparr>r_trailer_len := r_trailer_len r + length l + 2, r_line_cr := True, r_phase := PHASE_TRAILER\<rparr>"
  have 1: "http_run r (l @ CRLF) = ([], ?r)" using http_run_trailer_line [of r l] Cons.prems by (simp add: head_line_def)
  obtain n where 2: "http_run ?r (head_text ls @ CRLF) = ([], ?r\<lparr>r_trailer_len := n, r_line_cr := True, r_phase := PHASE_DONE\<rparr>)"
    using Cons.IH [of ?r] Cons.prems by auto
  from byte_run_append_eq [OF 1 2] show ?case by (intro exI [of _ n]) simp
qed

lemma http_run_trailers_cr:
  assumes "r_phase r = PHASE_TRAILER" "list_all head_line ls" "r_trailer_len r + length (head_text ls @ CRLF) < http_head_max" "r_line_len r = 0"
  shows "r_phase (snd (http_run r (head_text ls @ [CR]))) = PHASE_TRAILER"
  using assms
proof (induction ls arbitrary: r)
  case Nil
  then show ?case using http_run_trailer_text [of r "[CR]"] by simp
next
  case (Cons l ls)
  let ?r = "r\<lparr>r_trailer_len := r_trailer_len r + length l + 2, r_line_cr := True, r_phase := PHASE_TRAILER\<rparr>"
  have 1: "http_run r (l @ CRLF) = ([], ?r)" using http_run_trailer_line [of r l] Cons.prems by (simp add: head_line_def)
  have "r_phase (snd (http_run ?r (head_text ls @ [CR]))) = PHASE_TRAILER" using Cons.IH [of ?r] Cons.prems by auto
  then show ?case using byte_run_append [of http_byte r "l @ CRLF" "head_text ls @ [CR]"] 1 by (simp split: prod.split_asm)
qed

definition chunked_body :: "chunk list \<Rightarrow> bytes \<Rightarrow> bytes \<Rightarrow> bytes list \<Rightarrow> bytes" where
  "chunked_body chs hs ext trailers = concat (map chunk_text chs) @ (hs @ ext @ CRLF) @ head_text trailers @ CRLF"

text \<open>The parser over a chunked body: what it hands out, that it is done at the last byte and not before it.\<close>

lemma http_run_chunked_body:
  assumes "r_phase r = PHASE_CHUNK_SIZE" "r_chunk_line r = []" "r_body_received r = 0" "list_all wf_chunk chs" "wf_chunk_line 0 hs ext"
    "list_all head_line trailers" "length (head_text trailers @ CRLF) < http_head_max"
  obtains r' where "http_run r (chunked_body chs hs ext trailers) = (concat (map chunk_data chs), r')" "r_phase r' = PHASE_DONE"
    "r_status r' = r_status r" "r_framing r' = r_framing r" "r_error r' = r_error r" "r_body_received r' = of_nat (length (concat (map chunk_data chs)))"
    "\<not> http_over (snd (http_run r (butlast (chunked_body chs hs ext trailers))))"
proof -
  let ?body = "concat (map chunk_data chs)"
  obtain rem where c: "http_run r (concat (map chunk_text chs)) = (?body, r\<lparr>r_remaining := rem, r_body_received := of_nat (length ?body)\<rparr>)"
    using http_run_chunks [OF assms(1,2,4)] assms(3) by auto
  define r2 where "r2 = r\<lparr>r_remaining := rem, r_body_received := of_nat (length ?body)\<rparr>"
  define r3 where "r3 = r2\<lparr>r_phase := PHASE_TRAILER, r_line_len := 0, r_trailer_len := 0\<rparr>"
  note c = c [folded r2_def]
  have l: "http_run r2 (hs @ ext @ CRLF) = ([], r3)"
    using http_run_chunk_line [of r2, OF _ _ assms(5)] assms(1,2) by (simp add: r2_def r3_def)
  obtain k where t: "http_run r3 (head_text trailers @ CRLF) = ([], r3\<lparr>r_trailer_len := k, r_line_cr := True, r_phase := PHASE_DONE\<rparr>)"
    using http_run_trailers [of r3 trailers] assms(6,7) by (auto simp: r3_def)
  obtain b' r' where t': "http_run r3 (head_text trailers @ [CR]) = (b', r')" by force
  have "butlast (chunked_body chs hs ext trailers) = concat (map chunk_text chs) @ (hs @ ext @ CRLF) @ head_text trailers @ [CR]"
    by (simp add: chunked_body_def butlast_append)
  then have "snd (http_run r (butlast (chunked_body chs hs ext trailers))) = r'"
    using byte_run_append_eq [OF c byte_run_append_eq [OF l t']] by simp
  moreover have "r_phase r' = PHASE_TRAILER" using t' http_run_trailers_cr [of r3 trailers] assms(6,7) by (auto simp: r3_def)
  moreover have "http_run r (chunked_body chs hs ext trailers) = (?body, r3\<lparr>r_trailer_len := k, r_line_cr := True, r_phase := PHASE_DONE\<rparr>)"
    using byte_run_append_eq [OF c byte_run_append_eq [OF l t]] by (simp add: chunked_body_def)
  ultimately show thesis
    by (intro that [of "r3\<lparr>r_trailer_len := k, r_line_cr := True, r_phase := PHASE_DONE\<rparr>"]) (auto simp: r3_def r2_def http_over_def)
qed

text \<open>
  C16. A chunked response is read whole: the body handed out is the data of the chunks in order, whatever
  their sizes, the case and leading zeros of the size lines, the extensions, the trailer fields and the cuts,
  also beside Content-Length fields, and the response is done at the end of the trailer.
\<close>

theorem http_response_chunked:
  assumes "wf_status minor status reason" "status \<noteq> 204" "status \<noteq> 304" "list_all wf_field fs"
    "framed n fs" "list_ex is_encoding fs" "length (response_head minor status reason fs) < http_head_max"
    "list_all wf_chunk chs" "wf_chunk_line 0 hs ext" "list_all head_line trailers"
    "length (head_text trailers @ CRLF) < http_head_max"
    "concat pieces = response_head minor status reason fs @ chunked_body chs hs ext trailers @ extra"
  shows "case drive_pieces inkwell_http_response_feed (inkwell_http_response_init False) pieces of (got, r) \<Rightarrow>
     got = concat (map chunk_data chs) \<and> inkwell_http_response_done r \<and> r_status r = status \<and> r_framing r = FRAMING_CHUNKED
     \<and> r_body_received r = of_nat (length got) \<and> r_error r = HTTP_OK
     \<and> (\<forall>part. strict_prefix part (response_head minor status reason fs @ chunked_body chs hs ext trailers) \<longrightarrow>
           \<not> fst (inkwell_http_response_finish (snd (drive inkwell_http_response_feed (inkwell_http_response_init False) part))))"
proof -
  let ?init = "inkwell_http_response_init False"
  let ?body = "concat (map chunk_data chs)"
  define r1 where "r1 = http_frame_body status (if list_ex is_length fs then Some (of_nat n) else None) True
    (?init\<lparr>r_head := response_head minor status reason fs\<rparr>)"
  have r1: "r_phase r1 = PHASE_CHUNK_SIZE" "r_chunk_line r1 = []" "r_body_received r1 = 0" "r_status r1 = status"
    "r_framing r1 = FRAMING_CHUNKED" "r_error r1 = HTTP_OK"
    using assms(2,3) by (auto simp: r1_def http_frame_body_def Let_def inkwell_http_response_init_def)
  obtain r4 where b: "http_run r1 (chunked_body chs hs ext trailers) = (?body, r4)" and fin: "r_phase r4 = PHASE_DONE"
    and r4: "r_status r4 = r_status r1" "r_framing r4 = r_framing r1" "r_error r4 = r_error r1" "r_body_received r4 = of_nat (length ?body)"
    and before: "\<not> http_over (snd (http_run r1 (butlast (chunked_body chs hs ext trailers))))"
    by (rule http_run_chunked_body [OF r1(1-3) assms(8-11)])
  have o: "http_run r4 extra = ([], r4)" using http_run_over [of r4] fin by (simp add: http_over_def)
  have h: "http_run ?init (response_head minor status reason fs) = ([], r1)"
    using http_run_response_head [OF assms(1,4,5,7), of False] assms(6) by (simp add: r1_def)
  have all: "http_run ?init (concat pieces) = ([] @ ?body @ [], r4)"
    unfolding assms(12) by (rule byte_run_append_eq [OF h byte_run_append_eq [OF b o]])
  have "\<not> fst (inkwell_http_response_finish (snd (http_run ?init part)))"
    if "strict_prefix part (response_head minor status reason fs @ chunked_body chs hs ext trailers)" for part
  proof -
    let ?t = "response_head minor status reason fs @ chunked_body chs hs ext trailers"
    have "?t \<noteq> []" "chunked_body chs hs ext trailers \<noteq> []" by (simp_all add: chunked_body_def)
    moreover have "r_phase (snd (http_run ?init ?t)) = PHASE_DONE" using byte_run_append_eq [OF h b] fin by simp
    moreover have "snd (http_run ?init (response_head minor status reason fs @ u)) = snd (http_run r1 u)" for u
      using h by (simp add: byte_run_append split: prod.split)
    ultimately show ?thesis using http_cut_short [of ?init "butlast ?t" "last ?t" part] before that by (simp add: butlast_append)
  qed
  then show ?thesis using r1 r4 fin all http.drive_pieces_run [OF http_inv_init, of False pieces] http.drive_run [OF http_inv_init, of False]
    by (simp add: inkwell_http_response_done_def)
qed

theorem http_response_with_length_witness:
  "fst (drive_pieces inkwell_http_response_feed (inkwell_http_response_init False)
      [response_head 0x31 200 (ascii '' OK'') [(ascii ''Content-Length'', [SPC], ascii ''2'', [])], ascii ''h'', ascii ''i''])
     = ascii ''hi''"
proof -
  let ?fs = "[(ascii ''Content-Length'', [SPC], ascii ''2'', [])]"
  have "length (response_head 0x31 200 (ascii '' OK'') ?fs) < http_head_max"
    by (simp add: response_head_def status_line_def decimal_three http_head_max_def)
  moreover have "wf_status 0x31 200 (ascii '' OK'')" by (simp add: wf_status_def is_digit_def)
  moreover have "list_all wf_field ?fs" by (simp add: wf_field_def http_token_char_def http_alpha_def http_blank_def)
  moreover have "list_ex is_length ?fs" "\<not> list_ex is_encoding ?fs"
    by (simp_all add: is_length_def is_encoding_def http_equal_nocase_def http_lower_def)
  moreover have "framed (length (ascii ''hi'')) ?fs"
    by (simp add: framed_def field_value_def is_digit_def digit_val_def is_encoding_def http_equal_nocase_def http_lower_def)
  ultimately show ?thesis
    using http_response_with_length [of "0x31" 200 "ascii '' OK''" ?fs "ascii ''hi''"
        "[response_head 0x31 200 (ascii '' OK'') ?fs, ascii ''h'', ascii ''i'']" "[]"] by auto
qed

theorem http_response_chunked_witness:
  "fst (drive_pieces inkwell_http_response_feed (inkwell_http_response_init False)
      [response_head 0x31 200 [] [(ascii ''Transfer-Encoding'', [SPC], ascii ''chunked'', [])],
       chunked_body [(ascii ''2'', ascii '';x'', ascii ''hi''), (ascii ''01'', [], ascii ''!'')] (ascii ''0'') [] [ascii ''A: b'']])
     = ascii ''hi!''"
proof -
  let ?fs = "[(ascii ''Transfer-Encoding'', [SPC], ascii ''chunked'', [])]"
  let ?chs = "[(ascii ''2'', ascii '';x'', ascii ''hi''), (ascii ''01'', [], ascii ''!'')]"
  have "length (response_head 0x31 200 [] ?fs) < http_head_max"
    by (simp add: response_head_def status_line_def decimal_three http_head_max_def)
  moreover have "wf_status 0x31 200 []" by (simp add: wf_status_def is_digit_def)
  moreover have "list_all wf_field ?fs" by (simp add: wf_field_def http_token_char_def http_alpha_def http_blank_def)
  moreover have "list_ex is_encoding ?fs" "framed 0 ?fs"
    by (simp_all add: framed_def field_value_def is_length_def is_encoding_def http_equal_nocase_def http_lower_def)
  moreover have "list_all wf_chunk ?chs" "wf_chunk_line 0 (ascii ''0'') []"
    by (simp_all add: wf_chunk_def wf_chunk_line_def http_hex_def http_digit_def hex_value_def http_blank_def http_chunk_line_max_def)
  moreover have "list_all head_line [ascii ''A: b'']" "length (head_text [ascii ''A: b''] @ CRLF) < http_head_max"
    by (simp_all add: head_line_def http_head_max_def)
  ultimately show ?thesis
    using http_response_chunked [of "0x31" 200 "[]" ?fs 0 ?chs "ascii ''0''" "[]" "[ascii ''A: b'']"
        "[response_head 0x31 200 [] ?fs, chunked_body ?chs (ascii ''0'') [] [ascii ''A: b'']]" "[]"]
    by (auto simp: chunk_data_def)
qed

text \<open>A Content-Length that fits 64 bits may still be refused: the largest one accepted is \<open>2 ^ 64 - 7\<close>.\<close>

lemma http_length_refused: "http_length_loop 0 (ascii ''18446744073709551615'') = None"
  by (simp add: http_digit_def)

end
