(* ===== verification/Esp_Rom.thy ===== *)
theory Esp_Rom
  imports Inkwell_Prelude Piecewise
begin

text \<open>
  The serial protocol of the ESP32 ROM bootloader (\<open>src/codec/esp_rom.c\<close>) and the header check of its
  application images (\<open>src/codec/esp_image.c\<close>). A request builder answers the bytes it wrote, given the size
  of the buffer (\<open>None\<close> for a NULL buffer); a response is delivered by the reader, whose feed answers how many
  bytes it consumed and the response it completed, if any. The reader is a \<open>piecewise_reader\<close>: its one-byte
  machine is \<open>esp_rom_byte\<close>. \<open>unslip\<close> is the reference decoding of SLIP (RFC 1055).
\<close>

section \<open>Images\<close>

definition esp_chip_esp32 :: u16 where "esp_chip_esp32 = 0x0000"
definition esp_chip_esp32_s2 :: u16 where "esp_chip_esp32_s2 = 0x0002"
definition esp_chip_esp32_c3 :: u16 where "esp_chip_esp32_c3 = 0x0005"
definition esp_chip_esp32_s3 :: u16 where "esp_chip_esp32_s3 = 0x0009"
definition esp_chip_esp32_c6 :: u16 where "esp_chip_esp32_c6 = 0x000D"

datatype inkwell_esp_image_verdict = ESP_IMAGE_OK | ESP_IMAGE_TOO_SHORT | ESP_IMAGE_BAD_MAGIC | ESP_IMAGE_WRONG_CHIP | ESP_IMAGE_NOT_AN_APP

record inkwell_esp_image_info =
  info_chip_id :: u16
  info_segments :: u8

fun inkwell_esp_image_verdict_name :: "inkwell_esp_image_verdict \<Rightarrow> bytes" where
  "inkwell_esp_image_verdict_name ESP_IMAGE_OK = ascii ''ok''"
| "inkwell_esp_image_verdict_name ESP_IMAGE_TOO_SHORT = ascii ''too short''"
| "inkwell_esp_image_verdict_name ESP_IMAGE_BAD_MAGIC = ascii ''bad magic''"
| "inkwell_esp_image_verdict_name ESP_IMAGE_WRONG_CHIP = ascii ''wrong chip''"
| "inkwell_esp_image_verdict_name ESP_IMAGE_NOT_AN_APP = ascii ''not an application''"

definition inkwell_esp_image_validate :: "bytes option \<Rightarrow> u16 \<Rightarrow> inkwell_esp_image_verdict \<times> inkwell_esp_image_info" where
  "inkwell_esp_image_validate img expect_chip =
     (let none = \<lparr>info_chip_id = 0, info_segments = 0\<rparr> in
      case img of None \<Rightarrow> (ESP_IMAGE_TOO_SHORT, none)
      | Some b \<Rightarrow>
          if length b < 36 then (ESP_IMAGE_TOO_SHORT, none)
          else if b ! 0 \<noteq> 0xE9 then (ESP_IMAGE_BAD_MAGIC, none)
          else let out = \<lparr>info_chip_id = le16 (b ! 12) (b ! 13), info_segments = b ! 1\<rparr> in
            if info_chip_id out \<noteq> expect_chip then (ESP_IMAGE_WRONG_CHIP, out)
            else if info_segments out = 0 \<or> le32 (b ! 28) (b ! 29) (b ! 30) (b ! 31) < 4 then (ESP_IMAGE_NOT_AN_APP, out)
            else if le32 (b ! 32) (b ! 33) (b ! 34) (b ! 35) \<noteq> 0xABCD5432 then (ESP_IMAGE_NOT_AN_APP, out)
            else (ESP_IMAGE_OK, out))"

section \<open>Requests\<close>

abbreviation (input) SLIP_END :: u8 where "SLIP_END \<equiv> 0xC0"
abbreviation (input) SLIP_ESC :: u8 where "SLIP_ESC \<equiv> 0xDB"
abbreviation (input) SLIP_ESC_END :: u8 where "SLIP_ESC_END \<equiv> 0xDC"
abbreviation (input) SLIP_ESC_ESC :: u8 where "SLIP_ESC_ESC \<equiv> 0xDD"

definition esp_rom_block :: nat where "esp_rom_block = 0x400"
definition esp_rom_request_max :: nat where "esp_rom_request_max = 2 + 2 * (8 + 16 + esp_rom_block)"
definition esp_rom_frame_max :: nat where "esp_rom_frame_max = 128"

datatype inkwell_esp_rom_op = FLASH_BEGIN | FLASH_DATA | FLASH_END | ROM_SYNC | READ_REG | SPI_SET_PARAMS | SPI_ATTACH
  | CHANGE_BAUDRATE | SPI_FLASH_MD5

fun esp_rom_op_number :: "inkwell_esp_rom_op \<Rightarrow> u8" where
  "esp_rom_op_number FLASH_BEGIN = 0x02"
| "esp_rom_op_number FLASH_DATA = 0x03"
| "esp_rom_op_number FLASH_END = 0x04"
| "esp_rom_op_number ROM_SYNC = 0x08"
| "esp_rom_op_number READ_REG = 0x0A"
| "esp_rom_op_number SPI_SET_PARAMS = 0x0B"
| "esp_rom_op_number SPI_ATTACH = 0x0D"
| "esp_rom_op_number CHANGE_BAUDRATE = 0x0F"
| "esp_rom_op_number SPI_FLASH_MD5 = 0x13"

text \<open>The bytes written so far, with one more, escaped.\<close>

definition slip_put :: "nat \<Rightarrow> bytes \<Rightarrow> u8 \<Rightarrow> bytes option" where
  "slip_put out_len out b =
     (if b = SLIP_END \<or> b = SLIP_ESC then
        (if out_len < length out + 2 then None else Some (out @ [SLIP_ESC, if b = SLIP_END then SLIP_ESC_END else SLIP_ESC_ESC]))
      else if out_len < length out + 1 then None else Some (out @ [b]))"

fun slip_put_all :: "nat \<Rightarrow> bytes \<Rightarrow> bytes \<Rightarrow> bytes option" where
  "slip_put_all out_len out [] = Some out"
| "slip_put_all out_len out (b # bs) = (case slip_put out_len out b of None \<Rightarrow> None | Some out' \<Rightarrow> slip_put_all out_len out' bs)"

definition esp_rom_header :: "u8 \<Rightarrow> nat \<Rightarrow> u32 \<Rightarrow> bytes" where
  "esp_rom_header op n checksum = [0x00, op, of_nat n, of_nat (n div 256)] @ le32_bytes checksum"

definition esp_rom_request :: "inkwell_esp_rom_op \<Rightarrow> bytes \<Rightarrow> bytes \<Rightarrow> u32 \<Rightarrow> nat option \<Rightarrow> errno + bytes" where
  "esp_rom_request op head body checksum out =
     (case out of None \<Rightarrow> Inl EINVAL
      | Some out_len \<Rightarrow>
          if out_len < 1 then Inl ENOBUFS
          else case slip_put_all out_len [SLIP_END] (esp_rom_header (esp_rom_op_number op) (length head + length body) checksum) of
            None \<Rightarrow> Inl ENOBUFS
          | Some at \<Rightarrow>
              (case slip_put_all out_len at head of None \<Rightarrow> Inl ENOBUFS
               | Some at \<Rightarrow>
                   (case slip_put_all out_len at body of None \<Rightarrow> Inl ENOBUFS
                    | Some at \<Rightarrow> if out_len < length at + 1 then Inl ENOBUFS else Inr (at @ [SLIP_END]))))"

definition esp_rom_words :: "inkwell_esp_rom_op \<Rightarrow> u32 list \<Rightarrow> nat option \<Rightarrow> errno + bytes" where
  "esp_rom_words op values out = esp_rom_request op (concat (map le32_bytes values)) [] 0 out"

definition inkwell_esp_rom_sync :: "nat option \<Rightarrow> errno + bytes" where
  "inkwell_esp_rom_sync out = esp_rom_request ROM_SYNC ([0x07, 0x07, 0x12, 0x20] @ replicate 32 0x55) [] 0 out"

definition inkwell_esp_rom_read_reg :: "u32 \<Rightarrow> nat option \<Rightarrow> errno + bytes" where
  "inkwell_esp_rom_read_reg address out = esp_rom_words READ_REG [address] out"

definition inkwell_esp_rom_spi_attach :: "nat option \<Rightarrow> errno + bytes" where
  "inkwell_esp_rom_spi_attach out = esp_rom_words SPI_ATTACH [0, 0] out"

definition inkwell_esp_rom_spi_set_params :: "u32 \<Rightarrow> nat option \<Rightarrow> errno + bytes" where
  "inkwell_esp_rom_spi_set_params flash_size out =
     (if flash_size = 0 then Inl EINVAL
      else esp_rom_words SPI_SET_PARAMS [0, flash_size, 64 * 1024, 4 * 1024, 256, 0xFFFF] out)"

definition inkwell_esp_rom_change_baud :: "u32 \<Rightarrow> nat option \<Rightarrow> errno + bytes" where
  "inkwell_esp_rom_change_baud baud out = (if baud = 0 then Inl EINVAL else esp_rom_words CHANGE_BAUDRATE [baud, 0] out)"

definition inkwell_esp_rom_blocks :: "u32 \<Rightarrow> u32" where
  "inkwell_esp_rom_blocks n = ucast ((ucast n + of_nat esp_rom_block - 1 :: u64) div of_nat esp_rom_block)"

definition inkwell_esp_rom_flash_begin :: "u16 \<Rightarrow> u32 \<Rightarrow> u32 \<Rightarrow> nat option \<Rightarrow> errno + bytes" where
  "inkwell_esp_rom_flash_begin chip n offset out =
     (if n = 0 then Inl EINVAL
      else esp_rom_words FLASH_BEGIN
        (take (if chip = esp_chip_esp32 then 4 else 5) [n, inkwell_esp_rom_blocks n, of_nat esp_rom_block, offset, 0]) out)"

definition esp_rom_checksum :: "bytes \<Rightarrow> u8" where
  "esp_rom_checksum padded = foldl (XOR) 0xEF padded"

definition inkwell_esp_rom_flash_data :: "u32 \<Rightarrow> bytes option \<Rightarrow> nat option \<Rightarrow> errno + bytes" where
  "inkwell_esp_rom_flash_data sequence block out =
     (case block of None \<Rightarrow> Inl EINVAL
      | Some b \<Rightarrow>
          if esp_rom_block < length b then Inl EINVAL
          else let padded = b @ replicate (esp_rom_block - length b) 0xFF in
            esp_rom_request FLASH_DATA
              (le32_bytes (of_nat esp_rom_block) @ le32_bytes sequence @ le32_bytes 0 @ le32_bytes 0) padded
              (ucast (esp_rom_checksum padded)) out)"

definition inkwell_esp_rom_flash_end :: "bool \<Rightarrow> nat option \<Rightarrow> errno + bytes" where
  "inkwell_esp_rom_flash_end run out = esp_rom_words FLASH_END [if run then 0 else 1] out"

definition inkwell_esp_rom_flash_md5 :: "u32 \<Rightarrow> u32 \<Rightarrow> nat option \<Rightarrow> errno + bytes" where
  "inkwell_esp_rom_flash_md5 offset n out = (if n = 0 then Inl EINVAL else esp_rom_words SPI_FLASH_MD5 [offset, n, 0, 0] out)"

section \<open>Responses\<close>

record inkwell_esp_rom_reader =
  er_frame :: bytes
  er_in_frame :: bool
  er_escape :: bool
  er_overflow :: bool

record inkwell_esp_rom_response =
  rr_op :: u8
  rr_value :: u32
  rr_data :: bytes
  rr_status :: u8
  rr_error :: u8

definition inkwell_esp_rom_reader_reset :: inkwell_esp_rom_reader where
  "inkwell_esp_rom_reader_reset = \<lparr>er_frame = [], er_in_frame = False, er_escape = False, er_overflow = False\<rparr>"

definition esp_rom_parse :: "bytes \<Rightarrow> inkwell_esp_rom_response option" where
  "esp_rom_parse frame =
     (if length frame < 8 + 4 \<or> frame ! 0 \<noteq> 0x01 then None
      else let n = unat (frame ! 2) + 256 * unat (frame ! 3); data = drop 8 frame in
        if 8 + n \<noteq> length frame \<or> n < 4 then None
        else Some \<lparr>rr_op = frame ! 1, rr_value = le32 (frame ! 4) (frame ! 5) (frame ! 6) (frame ! 7), rr_data = data,
                   rr_status = data ! (n - 4), rr_error = data ! (n - 3)\<rparr>)"

text \<open>A byte that is not a delimiter, inside a frame.\<close>

definition esp_rom_data_byte :: "inkwell_esp_rom_reader \<Rightarrow> u8 \<Rightarrow> inkwell_esp_rom_reader" where
  "esp_rom_data_byte r b =
     (let store = \<lambda>r v. if esp_rom_frame_max \<le> length (er_frame r) then r\<lparr>er_overflow := True\<rparr> else r\<lparr>er_frame := er_frame r @ [v]\<rparr> in
      if er_escape r then
        (let r = r\<lparr>er_escape := False\<rparr> in
         if b = SLIP_ESC_END then store r SLIP_END
         else if b = SLIP_ESC_ESC then store r SLIP_ESC
         else r\<lparr>er_overflow := True\<rparr>)
      else if b = SLIP_ESC then r\<lparr>er_escape := True\<rparr>
      else store r b)"

text \<open>The response a delimiter completes, if it completes one.\<close>

definition esp_rom_complete :: "inkwell_esp_rom_reader \<Rightarrow> inkwell_esp_rom_response option" where
  "esp_rom_complete r =
     (if er_in_frame r \<and> er_frame r \<noteq> [] \<and> \<not> er_overflow r then esp_rom_parse (er_frame r) else None)"

fun esp_rom_feed_loop :: "inkwell_esp_rom_reader \<Rightarrow> nat \<Rightarrow> bytes \<Rightarrow> nat \<times> inkwell_esp_rom_response list \<times> inkwell_esp_rom_reader" where
  "esp_rom_feed_loop r i [] = (i, [], r)"
| "esp_rom_feed_loop r i (b # t) =
     (if b = SLIP_END then
        (case esp_rom_complete r of
           Some response \<Rightarrow> (i + 1, [response], r\<lparr>er_in_frame := False, er_frame := [], er_escape := False\<rparr>)
         | None \<Rightarrow> esp_rom_feed_loop (r\<lparr>er_in_frame := True, er_frame := [], er_escape := False, er_overflow := False\<rparr>) (i + 1) t)
      else if \<not> er_in_frame r then esp_rom_feed_loop r (i + 1) t
      else esp_rom_feed_loop (esp_rom_data_byte r b) (i + 1) t)"

definition inkwell_esp_rom_reader_feed ::
  "inkwell_esp_rom_reader \<Rightarrow> bytes \<Rightarrow> nat \<times> inkwell_esp_rom_response list \<times> inkwell_esp_rom_reader" where
  "inkwell_esp_rom_reader_feed r data = esp_rom_feed_loop r 0 data"

definition k_magic :: "(u32 \<times> u16) list" where
  "k_magic =
     [(0x00F01D83, esp_chip_esp32), (0x000007C6, esp_chip_esp32_s2), (0x00000009, esp_chip_esp32_s3), (0x6921506F, esp_chip_esp32_c3),
      (0x1B31506F, esp_chip_esp32_c3), (0x4881606F, esp_chip_esp32_c3), (0x4361606F, esp_chip_esp32_c3), (0x2CE0806F, esp_chip_esp32_c6)]"

definition inkwell_esp_rom_chip_for_magic :: "u32 \<Rightarrow> u16 option" where
  "inkwell_esp_rom_chip_for_magic magic = map_option snd (find (\<lambda>e. fst e = magic) k_magic)"

definition hex_nibble :: "u8 \<Rightarrow> u8 option" where
  "hex_nibble c =
     (if asc (CHR ''0'') \<le> c \<and> c \<le> asc (CHR ''9'') then Some (c - asc (CHR ''0''))
      else if asc (CHR ''a'') \<le> c \<and> c \<le> asc (CHR ''f'') then Some (c - asc (CHR ''a'') + 10)
      else if asc (CHR ''A'') \<le> c \<and> c \<le> asc (CHR ''F'') then Some (c - asc (CHR ''A'') + 10)
      else None)"

fun esp_rom_md5_loop :: "bytes \<Rightarrow> bytes \<Rightarrow> bool" where
  "esp_rom_md5_loop data [] = True"
| "esp_rom_md5_loop (h # l # data) (d # digest) =
     (case (hex_nibble h, hex_nibble l) of
        (Some high, Some low) \<Rightarrow> if push_bit 4 high OR low \<noteq> d then False else esp_rom_md5_loop data digest
      | _ \<Rightarrow> False)"
| "esp_rom_md5_loop _ (d # digest) = False"

definition inkwell_esp_rom_md5_matches :: "inkwell_esp_rom_response option \<Rightarrow> bytes option \<Rightarrow> bool" where
  "inkwell_esp_rom_md5_matches response digest =
     (case (response, digest) of
        (Some r, Some d) \<Rightarrow>
          if rr_status r \<noteq> 0 \<or> rr_op r \<noteq> esp_rom_op_number SPI_FLASH_MD5 \<or> length (rr_data r) < 32 + 4 then False
          else esp_rom_md5_loop (rr_data r) d
      | _ \<Rightarrow> False)"

definition inkwell_esp_rom_error_name :: "u8 \<Rightarrow> bytes" where
  "inkwell_esp_rom_error_name e =
     (if e = 0x00 then ascii ''none''
      else if e = 0x05 then ascii ''invalid message''
      else if e = 0x06 then ascii ''failed to act on message''
      else if e = 0x07 then ascii ''invalid checksum''
      else if e = 0x08 then ascii ''flash write error''
      else if e = 0x09 then ascii ''flash read error''
      else if e = 0x0A then ascii ''flash read length error''
      else if e = 0x0B then ascii ''deflate error''
      else ascii ''unknown error'')"

section \<open>SLIP\<close>

definition slip_byte :: "u8 \<Rightarrow> bytes" where
  "slip_byte b = (if b = SLIP_END then [SLIP_ESC, SLIP_ESC_END] else if b = SLIP_ESC then [SLIP_ESC, SLIP_ESC_ESC] else [b])"

definition slip :: "bytes \<Rightarrow> bytes" where
  "slip bs = concat (map slip_byte bs)"

fun unslip :: "bytes \<Rightarrow> bytes option" where
  "unslip [] = Some []"
| "unslip (b # t) =
     (if b = SLIP_END then None
      else if b = SLIP_ESC then
        (case t of [] \<Rightarrow> None
         | c # u \<Rightarrow> if c = SLIP_ESC_END then map_option (Cons SLIP_END) (unslip u)
                    else if c = SLIP_ESC_ESC then map_option (Cons SLIP_ESC) (unslip u) else None)
      else map_option (Cons b) (unslip t))"

lemma slip_Nil [simp]: "slip [] = []"
  by (simp add: slip_def)

lemma slip_Cons [simp]: "slip (b # bs) = slip_byte b @ slip bs"
  by (simp add: slip_def)

lemma slip_append [simp]: "slip (xs @ ys) = slip xs @ slip ys"
  by (simp add: slip_def)

lemma unslip_slip: "unslip (slip bs) = Some bs"
  by (induction bs) (auto simp: slip_byte_def)

lemma slip_no_end: "SLIP_END \<notin> set (slip bs)"
  by (induction bs) (auto simp: slip_byte_def)

lemma length_slip: "length (slip bs) \<le> 2 * length bs"
  by (induction bs) (auto simp: slip_byte_def)

lemma slip_put_all_eq: "slip_put_all n out bs = (if length out + length (slip bs) \<le> n \<or> bs = [] then Some (out @ slip bs) else None)"
proof (induction bs arbitrary: out)
  case (Cons b bs)
  have "slip_put n out b = (if length out + length (slip_byte b) \<le> n then Some (out @ slip_byte b) else None)"
    by (auto simp: slip_put_def slip_byte_def)
  then show ?case using Cons by (auto simp: add.assoc)
qed simp

text \<open>A frame around a request with this data.\<close>

definition esp_frames :: "inkwell_esp_rom_op \<Rightarrow> u32 \<Rightarrow> bytes \<Rightarrow> bytes \<Rightarrow> bool" where
  "esp_frames op checksum data f =
     (\<exists>mid. f = SLIP_END # mid @ [SLIP_END] \<and> SLIP_END \<notin> set mid \<and> length data < 65536 \<and>
        unslip mid = Some ([0x00, esp_rom_op_number op] @ take 2 (le32_bytes (of_nat (length data))) @ le32_bytes checksum @ data))"

lemma esp_size_bytes: "n < 65536 \<Longrightarrow> [of_nat n, of_nat (n div 256)] = take 2 (le32_bytes (of_nat n))"
proof -
  assume n: "n < 65536"
  then have u: "unat (of_nat n :: u32) = n" unfolding unat_of_nat by simp
  have "(of_nat n :: u8) = ucast (of_nat n :: u32)"
    by (simp add: word_unat_eq_iff unat_of_nat unsigned_ucast_eq take_bit_eq_mod mod_mod_cancel)
  moreover have "(of_nat (n div 256) :: u8) = ucast (drop_bit 8 (of_nat n :: u32))"
    unfolding word_unat_eq_iff unat_ucast_drop u by (simp add: unat_of_nat)
  ultimately show ?thesis by (simp add: le32_bytes_def)
qed

lemma esp_rom_request_eq:
  assumes "length head + length body < 65536" "2 + 2 * (8 + length head + length body) \<le> n"
  shows "\<exists>f. esp_rom_request op head body checksum (Some n) = Inr f \<and> esp_frames op checksum (head @ body) f \<and> length f \<le> n"
proof -
  let ?h = "esp_rom_header (esp_rom_op_number op) (length head + length body) checksum"
  let ?mid = "slip (?h @ head @ body)"
  have h: "length ?h = 8" by (simp add: esp_rom_header_def)
  have "length ?mid \<le> 2 * length (?h @ head @ body)" by (rule length_slip)
  then have len: "length (slip ?h) + length (slip head) + length (slip body) + 2 \<le> n" using assms(2) h by simp
  then have "esp_rom_request op head body checksum (Some n) = Inr (SLIP_END # ?mid @ [SLIP_END])"
    by (simp add: esp_rom_request_def slip_put_all_eq)
  moreover have "esp_frames op checksum (head @ body) (SLIP_END # ?mid @ [SLIP_END])"
    unfolding esp_frames_def
  proof (intro exI [of _ ?mid] conjI)
    have "?h @ head @ body = [0x00, esp_rom_op_number op] @ take 2 (le32_bytes (of_nat (length (head @ body)))) @ le32_bytes checksum @ head @ body"
      using esp_size_bytes [OF assms(1)] by (simp add: esp_rom_header_def)
    then show "unslip ?mid = Some ([0x00, esp_rom_op_number op] @ take 2 (le32_bytes (of_nat (length (head @ body)))) @ le32_bytes checksum @ head @ body)"
      using unslip_slip [of "?h @ head @ body"] by (simp only:)
  qed (use assms(1) slip_no_end in auto)
  ultimately show ?thesis using len by auto
qed

lemma unat_esp_rom_blocks: "unat (inkwell_esp_rom_blocks n) = (unat n + 1023) div 1024"
proof -
  have n: "unat n < 4294967296" by simp
  have "unat (ucast n + of_nat esp_rom_block - 1 :: u64) = unat n + 1023"
  proof -
    have "(ucast n + of_nat esp_rom_block - 1 :: u64) = of_nat (unat n + 1023)" by (simp add: esp_rom_block_def of_nat_unat)
    moreover have "unat n + 1023 < 18446744073709551616" using unat_u32_lt [of n] by linarith
    then have "unat (of_nat (unat n + 1023) :: u64) = unat n + 1023" unfolding unat_of_nat by simp
    ultimately show ?thesis by (simp only:)
  qed
  then have "unat ((ucast n + of_nat esp_rom_block - 1 :: u64) div of_nat esp_rom_block) = (unat n + 1023) div 1024"
    by (simp add: unat_div esp_rom_block_def)
  moreover have "(unat n + 1023) div 1024 < 4294967296" using n by linarith
  ultimately show ?thesis unfolding inkwell_esp_rom_blocks_def by (simp add: unsigned_ucast_eq take_bit_nat_eq_self)
qed

lemma esp_rom_words_frames:
  assumes "length vs \<le> 6"
  shows "\<exists>f. esp_rom_words op vs (Some esp_rom_request_max) = Inr f \<and> esp_frames op 0 (concat (map le32_bytes vs)) f"
proof -
  have "length (concat (map le32_bytes vs)) = 4 * length vs" by (induction vs) auto
  then show ?thesis using esp_rom_request_eq [of "concat (map le32_bytes vs)" "[]" esp_rom_request_max op 0] assms
    by (auto simp: esp_rom_words_def esp_rom_request_max_def esp_rom_block_def)
qed

lemma esp_rom_flash_begin_frames:
  assumes "count \<noteq> 0"
  shows "\<exists>f. inkwell_esp_rom_flash_begin chip count offset (Some esp_rom_request_max) = Inr f
    \<and> esp_frames FLASH_BEGIN 0 (concat (map le32_bytes ([count, of_nat ((unat count + 1023) div 1024), 1024, offset]
         @ (if chip = esp_chip_esp32 then [] else [0])))) f"
proof -
  have "of_nat (unat (inkwell_esp_rom_blocks count)) = (of_nat ((unat count + 1023) div 1024) :: u32)"
    by (simp only: unat_esp_rom_blocks)
  then have blocks: "inkwell_esp_rom_blocks count = of_nat ((unat count + 1023) div 1024)" by (simp only: of_nat_unat ucast_id)
  show ?thesis
    using esp_rom_words_frames [of "[count, inkwell_esp_rom_blocks count, 1024, offset]" FLASH_BEGIN]
      esp_rom_words_frames [of "[count, inkwell_esp_rom_blocks count, 1024, offset, 0]" FLASH_BEGIN] assms
    unfolding inkwell_esp_rom_flash_begin_def blocks by (simp add: esp_rom_block_def)
qed

lemma esp_rom_flash_data_frames:
  assumes "length block \<le> 1024"
  shows "\<exists>f. inkwell_esp_rom_flash_data sequence (Some block) (Some esp_rom_request_max) = Inr f
    \<and> esp_frames FLASH_DATA (ucast (foldl (XOR) 0xEF (block @ replicate (1024 - length block) 0xFF)))
         (concat (map le32_bytes [1024, sequence, 0, 0]) @ block @ replicate (1024 - length block) 0xFF) f"
proof -
  let ?p = "block @ replicate (1024 - length block) 0xFF"
  have "length (concat (map le32_bytes [1024, sequence, 0, 0])) = 16" "length ?p = 1024" using assms by simp_all
  then have "\<exists>f. esp_rom_request FLASH_DATA (concat (map le32_bytes [1024, sequence, 0, 0])) ?p (ucast (foldl (XOR) 0xEF ?p)) (Some esp_rom_request_max) = Inr f
      \<and> esp_frames FLASH_DATA (ucast (foldl (XOR) 0xEF ?p)) (concat (map le32_bytes [1024, sequence, 0, 0]) @ ?p) f"
    using esp_rom_request_eq [of "concat (map le32_bytes [1024, sequence, 0, 0])" ?p esp_rom_request_max FLASH_DATA "ucast (foldl (XOR) 0xEF ?p)"]
    by (auto simp: esp_rom_request_max_def esp_rom_block_def)
  moreover have "inkwell_esp_rom_flash_data sequence (Some block) out
      = esp_rom_request FLASH_DATA (concat (map le32_bytes [1024, sequence, 0, 0])) ?p (ucast (foldl (XOR) 0xEF ?p)) out" for out
    using assms by (simp add: inkwell_esp_rom_flash_data_def esp_rom_block_def esp_rom_checksum_def Let_def)
  ultimately show ?thesis by simp
qed

text \<open>
  With a buffer of \<open>INKWELL_ESP_ROM_REQUEST_MAX\<close> bytes every request builder succeeds, and what it
  wrote is one SLIP frame that decodes to the request the ROM documents: direction, operation, length and
  checksum, then the operation's words and, for a block, the block padded with \<open>0xFF\<close> under its checksum.
\<close>

theorem esp_rom_requests:
  "(\<exists>f. inkwell_esp_rom_sync (Some esp_rom_request_max) = Inr f
      \<and> esp_frames ROM_SYNC 0 ([0x07, 0x07, 0x12, 0x20] @ replicate 32 0x55) f)
   \<and> (\<exists>f. inkwell_esp_rom_read_reg address (Some esp_rom_request_max) = Inr f \<and> esp_frames READ_REG 0 (le32_bytes address) f)
   \<and> (\<exists>f. inkwell_esp_rom_spi_attach (Some esp_rom_request_max) = Inr f \<and> esp_frames SPI_ATTACH 0 (le32_bytes 0 @ le32_bytes 0) f)
   \<and> (flash_size \<noteq> 0 \<longrightarrow> (\<exists>f. inkwell_esp_rom_spi_set_params flash_size (Some esp_rom_request_max) = Inr f
        \<and> esp_frames SPI_SET_PARAMS 0 (concat (map le32_bytes [0, flash_size, 65536, 4096, 256, 65535])) f))
   \<and> (baud \<noteq> 0 \<longrightarrow> (\<exists>f. inkwell_esp_rom_change_baud baud (Some esp_rom_request_max) = Inr f
        \<and> esp_frames CHANGE_BAUDRATE 0 (le32_bytes baud @ le32_bytes 0) f))
   \<and> (count \<noteq> 0 \<longrightarrow> (\<exists>f. inkwell_esp_rom_flash_begin chip count offset (Some esp_rom_request_max) = Inr f
        \<and> esp_frames FLASH_BEGIN 0 (concat (map le32_bytes ([count, of_nat ((unat count + 1023) div 1024), 1024, offset]
             @ (if chip = esp_chip_esp32 then [] else [0])))) f))
   \<and> (length block \<le> 1024 \<longrightarrow> (\<exists>f. inkwell_esp_rom_flash_data sequence (Some block) (Some esp_rom_request_max) = Inr f
        \<and> esp_frames FLASH_DATA (ucast (foldl (XOR) 0xEF (block @ replicate (1024 - length block) 0xFF)))
             (concat (map le32_bytes [1024, sequence, 0, 0]) @ block @ replicate (1024 - length block) 0xFF) f))
   \<and> (\<exists>f. inkwell_esp_rom_flash_end run (Some esp_rom_request_max) = Inr f \<and> esp_frames FLASH_END 0 (le32_bytes (if run then 0 else 1)) f)
   \<and> (count \<noteq> 0 \<longrightarrow> (\<exists>f. inkwell_esp_rom_flash_md5 offset count (Some esp_rom_request_max) = Inr f
        \<and> esp_frames SPI_FLASH_MD5 0 (concat (map le32_bytes [offset, count, 0, 0])) f))"
proof (intro conjI impI)
  show "\<exists>f. inkwell_esp_rom_sync (Some esp_rom_request_max) = Inr f \<and> esp_frames ROM_SYNC 0 ([0x07, 0x07, 0x12, 0x20] @ replicate 32 0x55) f"
    using esp_rom_request_eq [of "[0x07, 0x07, 0x12, 0x20] @ replicate 32 0x55" "[]" esp_rom_request_max ROM_SYNC 0]
    unfolding inkwell_esp_rom_sync_def by (auto simp: esp_rom_request_max_def esp_rom_block_def)
  show "\<exists>f. inkwell_esp_rom_read_reg address (Some esp_rom_request_max) = Inr f \<and> esp_frames READ_REG 0 (le32_bytes address) f"
    using esp_rom_words_frames [of "[address]" READ_REG] by (simp add: inkwell_esp_rom_read_reg_def)
  show "\<exists>f. inkwell_esp_rom_spi_attach (Some esp_rom_request_max) = Inr f \<and> esp_frames SPI_ATTACH 0 (le32_bytes 0 @ le32_bytes 0) f"
    using esp_rom_words_frames [of "[0, 0]" SPI_ATTACH] by (simp add: inkwell_esp_rom_spi_attach_def)
  show "\<exists>f. inkwell_esp_rom_spi_set_params flash_size (Some esp_rom_request_max) = Inr f
      \<and> esp_frames SPI_SET_PARAMS 0 (concat (map le32_bytes [0, flash_size, 65536, 4096, 256, 65535])) f" if "flash_size \<noteq> 0"
    using esp_rom_words_frames [of "[0, flash_size, 65536, 4096, 256, 65535]" SPI_SET_PARAMS] that by (simp add: inkwell_esp_rom_spi_set_params_def)
  show "\<exists>f. inkwell_esp_rom_change_baud baud (Some esp_rom_request_max) = Inr f \<and> esp_frames CHANGE_BAUDRATE 0 (le32_bytes baud @ le32_bytes 0) f"
    if "baud \<noteq> 0" using esp_rom_words_frames [of "[baud, 0]" CHANGE_BAUDRATE] that by (simp add: inkwell_esp_rom_change_baud_def)
  show "\<exists>f. inkwell_esp_rom_flash_end run (Some esp_rom_request_max) = Inr f \<and> esp_frames FLASH_END 0 (le32_bytes (if run then 0 else 1)) f"
    using esp_rom_words_frames [of "[if run then 0 else 1]" FLASH_END] by (simp add: inkwell_esp_rom_flash_end_def)
  show "\<exists>f. inkwell_esp_rom_flash_md5 offset count (Some esp_rom_request_max) = Inr f
      \<and> esp_frames SPI_FLASH_MD5 0 (concat (map le32_bytes [offset, count, 0, 0])) f" if "count \<noteq> 0"
    using esp_rom_words_frames [of "[offset, count, 0, 0]" SPI_FLASH_MD5] that by (simp add: inkwell_esp_rom_flash_md5_def)
qed (rule esp_rom_flash_begin_frames esp_rom_flash_data_frames; assumption)+

theorem esp_rom_requests_witness:
  "\<exists>f. inkwell_esp_rom_change_baud 921600 (Some esp_rom_request_max) = Inr f \<and> esp_frames CHANGE_BAUDRATE 0 (le32_bytes 921600 @ le32_bytes 0) f"
proof -
  have "(921600 :: u32) \<noteq> 0" by simp
  then show ?thesis using esp_rom_requests [of 0 1 921600 1 0 0 "[]" 0 True] by blast
qed

section \<open>The reader\<close>

definition esp_rom_byte :: "inkwell_esp_rom_reader \<Rightarrow> u8 \<Rightarrow> inkwell_esp_rom_response list \<times> inkwell_esp_rom_reader" where
  "esp_rom_byte r b =
     (if b = SLIP_END then
        (case esp_rom_complete r of
           Some response \<Rightarrow> ([response], r\<lparr>er_in_frame := False, er_frame := [], er_escape := False\<rparr>)
         | None \<Rightarrow> ([], r\<lparr>er_in_frame := True, er_frame := [], er_escape := False, er_overflow := False\<rparr>))
      else if \<not> er_in_frame r then ([], r)
      else ([], esp_rom_data_byte r b))"

lemma esp_rom_feed_loop_run:
  assumes "esp_rom_feed_loop r i t = (n, out, r')"
  shows "\<exists>k. n = i + k \<and> k \<le> length t \<and> byte_run esp_rom_byte r (take k t) = (out, r') \<and> (k = 0 \<longrightarrow> t = [])"
  using assms
proof (induction t arbitrary: r i)
  case (Cons b t)
  obtain o1 r1 where b: "esp_rom_byte r b = (o1, r1)" by force
  show ?case
  proof (cases "b = SLIP_END \<and> esp_rom_complete r \<noteq> None")
    case True
    then show ?thesis using Cons.prems by (intro exI [of _ 1]) (auto simp: esp_rom_byte_def)
  next
    case False
    then have o: "o1 = []" and loop: "esp_rom_feed_loop r1 (i + 1) t = (n, out, r')"
      using b Cons.prems by (auto simp: esp_rom_byte_def split: if_splits option.splits)
    obtain k where "n = i + 1 + k" "k \<le> length t" "byte_run esp_rom_byte r1 (take k t) = (out, r')"
      using Cons.IH [OF loop] by blast
    then show ?thesis using b o by (intro exI [of _ "Suc k"]) simp
  qed
qed auto

interpretation esp: piecewise_reader inkwell_esp_rom_reader_feed esp_rom_byte "\<lambda>_. True"
proof (unfold_locales, goal_cases)
  case (1 s t n b s')
  then show ?case using esp_rom_feed_loop_run [of s 0 t n b s'] by (auto simp: inkwell_esp_rom_reader_feed_def)
next
  case (2 s t n b s')
  then show ?case using esp_rom_feed_loop_run [of s 0 t n b s'] by (auto simp: inkwell_esp_rom_reader_feed_def)
next
  case (4 s t b s')
  then show ?case using esp_rom_feed_loop_run [of s 0 t 0 b s'] by (auto simp: inkwell_esp_rom_reader_feed_def)
qed simp

text \<open>Inside a frame that has room, the escaped bytes of a text append the text.\<close>

lemma esp_run_slip:
  assumes "er_in_frame r" "\<not> er_escape r" "length (er_frame r) + length f \<le> esp_rom_frame_max"
  shows "byte_run esp_rom_byte r (slip f) = ([], r\<lparr>er_frame := er_frame r @ f\<rparr>)"
  using assms
proof (induction f arbitrary: r)
  case (Cons b f)
  have esc: "r\<lparr>er_escape := False\<rparr> = r" using Cons.prems(2) by simp
  have "byte_run esp_rom_byte r (slip_byte b) = ([], r\<lparr>er_frame := er_frame r @ [b]\<rparr>)"
    using Cons.prems esc by (auto simp: slip_byte_def esp_rom_byte_def esp_rom_data_byte_def Let_def)
  moreover have "byte_run esp_rom_byte (r\<lparr>er_frame := er_frame r @ [b]\<rparr>) (slip f) = ([], r\<lparr>er_frame := er_frame r @ b # f\<rparr>)"
    using Cons.IH [of "r\<lparr>er_frame := er_frame r @ [b]\<rparr>"] Cons.prems by simp
  ultimately show ?case using byte_run_append_eq by fastforce
qed simp

lemma esp_run_outside: "\<not> er_in_frame r \<Longrightarrow> SLIP_END \<notin> set t \<Longrightarrow> byte_run esp_rom_byte r t = ([], r)"
  by (induction t) (auto simp: esp_rom_byte_def)

definition slip_frame :: "bytes \<Rightarrow> bytes" where
  "slip_frame f = SLIP_END # slip f @ [SLIP_END]"

text \<open>A frame whose first delimiter completes nothing is read as it is.\<close>

lemma esp_run_frame:
  assumes "esp_rom_complete r = None" "esp_rom_parse f = Some response" "length f \<le> esp_rom_frame_max"
  shows "byte_run esp_rom_byte r (slip_frame f) = ([response], inkwell_esp_rom_reader_reset)"
proof -
  let ?o = "\<lparr>er_frame = [], er_in_frame = True, er_escape = False, er_overflow = False\<rparr>"
  have "f \<noteq> []" using assms(2) by (auto simp: esp_rom_parse_def)
  then have c: "esp_rom_complete (?o\<lparr>er_frame := f\<rparr>) = Some response" using assms(2) by (simp add: esp_rom_complete_def)
  have 1: "byte_run esp_rom_byte r [SLIP_END] = ([], ?o)" using assms(1) by (simp add: esp_rom_byte_def)
  have 2: "byte_run esp_rom_byte ?o (slip f) = ([], ?o\<lparr>er_frame := f\<rparr>)" using esp_run_slip [of ?o f] assms(3) by simp
  have 3: "byte_run esp_rom_byte (?o\<lparr>er_frame := f\<rparr>) [SLIP_END] = ([response], inkwell_esp_rom_reader_reset)"
    using c by (simp add: esp_rom_byte_def inkwell_esp_rom_reader_reset_def)
  from byte_run_append_eq [OF 1 byte_run_append_eq [OF 2 3]] show ?thesis by (simp add: slip_frame_def)
qed

lemma esp_complete_reset: "esp_rom_complete inkwell_esp_rom_reader_reset = None"
  by (simp add: esp_rom_complete_def inkwell_esp_rom_reader_reset_def)

lemma esp_run_frames:
  assumes "list_all (\<lambda>(noise, f). SLIP_END \<notin> set noise \<and> esp_rom_parse f \<noteq> None \<and> length f \<le> esp_rom_frame_max) fs" "SLIP_END \<notin> set tail"
  shows "byte_run esp_rom_byte inkwell_esp_rom_reader_reset (concat (map (\<lambda>(noise, f). noise @ slip_frame f) fs) @ tail)
     = (map (\<lambda>(noise, f). the (esp_rom_parse f)) fs, inkwell_esp_rom_reader_reset)"
  using assms
proof (induction fs)
  case Nil
  then show ?case using esp_run_outside [of inkwell_esp_rom_reader_reset tail] by (simp add: inkwell_esp_rom_reader_reset_def)
next
  case (Cons p fs)
  obtain noise f where p: "p = (noise, f)" by force
  have 1: "byte_run esp_rom_byte inkwell_esp_rom_reader_reset noise = ([], inkwell_esp_rom_reader_reset)"
    using Cons.prems p by (intro esp_run_outside) (auto simp: inkwell_esp_rom_reader_reset_def)
  have 2: "byte_run esp_rom_byte inkwell_esp_rom_reader_reset (slip_frame f) = ([the (esp_rom_parse f)], inkwell_esp_rom_reader_reset)"
    using Cons.prems p by (intro esp_run_frame [OF esp_complete_reset]) auto
  from byte_run_append_eq [OF 1 byte_run_append_eq [OF 2 Cons.IH]] show ?case using Cons.prems p by simp
qed

text \<open>
  C19. From a reset reader, every framed response is delivered, in order and whole, whatever text without a
  delimiter stands between the frames and however the bytes arrive.
\<close>

theorem esp_rom_reader_delivers:
  assumes "list_all (\<lambda>(noise, f). SLIP_END \<notin> set noise \<and> esp_rom_parse f \<noteq> None \<and> length f \<le> esp_rom_frame_max) fs" "SLIP_END \<notin> set tail"
    "concat pieces = concat (map (\<lambda>(noise, f). noise @ slip_frame f) fs) @ tail"
  shows "drive_pieces inkwell_esp_rom_reader_feed inkwell_esp_rom_reader_reset pieces
     = (map (\<lambda>(noise, f). the (esp_rom_parse f)) fs, inkwell_esp_rom_reader_reset)"
  using esp.drive_pieces_run [of inkwell_esp_rom_reader_reset pieces] esp_run_frames [OF assms(1,2)] assms(3) by simp

theorem esp_rom_reader_delivers_witness:
  "drive_pieces inkwell_esp_rom_reader_feed inkwell_esp_rom_reader_reset
      [ascii ''boot'', slip_frame [0x01, 0x08, 0x04, 0x00, 0xC0, 0x00, 0x00, 0x00, 0x00, 0x00, 0x00, 0x00]]
     = ([\<lparr>rr_op = 0x08, rr_value = 0xC0, rr_data = [0, 0, 0, 0], rr_status = 0, rr_error = 0\<rparr>], inkwell_esp_rom_reader_reset)"
proof -
  let ?f = "[0x01, 0x08, 0x04, 0x00, 0xC0, 0x00, 0x00, 0x00, 0x00, 0x00, 0x00, 0x00] :: bytes"
  have "esp_rom_parse ?f = Some \<lparr>rr_op = 0x08, rr_value = 0xC0, rr_data = [0, 0, 0, 0], rr_status = 0, rr_error = 0\<rparr>"
    by (simp add: esp_rom_parse_def Let_def le32_def)
  then show ?thesis using esp_rom_reader_delivers [of "[(ascii ''boot'', ?f)]" "[]" "[ascii ''boot'', slip_frame ?f]"]
    by (simp add: esp_rom_frame_max_def)
qed

lemma esp_complete_clean: "\<not> er_in_frame r \<or> er_frame r = [] \<Longrightarrow> esp_rom_complete r = None"
  by (auto simp: esp_rom_complete_def)

text \<open>
  C20. A reader that joined in the middle falls into step: from any state at all, of two framed responses in
  a row the second is delivered last, and the reader is left as if it had been reset.
\<close>

theorem esp_rom_reader_resync:
  assumes "esp_rom_parse f = Some response" "length f \<le> esp_rom_frame_max"
    "esp_rom_parse g = Some answer" "length g \<le> esp_rom_frame_max"
  shows "\<exists>outs. drive inkwell_esp_rom_reader_feed r (slip_frame f @ slip_frame g) = (outs @ [answer], inkwell_esp_rom_reader_reset)"
proof -
  have "\<exists>outs r'. byte_run esp_rom_byte r (slip_frame f) = (outs, r') \<and> esp_rom_complete r' = None"
  proof (cases "esp_rom_complete r")
    case None
    then show ?thesis using esp_run_frame [OF None assms(1,2)] esp_complete_reset by auto
  next
    case (Some stale)
    let ?o = "r\<lparr>er_in_frame := False, er_frame := [], er_escape := False\<rparr>"
    let ?p = "?o\<lparr>er_in_frame := True, er_frame := [], er_escape := False, er_overflow := False\<rparr>"
    have 1: "byte_run esp_rom_byte r [SLIP_END] = ([stale], ?o)" using Some by (simp add: esp_rom_byte_def)
    have 2: "byte_run esp_rom_byte ?o (slip f) = ([], ?o)" by (rule esp_run_outside) (use slip_no_end in auto)
    have 3: "byte_run esp_rom_byte ?o [SLIP_END] = ([], ?p)" using esp_complete_clean [of ?o] by (simp add: esp_rom_byte_def)
    from byte_run_append_eq [OF 1 byte_run_append_eq [OF 2 3]] show ?thesis
      using esp_complete_clean [of ?p] by (auto simp: slip_frame_def)
  qed
  then obtain outs r' where r': "byte_run esp_rom_byte r (slip_frame f) = (outs, r')" "esp_rom_complete r' = None" by blast
  from byte_run_append_eq [OF r'(1) esp_run_frame [OF r'(2) assms(3,4)]]
  show ?thesis using esp.drive_run [of r "slip_frame f @ slip_frame g"] by auto
qed

theorem esp_rom_reader_resync_witness:
  "let f = [0x01, 0x08, 0x04, 0x00, 0xC0, 0x00, 0x00, 0x00, 0x00, 0x00, 0x00, 0x00];
       r = \<lparr>er_frame = f, er_in_frame = True, er_escape = False, er_overflow = False\<rparr> in
   \<exists>outs. drive inkwell_esp_rom_reader_feed r (slip_frame f @ slip_frame f)
     = (outs @ [\<lparr>rr_op = 0x08, rr_value = 0xC0, rr_data = [0, 0, 0, 0], rr_status = 0, rr_error = 0\<rparr>], inkwell_esp_rom_reader_reset)"
proof -
  let ?f = "[0x01, 0x08, 0x04, 0x00, 0xC0, 0x00, 0x00, 0x00, 0x00, 0x00, 0x00, 0x00] :: bytes"
  have "esp_rom_parse ?f = Some \<lparr>rr_op = 0x08, rr_value = 0xC0, rr_data = [0, 0, 0, 0], rr_status = 0, rr_error = 0\<rparr>"
    by (simp add: esp_rom_parse_def Let_def le32_def)
  moreover have "length ?f \<le> esp_rom_frame_max" by (simp add: esp_rom_frame_max_def)
  ultimately show ?thesis unfolding Let_def by (intro esp_rom_reader_resync)
qed

end
