(* ===== verification/Uf2.thy ===== *)
theory Uf2
  imports Inkwell_Prelude
begin

text \<open>
  The UF2 reader (\<open>src/codec/uf2.c\<close>): one 512-byte record (\<open>inkwell_uf2_block_parse\<close>) and the walk over a
  whole file (\<open>inkwell_uf2_validate\<close>) with its verdict and what it found out. The property is the
  equivalence of the verdict with a declarative description of a well-formed file (\<open>uf2_file\<close>), and the
  correctness of the totals it reports.
\<close>

section \<open>Records\<close>

definition uf2_block_size :: nat where "uf2_block_size = 512"
definition uf2_payload_max :: u32 where "uf2_payload_max = 476"

definition uf2_u32 :: "bytes \<Rightarrow> nat \<Rightarrow> u32" where
  "uf2_u32 b i = le32 (b ! i) (b ! (i + 1)) (b ! (i + 2)) (b ! (i + 3))"

datatype inkwell_uf2_verdict = UF2_OK | NOT_UF2 | UF2_MALFORMED | WRONG_FAMILY | OUT_OF_ORDER | INCOMPLETE

record inkwell_uf2_block =
  blk_flags :: u32
  blk_target_address :: u32
  blk_payload_size :: u32
  blk_block_no :: u32
  blk_num_blocks :: u32
  blk_family_id :: u32
  blk_has_family :: bool
  blk_skip :: bool

record inkwell_uf2_info =
  uf_family_id :: u32
  uf_has_family :: bool
  uf_num_blocks :: u32
  uf_blocks :: u32
  uf_payload_bytes :: u64
  uf_first_address :: u32
  uf_last_address :: u32
  uf_contiguous :: bool

definition inkwell_uf2_block_parse :: "bytes option \<Rightarrow> inkwell_uf2_block option" where
  "inkwell_uf2_block_parse block =
     (case block of None \<Rightarrow> None
      | Some b \<Rightarrow>
          if length b < uf2_block_size then None
          else if uf2_u32 b 0 \<noteq> 0x0A324655 \<or> uf2_u32 b 4 \<noteq> 0x9E5D5157 \<or> uf2_u32 b (uf2_block_size - 4) \<noteq> 0x0AB16F30 then None
          else let flags = uf2_u32 b 8; has_family = (flags AND 0x2000 \<noteq> 0) in
            Some \<lparr>blk_flags = flags, blk_target_address = uf2_u32 b 12, blk_payload_size = uf2_u32 b 16,
              blk_block_no = uf2_u32 b 20, blk_num_blocks = uf2_u32 b 24,
              blk_family_id = (if has_family then uf2_u32 b 28 else 0), blk_has_family = has_family,
              blk_skip = (flags AND 0x1 \<noteq> 0)\<rparr>)"

section \<open>The walk\<close>

text \<open>What the walk carries: the totals, whether an address was seen and the one expected next.\<close>

record uf2_walk =
  w_info :: inkwell_uf2_info
  w_addressed :: bool
  w_next_address :: u32

text \<open>The checks of one record that concern the file as a whole, and what the first record sets.\<close>

definition uf2_check :: "u32 \<Rightarrow> nat \<Rightarrow> inkwell_uf2_block \<Rightarrow> inkwell_uf2_info \<Rightarrow> inkwell_uf2_verdict \<times> inkwell_uf2_info" where
  "uf2_check expect_family i block info =
     (if uf2_payload_max < blk_payload_size block \<or> blk_payload_size block AND 3 \<noteq> 0 then (UF2_MALFORMED, info)
      else if - 1 - blk_payload_size block < blk_target_address block then (UF2_MALFORMED, info)
      else
        let info = (if i = 0 then info\<lparr>uf_has_family := blk_has_family block, uf_family_id := blk_family_id block,
                                       uf_num_blocks := blk_num_blocks block\<rparr> else info) in
        if i = 0 \<and> expect_family \<noteq> 0 \<and> (\<not> blk_has_family block \<or> blk_family_id block \<noteq> expect_family) then (WRONG_FAMILY, info)
        else if i \<noteq> 0 \<and> (blk_has_family block \<noteq> uf_has_family info \<or> blk_family_id block \<noteq> uf_family_id info) then (WRONG_FAMILY, info)
        else if i \<noteq> 0 \<and> blk_num_blocks block \<noteq> uf_num_blocks info then (UF2_MALFORMED, info)
        else if blk_block_no block \<noteq> of_nat i then (OUT_OF_ORDER, info)
        else (UF2_OK, info\<lparr>uf_blocks := uf_blocks info + 1\<rparr>))"

text \<open>Where a record that is not skipped goes.\<close>

definition uf2_place :: "inkwell_uf2_block \<Rightarrow> uf2_walk \<Rightarrow> uf2_walk" where
  "uf2_place block w =
     (let info = w_info w;
          info = (if \<not> w_addressed w then info\<lparr>uf_first_address := blk_target_address block\<rparr>
                  else if blk_target_address block \<noteq> w_next_address w then info\<lparr>uf_contiguous := False\<rparr> else info);
          end_address = blk_target_address block + blk_payload_size block in
      \<lparr>w_info = info\<lparr>uf_last_address := end_address, uf_payload_bytes := uf_payload_bytes info + ucast (blk_payload_size block)\<rparr>,
       w_addressed = True, w_next_address = end_address\<rparr>)"

fun uf2_loop :: "u32 \<Rightarrow> nat \<Rightarrow> bytes list \<Rightarrow> uf2_walk \<Rightarrow> inkwell_uf2_verdict \<times> uf2_walk" where
  "uf2_loop expect_family i [] w = (UF2_OK, w)"
| "uf2_loop expect_family i (b # bs) w =
     (case inkwell_uf2_block_parse (Some b) of
        None \<Rightarrow> (if i = 0 then NOT_UF2 else UF2_MALFORMED, w)
      | Some block \<Rightarrow>
          (case uf2_check expect_family i block (w_info w) of (verdict, info) \<Rightarrow>
             let w = w\<lparr>w_info := info\<rparr> in
             if verdict \<noteq> UF2_OK then (verdict, w)
             else uf2_loop expect_family (i + 1) bs (if blk_skip block then w else uf2_place block w)))"

text \<open>The records of a file, in order.\<close>

definition uf2_records :: "bytes \<Rightarrow> bytes list" where
  "uf2_records img = map (\<lambda>i. take uf2_block_size (drop (i * uf2_block_size) img)) [0..<length img div uf2_block_size]"

definition uf2_info_start :: inkwell_uf2_info where
  "uf2_info_start = \<lparr>uf_family_id = 0, uf_has_family = False, uf_num_blocks = 0, uf_blocks = 0, uf_payload_bytes = 0,
     uf_first_address = 0, uf_last_address = 0, uf_contiguous = True\<rparr>"

definition inkwell_uf2_validate :: "bytes option \<Rightarrow> u32 \<Rightarrow> inkwell_uf2_verdict \<times> inkwell_uf2_info" where
  "inkwell_uf2_validate img expect_family =
     (case img of None \<Rightarrow> (NOT_UF2, uf2_info_start)
      | Some b \<Rightarrow>
          if length b < uf2_block_size \<or> length b mod uf2_block_size \<noteq> 0 then (NOT_UF2, uf2_info_start)
          else case uf2_loop expect_family 0 (uf2_records b) \<lparr>w_info = uf2_info_start, w_addressed = False, w_next_address = 0\<rparr> of
            (verdict, w) \<Rightarrow>
              (if verdict = UF2_OK \<and> uf_blocks (w_info w) \<noteq> uf_num_blocks (w_info w)
               then if uf_blocks (w_info w) < uf_num_blocks (w_info w) then INCOMPLETE else UF2_MALFORMED
               else verdict, w_info w))"

section \<open>Well-formed files\<close>

text \<open>What one record must be, on its own and as number \<open>i\<close> of a file with this first record.\<close>

definition uf2_block_ok :: "inkwell_uf2_block \<Rightarrow> nat \<Rightarrow> inkwell_uf2_block \<Rightarrow> bool" where
  "uf2_block_ok first i b =
     (unat (blk_payload_size b) \<le> 476 \<and> 4 dvd unat (blk_payload_size b)
      \<and> unat (blk_target_address b) + unat (blk_payload_size b) < 2 ^ 32
      \<and> blk_has_family b = blk_has_family first \<and> blk_family_id b = blk_family_id first
      \<and> blk_num_blocks b = blk_num_blocks first \<and> blk_block_no b = of_nat i)"

definition uf2_file :: "u32 \<Rightarrow> inkwell_uf2_block list \<Rightarrow> bool" where
  "uf2_file expect_family bs =
     (bs \<noteq> [] \<and> (\<forall>i < length bs. uf2_block_ok (hd bs) i (bs ! i))
      \<and> blk_num_blocks (hd bs) = of_nat (length bs)
      \<and> (expect_family \<noteq> 0 \<longrightarrow> blk_has_family (hd bs) \<and> blk_family_id (hd bs) = expect_family))"

text \<open>The records for the main flash, and the address after one of them.\<close>

definition uf2_main :: "inkwell_uf2_block list \<Rightarrow> inkwell_uf2_block list" where
  "uf2_main bs = filter (\<lambda>b. \<not> blk_skip b) bs"

definition uf2_end :: "inkwell_uf2_block \<Rightarrow> u32" where
  "uf2_end b = blk_target_address b + blk_payload_size b"

definition uf2_payload :: "inkwell_uf2_block list \<Rightarrow> nat" where
  "uf2_payload bs = sum_list (map (\<lambda>b. unat (blk_payload_size b)) bs)"

section \<open>The verdict\<close>

lemma unat_and_3: "unat ((x :: u32) AND 3) = unat x mod 4"
  using unat_and_mask [of x 2] by (simp add: mask_eq_exp_minus_1)

lemma payload_aligned: "(x :: u32) AND 3 = 0 \<longleftrightarrow> 4 dvd unat x"
  by (simp add: word_unat_eq_iff unat_and_3 dvd_eq_mod_eq_0)

lemma address_fits: "\<not> (- 1 - p < (a :: u32)) \<longleftrightarrow> unat a + unat p < 2 ^ 32"
proof -
  have "unat (- 1 - p) = unat (- 1 :: u32) - unat p" by (rule unat_sub) simp
  moreover have "(- 1 :: u32) = 0xFFFFFFFF" by simp
  then have "unat (- 1 :: u32) = 4294967295" by (simp only: unat_numeral) simp
  ultimately have "unat (- 1 - p) = 4294967295 - unat p" by (simp only:)
  moreover have "(2 :: nat) ^ 32 = 4294967296" by simp
  moreover have "\<not> 4294967295 - m < n \<longleftrightarrow> n + m < 4294967296" if "m < 4294967296" for m n :: nat using that by linarith
  ultimately show ?thesis unfolding word_less_nat_alt using unat_u32_lt [of p] by (simp only:)
qed

definition agrees :: "inkwell_uf2_block \<Rightarrow> inkwell_uf2_info \<Rightarrow> bool" where
  "agrees first info =
     (uf_has_family info = blk_has_family first \<and> uf_family_id info = blk_family_id first \<and> uf_num_blocks info = blk_num_blocks first)"

lemma uf2_check_size:
  "uf2_payload_max < blk_payload_size b \<or> blk_payload_size b AND 3 \<noteq> 0 \<longleftrightarrow>
   \<not> (unat (blk_payload_size b) \<le> 476 \<and> 4 dvd unat (blk_payload_size b))"
  by (auto simp: uf2_payload_max_def word_less_nat_alt payload_aligned)

lemma uf2_check_next:
  assumes "i \<noteq> 0" "agrees first info"
  shows "if uf2_block_ok first i b then uf2_check e i b info = (UF2_OK, info\<lparr>uf_blocks := uf_blocks info + 1\<rparr>)
     else fst (uf2_check e i b info) \<noteq> UF2_OK"
  using assms address_fits [of "blk_payload_size b" "blk_target_address b"]
  unfolding uf2_check_def uf2_check_size uf2_block_ok_def agrees_def Let_def by auto

lemma uf2_check_first:
  "if uf2_block_ok b 0 b \<and> (e \<noteq> 0 \<longrightarrow> blk_has_family b \<and> blk_family_id b = e)
   then uf2_check e 0 b info = (UF2_OK, info\<lparr>uf_has_family := blk_has_family b, uf_family_id := blk_family_id b,
      uf_num_blocks := blk_num_blocks b, uf_blocks := uf_blocks info + 1\<rparr>)
   else fst (uf2_check e 0 b info) \<noteq> UF2_OK"
  using address_fits [of "blk_payload_size b" "blk_target_address b"]
  unfolding uf2_check_def uf2_check_size uf2_block_ok_def Let_def by auto

text \<open>One accepted record, and that it leaves what the first record set.\<close>

definition uf2_step :: "inkwell_uf2_block \<Rightarrow> uf2_walk \<Rightarrow> uf2_walk" where
  "uf2_step b w =
     (let w = w\<lparr>w_info := (w_info w)\<lparr>uf_blocks := uf_blocks (w_info w) + 1\<rparr>\<rparr> in if blk_skip b then w else uf2_place b w)"

lemma agrees_step: "agrees first (w_info (uf2_step b w)) = agrees first (w_info w)"
  by (simp add: agrees_def uf2_step_def uf2_place_def Let_def)

definition parsed :: "bytes \<Rightarrow> inkwell_uf2_block" where
  "parsed b = the (inkwell_uf2_block_parse (Some b))"

lemma uf2_loop_next:
  assumes "i \<noteq> 0" "agrees first (w_info w)"
  shows "if \<forall>j < length bs. inkwell_uf2_block_parse (Some (bs ! j)) \<noteq> None \<and> uf2_block_ok first (i + j) (parsed (bs ! j))
     then uf2_loop e i bs w = (UF2_OK, fold uf2_step (map parsed bs) w)
     else fst (uf2_loop e i bs w) \<noteq> UF2_OK"
  using assms
proof (induction bs arbitrary: i w)
  case (Cons b bs)
  show ?case
  proof (cases "inkwell_uf2_block_parse (Some b)")
    case None
    then show ?thesis by auto
  next
    case (Some p)
    then have p: "parsed b = p" by (simp add: parsed_def)
    have all: "(\<forall>j < length (b # bs). inkwell_uf2_block_parse (Some ((b # bs) ! j)) \<noteq> None \<and> uf2_block_ok first (i + j) (parsed ((b # bs) ! j)))
        \<longleftrightarrow> uf2_block_ok first i p \<and> (\<forall>j < length bs. inkwell_uf2_block_parse (Some (bs ! j)) \<noteq> None \<and> uf2_block_ok first (i + 1 + j) (parsed (bs ! j)))"
      using Some p by (simp add: All_less_Suc2)
    show ?thesis
    proof (cases "uf2_block_ok first i p")
      case True
      then have "uf2_check e i p (w_info w) = (UF2_OK, (w_info w)\<lparr>uf_blocks := uf_blocks (w_info w) + 1\<rparr>)"
        using uf2_check_next [OF Cons.prems, of p e] by simp
      then have loop: "uf2_loop e i (b # bs) w = uf2_loop e (i + 1) bs (uf2_step p w)"
        using Some by (simp add: uf2_step_def Let_def)
      have "agrees first (w_info (uf2_step p w))" using Cons.prems(2) by (simp add: agrees_step)
      from Cons.IH [OF _ this, of "i + 1"] show ?thesis unfolding all loop using True p by (simp only: simp_thms list.map fold.simps comp_apply) simp
    next
      case False
      obtain v info where v: "uf2_check e i p (w_info w) = (v, info)" by force
      then have "v \<noteq> UF2_OK" using uf2_check_next [OF Cons.prems, of p e] False by simp
      then show ?thesis unfolding all using False Some v by (simp add: Let_def)
    qed
  qed
qed simp

definition uf2_start :: "inkwell_uf2_block \<Rightarrow> uf2_walk" where
  "uf2_start first = \<lparr>w_info = uf2_info_start\<lparr>uf_has_family := blk_has_family first, uf_family_id := blk_family_id first,
     uf_num_blocks := blk_num_blocks first\<rparr>, w_addressed = False, w_next_address = 0\<rparr>"

lemma uf2_loop_first:
  assumes "bs \<noteq> []"
  shows "if (\<forall>j < length bs. inkwell_uf2_block_parse (Some (bs ! j)) \<noteq> None \<and> uf2_block_ok (parsed (hd bs)) j (parsed (bs ! j)))
       \<and> (e \<noteq> 0 \<longrightarrow> blk_has_family (parsed (hd bs)) \<and> blk_family_id (parsed (hd bs)) = e)
     then uf2_loop e 0 bs \<lparr>w_info = uf2_info_start, w_addressed = False, w_next_address = 0\<rparr>
        = (UF2_OK, fold uf2_step (map parsed bs) (uf2_start (parsed (hd bs))))
     else fst (uf2_loop e 0 bs \<lparr>w_info = uf2_info_start, w_addressed = False, w_next_address = 0\<rparr>) \<noteq> UF2_OK"
proof -
  let ?w = "\<lparr>w_info = uf2_info_start, w_addressed = False, w_next_address = 0\<rparr>"
  obtain b bs' where bs: "bs = b # bs'" using assms by (cases bs) auto
  show ?thesis
  proof (cases "inkwell_uf2_block_parse (Some b)")
    case None
    then show ?thesis using bs by auto
  next
    case (Some p)
    then have p: "parsed b = p" by (simp add: parsed_def)
    have all: "(\<forall>j < length bs. inkwell_uf2_block_parse (Some (bs ! j)) \<noteq> None \<and> uf2_block_ok (parsed (hd bs)) j (parsed (bs ! j)))
        \<longleftrightarrow> uf2_block_ok p 0 p \<and> (\<forall>j < length bs'. inkwell_uf2_block_parse (Some (bs' ! j)) \<noteq> None \<and> uf2_block_ok p (1 + j) (parsed (bs' ! j)))"
      using Some p by (simp add: bs All_less_Suc2)
    show ?thesis
    proof (cases "uf2_block_ok p 0 p \<and> (e \<noteq> 0 \<longrightarrow> blk_has_family p \<and> blk_family_id p = e)")
      case True
      then have "uf2_check e 0 p uf2_info_start = (UF2_OK, uf2_info_start\<lparr>uf_has_family := blk_has_family p, uf_family_id := blk_family_id p,
          uf_num_blocks := blk_num_blocks p, uf_blocks := uf_blocks uf2_info_start + 1\<rparr>)"
        using uf2_check_first [of p e uf2_info_start] by (simp split: if_splits)
      then have loop: "uf2_loop e 0 bs ?w = uf2_loop e 1 bs' (uf2_step p (uf2_start p))"
        using Some by (simp add: bs uf2_step_def uf2_start_def Let_def)
      have "agrees p (w_info (uf2_step p (uf2_start p)))" by (simp add: agrees_step) (simp add: agrees_def uf2_start_def)
      from uf2_loop_next [OF _ this, of 1 bs' e] show ?thesis
        unfolding all loop using True p by (simp only: bs simp_thms list.map list.sel fold.simps comp_apply) simp
    next
      case False
      obtain v info where v: "uf2_check e 0 p uf2_info_start = (v, info)" by force
      then have "v \<noteq> UF2_OK" using uf2_check_first [of p e uf2_info_start] False by (simp split: if_splits)
      then show ?thesis unfolding all using False Some v p by (simp add: bs Let_def)
    qed
  qed
qed

text \<open>The totals after the walk.\<close>

lemma uf2_fold_step:
  assumes "ms = uf2_main bs"
  shows "fold uf2_step bs (uf2_start first) =
     \<lparr>w_info = \<lparr>uf_family_id = blk_family_id first, uf_has_family = blk_has_family first, uf_num_blocks = blk_num_blocks first,
        uf_blocks = of_nat (length bs), uf_payload_bytes = of_nat (uf2_payload ms),
        uf_first_address = (if ms = [] then 0 else blk_target_address (hd ms)),
        uf_last_address = (if ms = [] then 0 else uf2_end (last ms)),
        uf_contiguous = successively (\<lambda>a b. blk_target_address b = uf2_end a) ms\<rparr>,
      w_addressed = (ms \<noteq> []), w_next_address = (if ms = [] then 0 else uf2_end (last ms))\<rparr>"
  using assms
proof (induction bs arbitrary: ms rule: rev_induct)
  case Nil
  then show ?case by (simp add: uf2_main_def uf2_start_def uf2_info_start_def uf2_payload_def)
next
  case (snoc b bs)
  have "(ucast (blk_payload_size b) :: u64) = of_nat (unat (blk_payload_size b))" by (rule of_nat_unat [symmetric])
  then show ?case using snoc(1) [OF refl] snoc(2)
    by (auto simp: uf2_main_def uf2_step_def uf2_place_def Let_def uf2_end_def uf2_payload_def successively_append_iff)
qed

lemma contiguous_span:
  assumes "successively (\<lambda>a b. blk_target_address b = uf2_end a) ms" "ms \<noteq> []"
    "\<And>b. b \<in> set ms \<Longrightarrow> unat (blk_target_address b) + unat (blk_payload_size b) < 2 ^ 32"
  shows "unat (uf2_end (last ms)) = unat (blk_target_address (hd ms)) + uf2_payload ms"
  using assms
proof (induction ms rule: rev_induct)
  case (snoc b ms)
  have e: "unat (uf2_end b) = unat (blk_target_address b) + unat (blk_payload_size b)"
    using snoc(4) [of b] by (simp add: uf2_end_def unat_add_lem [THEN iffD1])
  show ?case
  proof (cases "ms = []")
    case True
    then show ?thesis using e by (simp add: uf2_payload_def)
  next
    case False
    then have "blk_target_address b = uf2_end (last ms)" "successively (\<lambda>a b. blk_target_address b = uf2_end a) ms"
      using snoc(2) by (simp_all add: successively_append_iff)
    then show ?thesis using snoc(1,4) False e by (simp add: uf2_payload_def)
  qed
qed simp

lemma length_uf2_records: "length (uf2_records img) = length img div 512"
  by (simp add: uf2_records_def uf2_block_size_def)

lemma uf2_validate_eq:
  assumes "bs = map parsed (uf2_records img)" "ms = uf2_main bs"
  shows "if 512 dvd length img \<and> list_all (\<lambda>b. inkwell_uf2_block_parse (Some b) \<noteq> None) (uf2_records img) \<and> uf2_file e bs
     then inkwell_uf2_validate (Some img) e = (UF2_OK, w_info (fold uf2_step bs (uf2_start (hd bs))))
     else fst (inkwell_uf2_validate (Some img) e) \<noteq> UF2_OK"
proof (cases "512 \<le> length img \<and> 512 dvd length img")
  case False
  have "uf2_file e bs \<Longrightarrow> 512 \<le> length img" using assms(1) length_uf2_records [of img] by (cases "length img < 512") (auto simp: uf2_file_def)
  then show ?thesis using False by (auto simp: inkwell_uf2_validate_def uf2_block_size_def dvd_eq_mod_eq_0)
next
  case True
  let ?rs = "uf2_records img"
  let ?w = "\<lparr>w_info = uf2_info_start, w_addressed = False, w_next_address = 0\<rparr>"
  have ne: "?rs \<noteq> []" using True length_uf2_records [of img] by auto
  then have hd: "hd bs = parsed (hd ?rs)" "length bs = length ?rs" "bs \<noteq> []" using assms(1) by (simp_all add: hd_map)
  obtain v w where l: "uf2_loop e 0 ?rs ?w = (v, w)" by force
  have v: "inkwell_uf2_validate (Some img) e = (if v = UF2_OK \<and> uf_blocks (w_info w) \<noteq> uf_num_blocks (w_info w)
      then if uf_blocks (w_info w) < uf_num_blocks (w_info w) then INCOMPLETE else UF2_MALFORMED else v, w_info w)"
    using True l by (simp add: inkwell_uf2_validate_def uf2_block_size_def dvd_eq_mod_eq_0)
  have ok: "(\<forall>j < length ?rs. inkwell_uf2_block_parse (Some (?rs ! j)) \<noteq> None \<and> uf2_block_ok (parsed (hd ?rs)) j (parsed (?rs ! j)))
      \<longleftrightarrow> list_all (\<lambda>b. inkwell_uf2_block_parse (Some b) \<noteq> None) ?rs \<and> (\<forall>j < length bs. uf2_block_ok (hd bs) j (bs ! j))"
    using assms(1) hd by (auto simp: list_all_length)
  note first = uf2_loop_first [OF ne, of e, unfolded ok, unfolded l hd(1) [symmetric] assms(1) [symmetric]]
  have totals: "uf_blocks (w_info (fold uf2_step bs (uf2_start (hd bs)))) = of_nat (length bs)"
    "uf_num_blocks (w_info (fold uf2_step bs (uf2_start (hd bs)))) = blk_num_blocks (hd bs)"
    using uf2_fold_step [OF refl, of bs "hd bs"] by simp_all
  show ?thesis
  proof (cases "v = UF2_OK")
    case True
    then have w: "w = fold uf2_step bs (uf2_start (hd bs))" using first by (auto split: if_splits)
    have "list_all (\<lambda>b. inkwell_uf2_block_parse (Some b) \<noteq> None) ?rs \<and> (\<forall>j < length bs. uf2_block_ok (hd bs) j (bs ! j))
        \<and> (e \<noteq> 0 \<longrightarrow> blk_has_family (hd bs) \<and> blk_family_id (hd bs) = e)"
      using first True by (auto split: if_splits)
    then show ?thesis unfolding v w totals using True \<open>512 \<le> length img \<and> 512 dvd length img\<close> hd(3) by (auto simp: uf2_file_def)
  next
    case False
    then have "\<not> (list_all (\<lambda>b. inkwell_uf2_block_parse (Some b) \<noteq> None) ?rs \<and> uf2_file e bs)"
      using first by (auto simp: uf2_file_def split: if_splits)
    then show ?thesis unfolding v using False by auto
  qed
qed

text \<open>
  C26. The verdict on a file is OK exactly when the file is well formed: whole records that parse, numbered
  in order and as many as they say, of one family (the expected one, if any), with aligned payloads of at most
  476 bytes that stay inside the address space. The totals then count the records, add up the payload for the
  main flash and bound it, and a contiguous file spans exactly its payload.
\<close>

theorem uf2_validate_correct:
  "let bs = map parsed (uf2_records img); ms = uf2_main bs; (verdict, info) = inkwell_uf2_validate (Some img) expect_family in
   (verdict = UF2_OK \<longleftrightarrow> 512 dvd length img \<and> list_all (\<lambda>b. inkwell_uf2_block_parse (Some b) \<noteq> None) (uf2_records img) \<and> uf2_file expect_family bs)
   \<and> (verdict = UF2_OK \<longrightarrow>
        uf_blocks info = of_nat (length bs) \<and> uf_payload_bytes info = of_nat (uf2_payload ms)
        \<and> uf_contiguous info = successively (\<lambda>a b. blk_target_address b = uf2_end a) ms
        \<and> (ms \<noteq> [] \<longrightarrow> uf_first_address info = blk_target_address (hd ms) \<and> uf_last_address info = uf2_end (last ms)
             \<and> (uf_contiguous info \<longrightarrow> unat (uf_last_address info) = unat (uf_first_address info) + uf2_payload ms)))"
proof -
  define bs where "bs = map parsed (uf2_records img)"
  define ms where "ms = uf2_main bs"
  obtain verdict info where v: "inkwell_uf2_validate (Some img) expect_family = (verdict, info)" by force
  note eq = uf2_validate_eq [OF bs_def ms_def, of expect_family, unfolded v]
  have wf: "uf2_file expect_family bs" if "verdict = UF2_OK" using eq that by (auto split: if_splits)
  have span: "unat (uf2_end (last ms)) = unat (blk_target_address (hd ms)) + uf2_payload ms"
    if "verdict = UF2_OK" "ms \<noteq> []" "successively (\<lambda>a b. blk_target_address b = uf2_end a) ms"
  proof (rule contiguous_span [OF that(3,2)])
    fix b assume "b \<in> set ms"
    then obtain i where "i < length bs" "bs ! i = b" by (auto simp: ms_def uf2_main_def in_set_conv_nth)
    then show "unat (blk_target_address b) + unat (blk_payload_size b) < 2 ^ 32"
      using wf [OF that(1)] by (auto simp: uf2_file_def uf2_block_ok_def)
  qed
  have "info = w_info (fold uf2_step bs (uf2_start (hd bs)))" if "verdict = UF2_OK" using eq that by (auto split: if_splits)
  then show ?thesis
    using eq span uf2_fold_step [OF ms_def, of "hd bs"] unfolding bs_def [symmetric] Let_def ms_def [symmetric] v prod.case by (auto split: if_splits)
qed

definition uf2_sample :: bytes where
  "uf2_sample = le32_bytes 0x0A324655 @ le32_bytes 0x9E5D5157 @ le32_bytes 0x2000 @ le32_bytes 0x26000 @ le32_bytes 256
     @ le32_bytes 0 @ le32_bytes 1 @ le32_bytes 0xADA52840 @ replicate 476 0 @ le32_bytes 0x0AB16F30"

theorem uf2_validate_correct_witness:
  "let (verdict, info) = inkwell_uf2_validate (Some uf2_sample) 0xADA52840 in
   verdict = UF2_OK \<and> uf_blocks info = 1 \<and> uf_payload_bytes info = 256 \<and> unat (uf_last_address info) = unat (uf_first_address info) + 256"
proof -
  have len: "length uf2_sample = 512" by (simp add: uf2_sample_def)
  then have recs: "uf2_records uf2_sample = [uf2_sample]" by (simp add: uf2_records_def uf2_block_size_def)
  have parse: "inkwell_uf2_block_parse (Some uf2_sample) = Some \<lparr>blk_flags = 0x2000, blk_target_address = 0x26000, blk_payload_size = 256,
      blk_block_no = 0, blk_num_blocks = 1, blk_family_id = 0xADA52840, blk_has_family = True, blk_skip = False\<rparr>"
    using len by (simp add: inkwell_uf2_block_parse_def uf2_block_size_def uf2_u32_def uf2_sample_def le32_bytes_def nth_append le32_def Let_def)
  obtain verdict info where v: "inkwell_uf2_validate (Some uf2_sample) 0xADA52840 = (verdict, info)" by force
  have bs: "map parsed (uf2_records uf2_sample) = [\<lparr>blk_flags = 0x2000, blk_target_address = 0x26000, blk_payload_size = 256,
      blk_block_no = 0, blk_num_blocks = 1, blk_family_id = 0xADA52840, blk_has_family = True, blk_skip = False\<rparr>]"
    by (simp add: recs parsed_def parse)
  show ?thesis
    using uf2_validate_correct [of uf2_sample "0xADA52840"] unfolding Let_def v prod.case bs
    by (simp add: len recs parse uf2_file_def uf2_block_ok_def uf2_main_def uf2_payload_def uf2_end_def)
qed

end
