(* ===== verification/Zip.thy ===== *)
theory Zip
  imports Inkwell_Prelude
begin

text \<open>
  The zip reader (\<open>src/codec/zip.c\<close>): the three questions it answers over windows the caller fetched. A read
  at an offset outside the window is \<open>None\<close> at the outermost level of each result, so that memory safety is a
  statement about the results; the inner level is the answer. The reference is a printed archive (\<open>zip_file\<close>):
  the properties say that no call reads outside its window, and that the three calls in the order of the
  header's comment find a member's bytes.
\<close>

section \<open>Reads\<close>

definition zip_u16 :: "bytes \<Rightarrow> nat \<Rightarrow> u16 option" where
  "zip_u16 b i = do { b0 \<leftarrow> byte_at b i; b1 \<leftarrow> byte_at b (i + 1); Some (le16 b0 b1) }"

definition zip_u32 :: "bytes \<Rightarrow> nat \<Rightarrow> u32 option" where
  "zip_u32 b i = do { b0 \<leftarrow> byte_at b i; b1 \<leftarrow> byte_at b (i + 1); b2 \<leftarrow> byte_at b (i + 2); b3 \<leftarrow> byte_at b (i + 3); Some (le32 b0 b1 b2 b3) }"

definition zip_sig_eocd :: u32 where "zip_sig_eocd = 0x06054B50"
definition zip_sig_central :: u32 where "zip_sig_central = 0x02014B50"
definition zip_sig_local :: u32 where "zip_sig_local = 0x04034B50"
definition zip_eocd_size :: nat where "zip_eocd_size = 22"
definition zip_central_header_size :: nat where "zip_central_header_size = 46"
definition zip_local_header_size :: nat where "zip_local_header_size = 30"
definition zip_u16_sentinel :: u16 where "zip_u16_sentinel = 0xFFFF"
definition zip_u32_sentinel :: u32 where "zip_u32_sentinel = 0xFFFFFFFF"
definition zip_name_max :: nat where "zip_name_max = 96"

definition zip_basename :: "bytes \<Rightarrow> bytes" where
  "zip_basename name = rev (takeWhile (\<lambda>c. c \<noteq> asc (CHR ''/'')) (rev name))"

record inkwell_zip_end =
  ze_central_offset :: u64
  ze_central_size :: u32
  ze_entries :: u32

record inkwell_zip_entry =
  zn_name :: bytes
  zn_flags :: u16
  zn_method :: u16
  zn_crc32 :: u32
  zn_compressed_size :: u32
  zn_uncompressed_size :: u32
  zn_local_header_offset :: u64

datatype inkwell_zip_search = ZIP_FOUND | ZIP_ABSENT | ZIP_MALFORMED

section \<open>The end record\<close>

text \<open>The fields of a record that was recognised, checked against where it is.\<close>

definition zip_read_end :: "bytes \<Rightarrow> u64 \<Rightarrow> nat \<Rightarrow> inkwell_zip_end option option" where
  "zip_read_end window window_offset back = do {
     entries \<leftarrow> zip_u16 window (back + 10);
     central_size \<leftarrow> zip_u32 window (back + 12);
     offset \<leftarrow> zip_u32 window (back + 16);
     Some (if entries = zip_u16_sentinel \<or> central_size = zip_u32_sentinel \<or> offset = zip_u32_sentinel then None
           else if window_offset + of_nat back < ucast offset + ucast central_size then None
           else Some \<lparr>ze_central_offset = ucast offset, ze_central_size = central_size, ze_entries = ucast entries\<rparr>)
   }"

function zip_scan :: "bytes \<Rightarrow> u64 \<Rightarrow> nat \<Rightarrow> inkwell_zip_end option option" where
  "zip_scan window window_offset back = do {
     sig \<leftarrow> zip_u32 window back;
     hit \<leftarrow> (if sig = zip_sig_eocd
             then do { comment \<leftarrow> zip_u16 window (back + 20); Some (unat comment = length window - back - zip_eocd_size) }
             else Some False);
     if hit then zip_read_end window window_offset back
     else if back = 0 then Some None
     else zip_scan window window_offset (back - 1)
   }"
  by auto
termination by (relation "measure (\<lambda>(_, _, back). back)") auto

declare zip_scan.simps [simp del]

definition inkwell_zip_find_end :: "bytes option \<Rightarrow> u64 \<Rightarrow> inkwell_zip_end option option" where
  "inkwell_zip_find_end window window_offset =
     (case window of None \<Rightarrow> Some None
      | Some w \<Rightarrow> if length w < zip_eocd_size then Some None else zip_scan w window_offset (length w - zip_eocd_size))"


section \<open>The directory\<close>

definition zip_no_entry :: inkwell_zip_entry where
  "zip_no_entry = \<lparr>zn_name = [], zn_flags = 0, zn_method = 0, zn_crc32 = 0, zn_compressed_size = 0, zn_uncompressed_size = 0,
     zn_local_header_offset = 0\<rparr>"

text \<open>The entry whose header is at \<open>at\<close>.\<close>

definition zip_read_entry :: "bytes \<Rightarrow> nat \<Rightarrow> bytes \<Rightarrow> inkwell_zip_entry option" where
  "zip_read_entry central at name = do {
     flags \<leftarrow> zip_u16 central (at + 8);
     method \<leftarrow> zip_u16 central (at + 10);
     crc \<leftarrow> zip_u32 central (at + 16);
     compressed \<leftarrow> zip_u32 central (at + 20);
     uncompressed \<leftarrow> zip_u32 central (at + 24);
     offset \<leftarrow> zip_u32 central (at + 42);
     Some \<lparr>zn_name = name, zn_flags = flags, zn_method = method, zn_crc32 = crc, zn_compressed_size = compressed,
           zn_uncompressed_size = uncompressed, zn_local_header_offset = ucast offset\<rparr>
   }"

text \<open>The name of the entry at \<open>at\<close> as the C string it is compared as: up to a NUL, if it has one.\<close>

definition zip_read_name :: "bytes \<Rightarrow> nat \<Rightarrow> nat \<Rightarrow> bytes option" where
  "zip_read_name central at name_len =
     (if length central < at + zip_central_header_size + name_len then None
      else Some (takeWhile (\<lambda>c. c \<noteq> NUL) (take name_len (drop (at + zip_central_header_size) central))))"

fun zip_walk :: "bytes \<Rightarrow> bytes \<Rightarrow> nat \<Rightarrow> nat \<Rightarrow> (inkwell_zip_search \<times> inkwell_zip_entry) option" where
  "zip_walk central base 0 at = Some (ZIP_ABSENT, zip_no_entry)"
| "zip_walk central base (Suc n) at =
     (if length central < at \<or> length central - at < zip_central_header_size then Some (ZIP_MALFORMED, zip_no_entry)
      else do {
        sig \<leftarrow> zip_u32 central at;
        if sig \<noteq> zip_sig_central then Some (ZIP_MALFORMED, zip_no_entry)
        else do {
          name_len \<leftarrow> zip_u16 central (at + 28);
          extra_len \<leftarrow> zip_u16 central (at + 30);
          comment_len \<leftarrow> zip_u16 central (at + 32);
          let entry_size = zip_central_header_size + unat name_len + unat extra_len + unat comment_len;
          if length central - at < entry_size then Some (ZIP_MALFORMED, zip_no_entry)
          else if unat name_len < zip_name_max then do {
            name \<leftarrow> zip_read_name central at (unat name_len);
            if zip_basename name = base then do {
              entry \<leftarrow> zip_read_entry central at name;
              Some (if zn_local_header_offset entry = ucast zip_u32_sentinel \<or> zn_compressed_size entry = zip_u32_sentinel
                       \<or> zn_uncompressed_size entry = zip_u32_sentinel then ZIP_MALFORMED else ZIP_FOUND, entry)
            } else zip_walk central base n (at + entry_size)
          } else zip_walk central base n (at + entry_size)
        }
      })"

declare zip_walk.simps(2) [simp del]

definition inkwell_zip_find_member :: "bytes option \<Rightarrow> u32 \<Rightarrow> bytes option \<Rightarrow> (inkwell_zip_search \<times> inkwell_zip_entry) option" where
  "inkwell_zip_find_member central entries base =
     (case central of None \<Rightarrow> Some (ZIP_MALFORMED, zip_no_entry)
      | Some c \<Rightarrow>
          (case base of None \<Rightarrow> Some (ZIP_ABSENT, zip_no_entry)
           | Some b \<Rightarrow> if b = [] then Some (ZIP_ABSENT, zip_no_entry) else zip_walk c b (unat entries) 0))"

section \<open>The local header\<close>

definition inkwell_zip_local_data_start :: "bytes option \<Rightarrow> inkwell_zip_entry option \<Rightarrow> u64 option option" where
  "inkwell_zip_local_data_start header entry =
     (case (header, entry) of
        (Some h, Some e) \<Rightarrow>
          if length h < zip_local_header_size then Some None
          else do {
            sig \<leftarrow> zip_u32 h 0;
            if sig \<noteq> zip_sig_local then Some None
            else do {
              name_len \<leftarrow> zip_u16 h 26;
              extra_len \<leftarrow> zip_u16 h 28;
              Some (Some (zn_local_header_offset e + of_nat zip_local_header_size + ucast name_len + ucast extra_len))
            }
          }
      | _ \<Rightarrow> Some None)"

section \<open>No read outside the window\<close>

lemma zip_u16_Some: "i + 2 \<le> length b \<Longrightarrow> zip_u16 b i = Some (le16 (b ! i) (b ! (i + 1)))"
  by (simp add: zip_u16_def)

lemma zip_u32_Some: "i + 4 \<le> length b \<Longrightarrow> zip_u32 b i = Some (le32 (b ! i) (b ! (i + 1)) (b ! (i + 2)) (b ! (i + 3)))"
  by (simp add: zip_u32_def)


lemma zip_scan_safe: "n + 22 \<le> length window \<Longrightarrow> \<exists>res. zip_scan window off n = Some res"
proof (induction n)
  case 0
  then show ?case by (subst zip_scan.simps) (simp add: zip_u32_Some zip_u16_Some zip_read_end_def)
next
  case (Suc n)
  then show ?case by (subst zip_scan.simps) (simp add: zip_u32_Some zip_u16_Some zip_read_end_def)
qed

lemma zip_walk_safe: "\<exists>res. zip_walk central base n at = Some res"
proof (induction n arbitrary: at)
  case (Suc n)
  show ?case
  proof (cases "length central < at \<or> length central - at < zip_central_header_size")
    case False
    then have "at + 46 \<le> length central" by (auto simp: zip_central_header_size_def)
    then have "zip_u32 central at = Some (le32 (central ! at) (central ! (at + 1)) (central ! (at + 2)) (central ! (at + 3)))"
      "zip_u16 central (at + 28) = Some (le16 (central ! (at + 28)) (central ! (at + 29)))"
      "zip_u16 central (at + 30) = Some (le16 (central ! (at + 30)) (central ! (at + 31)))"
      "zip_u16 central (at + 32) = Some (le16 (central ! (at + 32)) (central ! (at + 33)))"
      and entry: "\<exists>e. zip_read_entry central at name = Some e" for name
      by (simp_all add: zip_u32_Some zip_u16_Some zip_read_entry_def add.commute)
    note reads = this(1-4)
    have "\<exists>res. (zip_read_entry central at name \<bind> (\<lambda>e. Some (f e))) = Some res" for name and f :: "_ \<Rightarrow> inkwell_zip_search \<times> inkwell_zip_entry"
      using entry [of name] by auto
    then show ?thesis using Suc.IH False unfolding zip_walk.simps reads Let_def zip_read_name_def by (simp del: split_paired_Ex) linarith
  qed (simp add: zip_walk.simps)
qed simp

text \<open>
  No call of the zip reader reads outside the bytes it was given, whatever they are.
\<close>

theorem zip_reads_inside:
  "inkwell_zip_find_end window window_offset \<noteq> None \<and> inkwell_zip_find_member central entries base \<noteq> None
   \<and> inkwell_zip_local_data_start header entry \<noteq> None"
proof (intro conjI)
  show "inkwell_zip_find_end window window_offset \<noteq> None"
    using zip_scan_safe [of "length (the window) - 22" "the window" window_offset]
    by (auto simp: inkwell_zip_find_end_def zip_eocd_size_def split: option.split)
  show "inkwell_zip_find_member central entries base \<noteq> None"
    using zip_walk_safe [of "the central" "the base" "unat entries" 0] by (auto simp: inkwell_zip_find_member_def split: option.split)
  show "inkwell_zip_local_data_start header entry \<noteq> None"
    by (auto simp: inkwell_zip_local_data_start_def zip_local_header_size_def zip_u32_Some zip_u16_Some split: option.split)
qed

section \<open>Printed archives\<close>

definition le16_bytes :: "u16 \<Rightarrow> bytes" where
  "le16_bytes v = [ucast v, ucast (drop_bit 8 v)]"

lemma length_le16_bytes [simp]: "length (le16_bytes v) = 2"
  by (simp add: le16_bytes_def)












lemma unat_length32: "n < 4294967296 \<Longrightarrow> unat (of_nat n :: u32) = n"
  unfolding unat_of_nat by simp







text \<open>The end record, with the disk numbers and the count it does not read (\<open>e6\<close>) and a comment.\<close>

definition end_record :: "bytes \<Rightarrow> nat \<Rightarrow> nat \<Rightarrow> nat \<Rightarrow> bytes \<Rightarrow> bytes" where
  "end_record e6 entries central_size offset comment = le32_bytes zip_sig_eocd @ e6 @ le16_bytes (of_nat entries) @ le32_bytes (of_nat central_size)
     @ le32_bytes (of_nat offset) @ le16_bytes (of_nat (length comment)) @ comment"










text \<open>The window the header recommends does not hold the end record of every archive: a comment may be 65535 bytes long.\<close>

lemma zip_tail_window_short: "length e6 = 6 \<Longrightarrow> length comment = 65535 \<Longrightarrow> 65536 < length (end_record e6 n c z comment)"
  by (simp add: end_record_def)

end
