(* ===== verification/Host.thy ===== *)
theory Host
  imports Inkwell_Prelude
begin

text \<open>
  What the stateful components ask of the operating system. \<open>host\<close> is the record of the system calls they make,
  each a function of the outside world \<open>'w\<close> that answers a result and the world after it; the calls themselves
  are not defined here: every component takes the record as an argument, and what a proof needs of a call is a
  hypothesis on it. The descriptor and socket calls of \<open>src/base/fd.c\<close> on a POSIX system are the thin layer
  above it. A descriptor is an \<open>int\<close>; \<open>EWOULDBLOCK\<close> is \<open>EAGAIN\<close>, as on Linux and macOS.
\<close>

section \<open>System calls\<close>

datatype epoll_op = EPOLL_CTL_ADD | EPOLL_CTL_MOD | EPOLL_CTL_DEL

datatype kqueue_filter = EVFILT_READ | EVFILT_WRITE

text \<open>An event of a kqueue: the descriptor, the filter, the flags the sources read (\<open>EV_ERROR\<close>, \<open>EV_EOF\<close>),
  \<open>fflags\<close>, \<open>data\<close> and the pointer of the registration, which is the index of a source.\<close>

record kevent =
  ke_ident :: int
  ke_filter :: kqueue_filter
  ke_error :: bool
  ke_eof :: bool
  ke_fflags :: u32
  ke_data :: int
  ke_udata :: nat

record 'w host =
  h_now :: "'w \<Rightarrow> u64 \<times> 'w"
  h_read :: "int \<Rightarrow> nat \<Rightarrow> 'w \<Rightarrow> (errno + bytes) \<times> 'w"
  h_write :: "int \<Rightarrow> bytes \<Rightarrow> 'w \<Rightarrow> (errno + nat) \<times> 'w"
  h_recv :: "int \<Rightarrow> nat \<Rightarrow> 'w \<Rightarrow> (errno + bytes) \<times> 'w"
  h_send :: "int \<Rightarrow> bytes \<Rightarrow> 'w \<Rightarrow> (errno + nat) \<times> 'w"
  h_close :: "int \<Rightarrow> 'w \<Rightarrow> (errno + unit) \<times> 'w"
  h_eventfd :: "'w \<Rightarrow> (errno + int) \<times> 'w"
  h_epoll_create :: "'w \<Rightarrow> (errno + int) \<times> 'w"
  h_epoll_ctl :: "int \<Rightarrow> epoll_op \<Rightarrow> int \<Rightarrow> u32 \<times> nat \<Rightarrow> 'w \<Rightarrow> (errno + unit) \<times> 'w"
  h_epoll_wait :: "int \<Rightarrow> nat \<Rightarrow> int \<Rightarrow> 'w \<Rightarrow> (errno + (nat \<times> u32) list) \<times> 'w"
  h_kqueue :: "'w \<Rightarrow> (errno + int) \<times> 'w"
  h_kevent_change :: "int \<Rightarrow> int \<Rightarrow> kqueue_filter \<Rightarrow> bool \<Rightarrow> nat \<Rightarrow> 'w \<Rightarrow> (errno + unit) \<times> 'w"
  h_kevent_wait :: "int \<Rightarrow> nat \<Rightarrow> (int \<times> int) option \<Rightarrow> 'w \<Rightarrow> (errno + kevent list) \<times> 'w"

section \<open>Descriptors\<close>

definition int_max :: nat where "int_max = 2147483647"

definition inkwell_fd_read :: "'w host \<Rightarrow> int \<Rightarrow> nat \<Rightarrow> 'w \<Rightarrow> (errno + bytes) \<times> 'w" where
  "inkwell_fd_read h fd len w = (if fd < 0 then (Inl EINVAL, w) else h_read h fd (min len int_max) w)"

definition inkwell_fd_write :: "'w host \<Rightarrow> int \<Rightarrow> bytes \<Rightarrow> 'w \<Rightarrow> (errno + nat) \<times> 'w" where
  "inkwell_fd_write h fd data w = (if fd < 0 then (Inl EINVAL, w) else h_write h fd (take int_max data) w)"

definition inkwell_fd_close :: "'w host \<Rightarrow> int \<Rightarrow> 'w \<Rightarrow> (errno + unit) \<times> 'w" where
  "inkwell_fd_close h fd w = (if fd < 0 then (Inl EINVAL, w) else h_close h fd w)"

section \<open>Sockets\<close>

text \<open>A socket is a \<open>uintptr_t\<close>, cast to a descriptor where a call is made.\<close>

definition socket_invalid :: u64 where "socket_invalid = - 1"

definition socket_fd :: "u64 \<Rightarrow> int" where
  "socket_fd s = sint (ucast s :: u32)"

definition inkwell_fd_to_socket :: "int \<Rightarrow> errno + u64" where
  "inkwell_fd_to_socket fd = (if fd < 0 then Inl EINVAL else Inr (of_int fd))"

definition inkwell_socket_send :: "'w host \<Rightarrow> u64 \<Rightarrow> bytes \<Rightarrow> 'w \<Rightarrow> (errno + nat) \<times> 'w" where
  "inkwell_socket_send h s data w =
     (if s = socket_invalid then (Inl EINVAL, w) else h_send h (socket_fd s) (take int_max data) w)"

definition inkwell_socket_recv :: "'w host \<Rightarrow> u64 \<Rightarrow> nat \<Rightarrow> 'w \<Rightarrow> (errno + bytes) \<times> 'w" where
  "inkwell_socket_recv h s len w =
     (if s = socket_invalid then (Inl EINVAL, w) else h_recv h (socket_fd s) (min len int_max) w)"

definition inkwell_socket_close :: "'w host \<Rightarrow> u64 \<Rightarrow> 'w \<Rightarrow> (errno + unit) \<times> 'w" where
  "inkwell_socket_close h s w = (if s = socket_invalid then (Inl EINVAL, w) else h_close h (socket_fd s) w)"

end
