(* ===== verification/Loop.thy ===== *)
theory Loop
  imports Host "HOL-Library.Monad_Syntax"
begin

text \<open>
  The event loop (\<open>src/runtime/loop.c\<close>) with the wake descriptor it owns (\<open>src/runtime/wake.c\<close>), on Linux
  (epoll, eventfd) and, for the poll set, on macOS (kqueue). The table of sources is a list of records, and the
  pointer the kernel keeps with a registration is the index of a source in it. A callback is a name:
  \<open>APP_CALLBACK n\<close> is code of the application, whose effect on the loop and on the world is the argument
  \<open>app\<close> of the operations that dispatch. \<open>loop_backend\<close> is the set of functions the \<open>backend_\<close> names stand for
  on one system, and the interface \<open>poll_backend\<close> is what the table relies on; both systems provide it. A
  dispatch is \<open>None\<close> when a NULL callback is called or a wake is drained for ever.
\<close>

section \<open>State\<close>

definition loop_in :: u32 where "loop_in = 0x001"
definition loop_out :: u32 where "loop_out = 0x004"
definition loop_err :: u32 where "loop_err = 0x008"
definition loop_hup :: u32 where "loop_hup = 0x010"

definition loop_max_sources :: nat where "loop_max_sources = 32"

datatype inkwell_loop_callback = NULL_CALLBACK | WAKE_CALLBACK | APP_CALLBACK nat

record inkwell_loop_source =
  src_fd :: int
  src_events :: u32
  src_callback :: inkwell_loop_callback
  src_userdata :: nat
  src_active :: bool

record inkwell_wake =
  wake_read_fd :: int
  wake_write_fd :: int

record inkwell_loop =
  poll_fd :: int
  wake :: inkwell_wake
  running :: bool
  stop_requested :: bool
  sources :: "inkwell_loop_source list"

type_synonym 'w app = "nat \<Rightarrow> int \<Rightarrow> u32 \<Rightarrow> nat \<Rightarrow> inkwell_loop \<times> 'w \<Rightarrow> inkwell_loop \<times> 'w"

text \<open>A call of a callback: the source, the descriptor it was given, the events.\<close>

type_synonym loop_call = "nat \<times> int \<times> u32"

record 'w loop_backend =
  b_open :: "'w \<Rightarrow> (errno + int) \<times> 'w"
  b_add :: "int \<Rightarrow> nat \<Rightarrow> inkwell_loop_source \<Rightarrow> 'w \<Rightarrow> (errno + unit) \<times> 'w"
  b_update :: "int \<Rightarrow> nat \<Rightarrow> inkwell_loop_source \<Rightarrow> u32 \<Rightarrow> 'w \<Rightarrow> (errno + unit) \<times> 'w"
  b_remove :: "int \<Rightarrow> nat \<Rightarrow> inkwell_loop_source \<Rightarrow> 'w \<Rightarrow> (errno + unit) \<times> 'w"
  b_dispatch :: "'w app \<Rightarrow> inkwell_loop \<Rightarrow> int \<Rightarrow> 'w \<Rightarrow> ((errno + nat) \<times> loop_call list \<times> inkwell_loop \<times> 'w) option"

section \<open>The wake\<close>

definition inkwell_wake_open :: "'w host \<Rightarrow> 'w \<Rightarrow> (errno + unit) \<times> inkwell_wake \<times> 'w" where
  "inkwell_wake_open h w =
     (case h_eventfd h w of
        (Inl e, w) \<Rightarrow> (Inl e, \<lparr>wake_read_fd = -1, wake_write_fd = -1\<rparr>, w)
      | (Inr fd, w) \<Rightarrow> (Inr (), \<lparr>wake_read_fd = fd, wake_write_fd = fd\<rparr>, w))"

definition inkwell_wake_signal :: "'w host \<Rightarrow> inkwell_wake \<Rightarrow> 'w \<Rightarrow> (errno + unit) \<times> 'w" where
  "inkwell_wake_signal h k w =
     (if wake_write_fd k < 0 then (Inl EINVAL, w)
      else case h_write h (wake_write_fd k) [1, 0, 0, 0, 0, 0, 0, 0] w of
        (Inl e, w) \<Rightarrow> (if e = EAGAIN then Inr () else Inl e, w)
      | (Inr _, w) \<Rightarrow> (Inr (), w))"

partial_function (option) wake_drain_loop :: "'w host \<Rightarrow> int \<Rightarrow> 'w \<Rightarrow> ((errno + bool) \<times> 'w) option" where
  "wake_drain_loop h fd w =
     (case h_read h fd 8 w of
        (Inr got, w) \<Rightarrow> Some (Inr (got \<noteq> []), w)
      | (Inl e, w) \<Rightarrow>
          if e = EINTR then wake_drain_loop h fd w
          else if e \<noteq> EAGAIN then Some (Inl e, w)
          else Some (Inr False, w))"

definition inkwell_wake_drain :: "'w host \<Rightarrow> inkwell_wake \<Rightarrow> 'w \<Rightarrow> ((errno + bool) \<times> 'w) option" where
  "inkwell_wake_drain h k w = (if wake_read_fd k < 0 then Some (Inl EINVAL, w) else wake_drain_loop h (wake_read_fd k) w)"

definition inkwell_wake_close :: "'w host \<Rightarrow> inkwell_wake \<Rightarrow> 'w \<Rightarrow> inkwell_wake \<times> 'w" where
  "inkwell_wake_close h k w =
     (let w = (if wake_write_fd k \<ge> 0 \<and> wake_write_fd k \<noteq> wake_read_fd k then snd (h_close h (wake_write_fd k) w) else w);
          w = (if wake_read_fd k \<ge> 0 then snd (h_close h (wake_read_fd k) w) else w)
      in (\<lparr>wake_read_fd = -1, wake_write_fd = -1\<rparr>, w))"

section \<open>Callbacks\<close>

definition wake_callback :: "'w host \<Rightarrow> inkwell_loop \<times> 'w \<Rightarrow> (inkwell_loop \<times> 'w) option" where
  "wake_callback h = (\<lambda>(L, w).
     do { (_, w) \<leftarrow> inkwell_wake_drain h (wake L) w;
          Some (L\<lparr>running := False, stop_requested := True\<rparr>, w) })"

definition call_source :: "'w host \<Rightarrow> 'w app \<Rightarrow> inkwell_loop_source \<Rightarrow> u32 \<Rightarrow> inkwell_loop \<times> 'w \<Rightarrow> (inkwell_loop \<times> 'w) option" where
  "call_source h app s events st =
     (case src_callback s of
        NULL_CALLBACK \<Rightarrow> None
      | WAKE_CALLBACK \<Rightarrow> wake_callback h st
      | APP_CALLBACK f \<Rightarrow> Some (app f (src_fd s) events (src_userdata s) st))"

section \<open>The epoll backend\<close>

definition backend_ctl :: "'w host \<Rightarrow> int \<Rightarrow> epoll_op \<Rightarrow> nat \<Rightarrow> inkwell_loop_source \<Rightarrow> u32 \<Rightarrow> 'w \<Rightarrow> (errno + unit) \<times> 'w" where
  "backend_ctl h p op i s events w = h_epoll_ctl h p op (src_fd s) (events, i) w"

fun epoll_deliver :: "'w host \<Rightarrow> 'w app \<Rightarrow> (nat \<times> u32) list \<Rightarrow> inkwell_loop \<times> 'w \<Rightarrow> (loop_call list \<times> inkwell_loop \<times> 'w) option" where
  "epoll_deliver h app [] st = Some ([], st)"
| "epoll_deliver h app ((i, m) # evs) st =
     (let s = sources (fst st) ! i in
      if \<not> src_active s then epoll_deliver h app evs st
      else do { st \<leftarrow> call_source h app s m st;
                (calls, st) \<leftarrow> epoll_deliver h app evs st;
                Some ((i, src_fd s, m) # calls, st) })"

definition epoll_dispatch :: "'w host \<Rightarrow> 'w app \<Rightarrow> inkwell_loop \<Rightarrow> int \<Rightarrow> 'w \<Rightarrow> ((errno + nat) \<times> loop_call list \<times> inkwell_loop \<times> 'w) option" where
  "epoll_dispatch h app L wait_ms w =
     (case h_epoll_wait h (poll_fd L) 8 wait_ms w of
        (Inl e, w) \<Rightarrow> Some (Inl e, [], L, w)
      | (Inr evs, w) \<Rightarrow>
          do { (calls, st) \<leftarrow> epoll_deliver h app evs (L, w);
               Some (Inr (length evs), calls, st) })"

definition epoll_backend :: "'w host \<Rightarrow> 'w loop_backend" where
  "epoll_backend h = \<lparr>
     b_open = h_epoll_create h,
     b_add = (\<lambda>p i s. backend_ctl h p EPOLL_CTL_ADD i s (src_events s)),
     b_update = (\<lambda>p i s was. backend_ctl h p EPOLL_CTL_MOD i s (src_events s)),
     b_remove = (\<lambda>p i s. h_epoll_ctl h p EPOLL_CTL_DEL (src_fd s) (0, 0)),
     b_dispatch = epoll_dispatch h\<rparr>"

section \<open>The kqueue backend\<close>

fun filter_bit :: "kqueue_filter \<Rightarrow> u32" where
  "filter_bit EVFILT_READ = loop_in"
| "filter_bit EVFILT_WRITE = loop_out"

definition wants :: "u32 \<Rightarrow> kqueue_filter \<Rightarrow> bool" where
  "wants m d \<longleftrightarrow> m AND filter_bit d \<noteq> 0"

text \<open>The filters changed so far are put back to \<open>was\<close>, in the order they were changed.\<close>

fun kqueue_rollback :: "'w host \<Rightarrow> int \<Rightarrow> nat \<Rightarrow> inkwell_loop_source \<Rightarrow> u32 \<Rightarrow> kqueue_filter list \<Rightarrow> 'w \<Rightarrow> 'w" where
  "kqueue_rollback h p i s was [] w = w"
| "kqueue_rollback h p i s was (d # ds) w =
     kqueue_rollback h p i s was ds (snd (h_kevent_change h p (src_fd s) d (wants was d) i w))"

fun kqueue_apply_loop :: "'w host \<Rightarrow> int \<Rightarrow> nat \<Rightarrow> inkwell_loop_source \<Rightarrow> u32 \<Rightarrow> u32 \<Rightarrow> kqueue_filter list \<Rightarrow> kqueue_filter list \<Rightarrow> 'w \<Rightarrow> (errno + unit) \<times> 'w" where
  "kqueue_apply_loop h p i s was now applied [] w = (Inr (), w)"
| "kqueue_apply_loop h p i s was now applied (d # ds) w =
     (if wants was d = wants now d then kqueue_apply_loop h p i s was now applied ds w
      else case h_kevent_change h p (src_fd s) d (wants now d) i w of
        (Inl e, w) \<Rightarrow> (Inl e, kqueue_rollback h p i s was applied w)
      | (Inr _, w) \<Rightarrow> kqueue_apply_loop h p i s was now (applied @ [d]) ds w)"

definition kqueue_apply :: "'w host \<Rightarrow> int \<Rightarrow> nat \<Rightarrow> inkwell_loop_source \<Rightarrow> u32 \<Rightarrow> u32 \<Rightarrow> 'w \<Rightarrow> (errno + unit) \<times> 'w" where
  "kqueue_apply h p i s was now w = kqueue_apply_loop h p i s was now [] [EVFILT_READ, EVFILT_WRITE] w"

definition kqueue_mask :: "kevent \<Rightarrow> u32" where
  "kqueue_mask ev =
     (if ke_error ev then loop_err
      else let eof = ke_eof ev;
               error = (if eof \<and> ke_fflags ev \<noteq> 0 then loop_err else 0)
           in case ke_filter ev of
                EVFILT_READ \<Rightarrow> loop_in OR error OR (if eof \<and> ke_data ev = 0 then loop_hup else 0)
              | EVFILT_WRITE \<Rightarrow> if eof then loop_out OR loop_hup OR error else loop_out)"

text \<open>The batch, merged: one entry per source, in the order of first mention, with the union of its masks.\<close>

fun kqueue_merge_one :: "loop_call list \<Rightarrow> kevent \<Rightarrow> loop_call list" where
  "kqueue_merge_one [] ev = [(ke_udata ev, ke_ident ev, kqueue_mask ev)]"
| "kqueue_merge_one ((i, fd, m) # rs) ev =
     (if i = ke_udata ev then (i, fd, m OR kqueue_mask ev) # rs else (i, fd, m) # kqueue_merge_one rs ev)"

definition kqueue_merge :: "kevent list \<Rightarrow> loop_call list" where
  "kqueue_merge evs = foldl kqueue_merge_one [] evs"

fun kqueue_deliver :: "'w host \<Rightarrow> 'w app \<Rightarrow> loop_call list \<Rightarrow> inkwell_loop \<times> 'w \<Rightarrow> (loop_call list \<times> inkwell_loop \<times> 'w) option" where
  "kqueue_deliver h app [] st = Some ([], st)"
| "kqueue_deliver h app ((i, fd, m) # rs) st =
     (let s = sources (fst st) ! i in
      if \<not> src_active s \<or> src_fd s \<noteq> fd then kqueue_deliver h app rs st
      else do { st \<leftarrow> call_source h app s m st;
                (calls, st) \<leftarrow> kqueue_deliver h app rs st;
                Some ((i, src_fd s, m) # calls, st) })"

definition kqueue_dispatch :: "'w host \<Rightarrow> 'w app \<Rightarrow> inkwell_loop \<Rightarrow> int \<Rightarrow> 'w \<Rightarrow> ((errno + nat) \<times> loop_call list \<times> inkwell_loop \<times> 'w) option" where
  "kqueue_dispatch h app L wait_ms w =
     (let timeout = (if wait_ms \<ge> 0 then Some (wait_ms div 1000, wait_ms mod 1000 * 1000000) else None) in
      case h_kevent_wait h (poll_fd L) 16 timeout w of
        (Inl e, w) \<Rightarrow> Some (Inl e, [], L, w)
      | (Inr evs, w) \<Rightarrow>
          (let ready = kqueue_merge evs in
           do { (calls, st) \<leftarrow> kqueue_deliver h app ready (L, w);
                Some (Inr (length ready), calls, st) }))"

definition kqueue_backend :: "'w host \<Rightarrow> 'w loop_backend" where
  "kqueue_backend h = \<lparr>
     b_open = h_kqueue h,
     b_add = (\<lambda>p i s. kqueue_apply h p i s 0 (src_events s)),
     b_update = (\<lambda>p i s was. kqueue_apply h p i s was (src_events s)),
     b_remove = (\<lambda>p i s w. (Inr (), snd (kqueue_apply h p i s (src_events s) 0 w))),
     b_dispatch = kqueue_dispatch h\<rparr>"

section \<open>The table\<close>

definition find_source_index :: "inkwell_loop \<Rightarrow> int \<Rightarrow> nat option" where
  "find_source_index L fd = List.find (\<lambda>i. src_active (sources L ! i) \<and> src_fd (sources L ! i) = fd) [0..<loop_max_sources]"

definition free_slot :: "inkwell_loop \<Rightarrow> nat option" where
  "free_slot L = List.find (\<lambda>i. \<not> src_active (sources L ! i)) [0..<loop_max_sources]"

definition set_source :: "inkwell_loop \<Rightarrow> nat \<Rightarrow> inkwell_loop_source \<Rightarrow> inkwell_loop" where
  "set_source L i s = L\<lparr>sources := (sources L)[i := s]\<rparr>"

definition inkwell_loop_add_fd :: "'w loop_backend \<Rightarrow> inkwell_loop \<Rightarrow> int \<Rightarrow> u32 \<Rightarrow> inkwell_loop_callback \<Rightarrow> nat \<Rightarrow> 'w \<Rightarrow> (errno + unit) \<times> inkwell_loop \<times> 'w" where
  "inkwell_loop_add_fd B L fd events callback userdata w =
     (if fd < 0 \<or> callback = NULL_CALLBACK then (Inl EINVAL, L, w)
      else if find_source_index L fd \<noteq> None then (Inl EEXIST, L, w)
      else case free_slot L of
        None \<Rightarrow> (Inl ENOSPC, L, w)
      | Some slot \<Rightarrow>
          let s = \<lparr>src_fd = fd, src_events = events, src_callback = callback, src_userdata = userdata, src_active = True\<rparr>
          in case b_add B (poll_fd L) slot s w of
               (Inl e, w) \<Rightarrow> (Inl e, set_source L slot (s\<lparr>src_active := False\<rparr>), w)
             | (Inr _, w) \<Rightarrow> (Inr (), set_source L slot s, w))"

definition inkwell_loop_watch_socket :: "'w loop_backend \<Rightarrow> inkwell_loop \<Rightarrow> u64 \<Rightarrow> u32 \<Rightarrow> inkwell_loop_callback \<Rightarrow> nat \<Rightarrow> 'w \<Rightarrow> (errno + int) \<times> inkwell_loop \<times> 'w" where
  "inkwell_loop_watch_socket B L s events callback userdata w =
     (if int_max < unat s then (Inl EINVAL, L, w)
      else case inkwell_loop_add_fd B L (socket_fd s) events callback userdata w of
        (Inl e, st) \<Rightarrow> (Inl e, st)
      | (Inr _, st) \<Rightarrow> (Inr (socket_fd s), st))"

definition inkwell_loop_update_fd :: "'w loop_backend \<Rightarrow> inkwell_loop \<Rightarrow> int \<Rightarrow> u32 \<Rightarrow> 'w \<Rightarrow> (errno + unit) \<times> inkwell_loop \<times> 'w" where
  "inkwell_loop_update_fd B L fd events w =
     (case find_source_index L fd of
        None \<Rightarrow> (Inl ENOENT, L, w)
      | Some i \<Rightarrow>
          let was = src_events (sources L ! i);
              s = (sources L ! i)\<lparr>src_events := events\<rparr>
          in case b_update B (poll_fd L) i s was w of
               (Inl e, w) \<Rightarrow> (Inl e, set_source L i (s\<lparr>src_events := was\<rparr>), w)
             | (Inr _, w) \<Rightarrow> (Inr (), set_source L i s, w))"

definition no_source :: inkwell_loop_source where
  "no_source = \<lparr>src_fd = -1, src_events = 0, src_callback = NULL_CALLBACK, src_userdata = 0, src_active = False\<rparr>"

definition inkwell_loop_remove_fd :: "'w loop_backend \<Rightarrow> inkwell_loop \<Rightarrow> int \<Rightarrow> 'w \<Rightarrow> (errno + unit) \<times> inkwell_loop \<times> 'w" where
  "inkwell_loop_remove_fd B L fd w =
     (case find_source_index L fd of
        None \<Rightarrow> (Inl ENOENT, L, w)
      | Some i \<Rightarrow>
          (case b_remove B (poll_fd L) i (sources L ! i) w of
             (Inl e, w) \<Rightarrow> (Inl e, L, w)
           | (Inr _, w) \<Rightarrow> (Inr (), set_source L i no_source, w)))"

section \<open>Lifecycle\<close>

definition zero_source :: inkwell_loop_source where
  "zero_source = \<lparr>src_fd = 0, src_events = 0, src_callback = NULL_CALLBACK, src_userdata = 0, src_active = False\<rparr>"

definition zero_loop :: inkwell_loop where
  "zero_loop = \<lparr>poll_fd = -1, wake = \<lparr>wake_read_fd = -1, wake_write_fd = -1\<rparr>, running = False,
     stop_requested = False, sources = replicate loop_max_sources zero_source\<rparr>"

definition inkwell_loop_init :: "'w loop_backend \<Rightarrow> 'w host \<Rightarrow> 'w \<Rightarrow> (errno + unit) \<times> inkwell_loop \<times> 'w" where
  "inkwell_loop_init B h w =
     (case b_open B w of
        (Inl e, w) \<Rightarrow> (Inl e, zero_loop, w)
      | (Inr p, w) \<Rightarrow>
          (case inkwell_wake_open h w of
             (Inl e, k, w) \<Rightarrow> (Inl e, zero_loop\<lparr>wake := k\<rparr>, snd (h_close h p w))
           | (Inr _, k, w) \<Rightarrow>
               (case inkwell_loop_add_fd B (zero_loop\<lparr>poll_fd := p, wake := k\<rparr>) (wake_read_fd k) loop_in WAKE_CALLBACK 0 w of
                  (Inl e, L, w) \<Rightarrow>
                    (case inkwell_wake_close h k w of
                       (k, w) \<Rightarrow> (Inl e, L\<lparr>wake := k, poll_fd := -1\<rparr>, snd (h_close h p w)))
                | (Inr _, L, w) \<Rightarrow> (Inr (), L\<lparr>running := False, stop_requested := False\<rparr>, w))))"

fun shutdown_sources :: "'w loop_backend \<Rightarrow> nat list \<Rightarrow> inkwell_loop \<times> 'w \<Rightarrow> inkwell_loop \<times> 'w" where
  "shutdown_sources B [] st = st"
| "shutdown_sources B (i # is) (L, w) =
     shutdown_sources B is (if src_active (sources L ! i) then snd (inkwell_loop_remove_fd B L (src_fd (sources L ! i)) w) else (L, w))"

definition inkwell_loop_shutdown :: "'w loop_backend \<Rightarrow> 'w host \<Rightarrow> inkwell_loop \<Rightarrow> 'w \<Rightarrow> inkwell_loop \<times> 'w" where
  "inkwell_loop_shutdown B h L w =
     (case shutdown_sources B [0..<loop_max_sources] (L, w) of
        (L, w) \<Rightarrow>
          (case inkwell_wake_close h (wake L) w of
             (k, w) \<Rightarrow>
               (L\<lparr>wake := k, poll_fd := (if poll_fd L \<ge> 0 then -1 else poll_fd L), running := False, stop_requested := False\<rparr>,
                if poll_fd L \<ge> 0 then snd (h_close h (poll_fd L) w) else w)))"

section \<open>Running\<close>

partial_function (option) loop_run_loop :: "'w loop_backend \<Rightarrow> 'w host \<Rightarrow> 'w app \<Rightarrow> int \<Rightarrow> u64 \<Rightarrow> inkwell_loop \<Rightarrow> 'w \<Rightarrow> ((errno + unit) \<times> inkwell_loop \<times> 'w) option" where
  "loop_run_loop B h app timeout_ms deadline_ms L w =
     (if \<not> running L then Some (Inr (), L\<lparr>running := False\<rparr>, w)
      else
        let (wait_ms, w1) =
              (if timeout_ms > 0 then
                 (let (now, w1) = h_now h w in
                  (if now \<ge> deadline_ms then 0 else sint (ucast (deadline_ms - now) :: u32), w1))
               else (timeout_ms, w))
        in (case b_dispatch B app L wait_ms w1 of
              None \<Rightarrow> None
            | Some (ready, calls, L, w) \<Rightarrow>
                (case ready of
                   Inl e \<Rightarrow>
                     if e = EINTR then loop_run_loop B h app timeout_ms deadline_ms L w
                     else Some (Inl e, L\<lparr>running := False\<rparr>, w)
                 | Inr n \<Rightarrow>
                     if n = 0 then Some (Inr (), L\<lparr>running := False\<rparr>, w)
                     else if timeout_ms > 0 then
                       (let (now, w) = h_now h w in
                        if now \<ge> deadline_ms then Some (Inr (), L\<lparr>running := False\<rparr>, w)
                        else loop_run_loop B h app timeout_ms deadline_ms L w)
                     else loop_run_loop B h app timeout_ms deadline_ms L w)))"

definition inkwell_loop_run :: "'w loop_backend \<Rightarrow> 'w host \<Rightarrow> 'w app \<Rightarrow> inkwell_loop \<Rightarrow> int \<Rightarrow> 'w \<Rightarrow> ((errno + unit) \<times> inkwell_loop \<times> 'w) option" where
  "inkwell_loop_run B h app L timeout_ms w =
     (let L = L\<lparr>running := True, stop_requested := False\<rparr>;
          (deadline_ms, w) =
            (if timeout_ms > 0 then (let (now, w) = h_now h w in (now + of_int timeout_ms, w)) else (0, w))
      in loop_run_loop B h app timeout_ms deadline_ms L w)"

definition inkwell_loop_request_stop :: "'w host \<Rightarrow> inkwell_loop \<Rightarrow> 'w \<Rightarrow> inkwell_loop \<times> 'w" where
  "inkwell_loop_request_stop h L w =
     (let L = L\<lparr>running := False, stop_requested := True\<rparr> in
      (L, if wake_write_fd (wake L) \<ge> 0 then snd (inkwell_wake_signal h (wake L) w) else w))"

section \<open>The table as a map\<close>

definition loop_wf :: "inkwell_loop \<Rightarrow> bool" where
  "loop_wf L \<longleftrightarrow> length (sources L) = loop_max_sources
     \<and> (\<forall>s \<in> set (sources L). src_active s \<longrightarrow> 0 \<le> src_fd s \<and> src_callback s \<noteq> NULL_CALLBACK)
     \<and> (\<forall>i < loop_max_sources. \<forall>j < loop_max_sources. src_active (sources L ! i) \<and> src_active (sources L ! j)
          \<and> src_fd (sources L ! i) = src_fd (sources L ! j) \<longrightarrow> i = j)"

definition occupies :: "inkwell_loop \<Rightarrow> nat \<Rightarrow> int \<Rightarrow> bool" where
  "occupies L i fd \<longleftrightarrow> i < loop_max_sources \<and> src_active (sources L ! i) \<and> src_fd (sources L ! i) = fd"

text \<open>What is registered for a descriptor: the events, the callback and its argument.\<close>

definition registered :: "inkwell_loop \<Rightarrow> int \<Rightarrow> (u32 \<times> inkwell_loop_callback \<times> nat) option" where
  "registered L fd = (case find_source_index L fd of None \<Rightarrow> None
     | Some i \<Rightarrow> Some (src_events (sources L ! i), src_callback (sources L ! i), src_userdata (sources L ! i)))"

lemma find_source_index_SomeD: "find_source_index L fd = Some i \<Longrightarrow> occupies L i fd"
  unfolding find_source_index_def find_Some_iff by (auto simp: occupies_def)

lemma find_source_index_None_iff: "find_source_index L fd = None \<longleftrightarrow> (\<forall>i. \<not> occupies L i fd)"
  unfolding find_source_index_def find_None_iff by (auto simp: occupies_def)

lemma find_source_index_iff:
  assumes "loop_wf L"
  shows "find_source_index L fd = Some i \<longleftrightarrow> occupies L i fd"
proof
  assume i: "occupies L i fd"
  then obtain j where j: "find_source_index L fd = Some j"
    using find_source_index_None_iff [of L fd] by fastforce
  from find_source_index_SomeD [OF j] i assms have "j = i"
    unfolding loop_wf_def occupies_def by blast
  then show "find_source_index L fd = Some i" using j by simp
qed (rule find_source_index_SomeD)

lemma find_source_index_eqI:
  assumes "loop_wf L" "\<And>i. occupies L i fd \<longleftrightarrow> r = Some i"
  shows "find_source_index L fd = r"
proof (cases r)
  case None
  then show ?thesis using assms(2) by (simp add: find_source_index_None_iff)
next
  case (Some i)
  then show ?thesis using assms by (simp add: find_source_index_iff)
qed

lemma free_slot_SomeD: "free_slot L = Some i \<Longrightarrow> i < loop_max_sources \<and> \<not> src_active (sources L ! i)"
  unfolding free_slot_def find_Some_iff by auto

lemma free_slot_None_iff: "free_slot L = None \<longleftrightarrow> (\<forall>i < loop_max_sources. src_active (sources L ! i))"
  unfolding free_slot_def find_None_iff by auto

lemma set_source_simps [simp]:
  "poll_fd (set_source L i s) = poll_fd L" "wake (set_source L i s) = wake L"
  "running (set_source L i s) = running L" "stop_requested (set_source L i s) = stop_requested L"
  "sources (set_source L i s) = (sources L)[i := s]"
  by (simp_all add: set_source_def)

lemma occupies_set_source:
  "loop_wf L \<Longrightarrow> i < loop_max_sources \<Longrightarrow>
     occupies (set_source L i s) j fd \<longleftrightarrow> (if j = i then src_active s \<and> src_fd s = fd else occupies L j fd)"
  by (auto simp: occupies_def loop_wf_def nth_list_update)

lemma loop_wf_set_source:
  assumes "loop_wf L" "i < loop_max_sources"
    "src_active s \<Longrightarrow> 0 \<le> src_fd s \<and> src_callback s \<noteq> NULL_CALLBACK"
    "\<And>j. src_active s \<Longrightarrow> occupies L j (src_fd s) \<Longrightarrow> j = i"
  shows "loop_wf (set_source L i s)"
proof -
  note wf = assms(1) [unfolded loop_wf_def]
  have "\<forall>x \<in> set ((sources L)[i := s]). src_active x \<longrightarrow> 0 \<le> src_fd x \<and> src_callback x \<noteq> NULL_CALLBACK"
    using wf assms(3) set_update_subset_insert [of "sources L" i s] by blast
  moreover have "j = k" if "j < loop_max_sources" "k < loop_max_sources" "src_active ((sources L)[i := s] ! j)"
    "src_active ((sources L)[i := s] ! k)" "src_fd ((sources L)[i := s] ! j) = src_fd ((sources L)[i := s] ! k)" for j k
  proof -
    consider "j = i" "k = i" | "j = i" "k \<noteq> i" | "j \<noteq> i" "k = i" | "j \<noteq> i" "k \<noteq> i" by blast
    then show ?thesis
    proof cases
      case 2
      with that wf assms(2) have "src_active s" "occupies L k (src_fd s)" by (auto simp: occupies_def)
      then show ?thesis using assms(4) 2 by blast
    next
      case 3
      with that wf assms(2) have "src_active s" "occupies L j (src_fd s)" by (auto simp: occupies_def)
      then show ?thesis using assms(4) 3 by blast
    next
      case 4
      then show ?thesis using that wf by simp
    qed simp
  qed
  ultimately show ?thesis using wf unfolding loop_wf_def set_source_simps length_list_update by blast
qed

text \<open>The three ways an operation writes a source, and the map after each.\<close>

lemma fill_slot:
  assumes wf: "loop_wf L" and slot: "free_slot L = Some i" and new: "find_source_index L (src_fd s) = None"
    and s: "src_active s" "0 \<le> src_fd s" "src_callback s \<noteq> NULL_CALLBACK"
  shows "loop_wf (set_source L i s)"
    "find_source_index (set_source L i s) = (find_source_index L)(src_fd s \<mapsto> i)"
proof -
  have i: "i < loop_max_sources" "\<not> src_active (sources L ! i)" using free_slot_SomeD [OF slot] by auto
  have none: "\<not> occupies L j (src_fd s)" for j using new by (simp add: find_source_index_None_iff)
  show wf': "loop_wf (set_source L i s)"
    by (rule loop_wf_set_source [OF wf i(1)]) (use s none in auto)
  show "find_source_index (set_source L i s) = (find_source_index L)(src_fd s \<mapsto> i)"
  proof
    fix fd
    have "find_source_index L fd = Some j \<longleftrightarrow> occupies L j fd" for j by (rule find_source_index_iff [OF wf])
    moreover have "\<not> occupies L i fd" using i by (simp add: occupies_def)
    ultimately show "find_source_index (set_source L i s) fd = ((find_source_index L)(src_fd s \<mapsto> i)) fd"
      using none s by (intro find_source_index_eqI [OF wf']) (auto simp: occupies_set_source [OF wf i(1)])
  qed
qed

lemma change_slot:
  assumes wf: "loop_wf L" and i: "find_source_index L fd = Some i"
    and s: "src_active s" "src_fd s = fd" "src_callback s \<noteq> NULL_CALLBACK"
  shows "loop_wf (set_source L i s)" "find_source_index (set_source L i s) = find_source_index L"
proof -
  have occ: "occupies L i fd" by (rule find_source_index_SomeD [OF i])
  then have lt: "i < loop_max_sources" by (simp add: occupies_def)
  have pos: "0 \<le> fd" using occ wf by (auto simp: occupies_def loop_wf_def)
  have only: "occupies L j fd \<longleftrightarrow> j = i" for j
    using find_source_index_iff [OF wf, of fd] i by (metis option.inject)
  show wf': "loop_wf (set_source L i s)"
    by (rule loop_wf_set_source [OF wf lt]) (use s only pos in auto)
  show "find_source_index (set_source L i s) = find_source_index L"
  proof
    fix fd'
    have "occupies L i fd' \<longleftrightarrow> fd' = fd" using occ by (auto simp: occupies_def)
    then show "find_source_index (set_source L i s) fd' = find_source_index L fd'"
      using s by (intro find_source_index_eqI [OF wf'])
        (auto simp: occupies_set_source [OF wf lt] find_source_index_iff [OF wf])
  qed
qed

lemma drop_slot:
  assumes wf: "loop_wf L" and i: "find_source_index L fd = Some i" and s: "\<not> src_active s"
  shows "loop_wf (set_source L i s)" "find_source_index (set_source L i s) = (find_source_index L)(fd := None)"
proof -
  have occ: "occupies L i fd" by (rule find_source_index_SomeD [OF i])
  then have lt: "i < loop_max_sources" by (simp add: occupies_def)
  have only: "occupies L j fd \<longleftrightarrow> j = i" for j
    using find_source_index_iff [OF wf, of fd] i by (metis option.inject)
  show wf': "loop_wf (set_source L i s)"
    by (rule loop_wf_set_source [OF wf lt]) (use s in auto)
  show "find_source_index (set_source L i s) = (find_source_index L)(fd := None)"
  proof
    fix fd'
    have "occupies L i fd' \<longleftrightarrow> fd' = fd" using occ by (auto simp: occupies_def)
    then show "find_source_index (set_source L i s) fd' = ((find_source_index L)(fd := None)) fd'"
      using s only by (intro find_source_index_eqI [OF wf'])
        (auto simp: occupies_set_source [OF wf lt] find_source_index_iff [OF wf])
  qed
qed

lemma free_slot_quiet:
  assumes wf: "loop_wf L" and i: "free_slot L = Some i" and s: "\<not> src_active s"
  shows "loop_wf (set_source L i s)" "find_source_index (set_source L i s) = find_source_index L"
proof -
  have lt: "i < loop_max_sources" "\<not> src_active (sources L ! i)" using free_slot_SomeD [OF i] by auto
  show wf': "loop_wf (set_source L i s)" by (rule loop_wf_set_source [OF wf lt(1)]) (use s in auto)
  show "find_source_index (set_source L i s) = find_source_index L"
  proof
    fix fd
    have "\<not> occupies L i fd" using lt by (simp add: occupies_def)
    then show "find_source_index (set_source L i s) fd = find_source_index L fd"
      using s by (intro find_source_index_eqI [OF wf'])
        (auto simp: occupies_set_source [OF wf lt(1)] find_source_index_iff [OF wf])
  qed
qed

section \<open>The poll set\<close>

text \<open>
  What the table relies on. \<open>hear p w fd\<close> is what the kernel holds for a descriptor in its poll set \<open>p\<close>:
  \<open>none\<close>, or \<open>entry m i\<close> for a descriptor watched for the events \<open>m\<close> on behalf of the source \<open>i\<close>. A call that
  fails leaves it as it was.
\<close>

locale poll_backend =
  fixes B :: "'w loop_backend"
    and h :: "'w host"
    and none :: 'r
    and entry :: "u32 \<Rightarrow> nat \<Rightarrow> 'r"
    and hear :: "int \<Rightarrow> 'w \<Rightarrow> int \<Rightarrow> 'r"
  assumes open_ok: "b_open B w = (Inr p, w') \<Longrightarrow> hear p w' = (\<lambda>_. none)"
    and add_ok: "b_add B p i s w = (Inr u, w') \<Longrightarrow> hear p w (src_fd s) = none \<Longrightarrow>
      hear p w' = (hear p w)(src_fd s := entry (src_events s) i)"
    and add_fail: "b_add B p i s w = (Inl e, w') \<Longrightarrow> hear p w (src_fd s) = none \<Longrightarrow> hear p w' = hear p w"
    and update_ok: "b_update B p i s was w = (Inr u, w') \<Longrightarrow> hear p w (src_fd s) = entry was i \<Longrightarrow>
      hear p w' = (hear p w)(src_fd s := entry (src_events s) i)"
    and update_fail: "b_update B p i s was w = (Inl e, w') \<Longrightarrow> hear p w (src_fd s) = entry was i \<Longrightarrow>
      hear p w' = hear p w"
    and remove_ok: "b_remove B p i s w = (Inr u, w') \<Longrightarrow> hear p w (src_fd s) = entry (src_events s) i \<Longrightarrow>
      hear p w' = (hear p w)(src_fd s := none)"
    and remove_fail: "b_remove B p i s w = (Inl e, w') \<Longrightarrow> hear p w (src_fd s) = entry (src_events s) i \<Longrightarrow>
      hear p w' = hear p w"
    and eventfd_quiet: "hear p (snd (h_eventfd h w)) = hear p w"

text \<open>The table and the poll set agree: the kernel reports exactly what the active sources ask for, to them.\<close>

definition loop_hears :: "'r \<Rightarrow> (u32 \<Rightarrow> nat \<Rightarrow> 'r) \<Rightarrow> inkwell_loop \<Rightarrow> int \<Rightarrow> 'r" where
  "loop_hears none entry L fd = (case find_source_index L fd of None \<Rightarrow> none | Some i \<Rightarrow> entry (src_events (sources L ! i)) i)"

definition loop_inv :: "'r \<Rightarrow> (u32 \<Rightarrow> nat \<Rightarrow> 'r) \<Rightarrow> (int \<Rightarrow> 'w \<Rightarrow> int \<Rightarrow> 'r) \<Rightarrow> inkwell_loop \<Rightarrow> 'w \<Rightarrow> bool" where
  "loop_inv none entry hear L w \<longleftrightarrow> loop_wf L \<and> hear (poll_fd L) w = loop_hears none entry L"

lemma loop_inv_cong:
  "sources L' = sources L \<Longrightarrow> poll_fd L' = poll_fd L \<Longrightarrow> hear (poll_fd L) w' = hear (poll_fd L) w \<Longrightarrow>
     loop_inv none entry hear L' w' \<longleftrightarrow> loop_inv none entry hear L w"
  by (simp add: loop_inv_def loop_wf_def loop_hears_def [abs_def] find_source_index_def cong del: option.case_cong_weak)

text \<open>What an operation on the table promises: the invariant is kept, and the map changes as \<open>f\<close> says.\<close>

definition table_step :: "'r \<Rightarrow> (u32 \<Rightarrow> nat \<Rightarrow> 'r) \<Rightarrow> (int \<Rightarrow> 'w \<Rightarrow> int \<Rightarrow> 'r) \<Rightarrow> inkwell_loop \<Rightarrow> inkwell_loop \<Rightarrow> 'w \<Rightarrow>
    ((int \<Rightarrow> (u32 \<times> inkwell_loop_callback \<times> nat) option) \<Rightarrow> int \<Rightarrow> (u32 \<times> inkwell_loop_callback \<times> nat) option) \<Rightarrow> bool" where
  "table_step none entry hear L L' w' f \<longleftrightarrow> loop_inv none entry hear L' w' \<and> registered L' = f (registered L) \<and> poll_fd L' = poll_fd L
     \<and> wake L' = wake L \<and> running L' = running L \<and> stop_requested L' = stop_requested L"

lemma loop_hears_None: "find_source_index L fd = None \<Longrightarrow> loop_hears none entry L fd = none"
  by (simp add: loop_hears_def)

lemma loop_hears_Some: "find_source_index L fd = Some i \<Longrightarrow> loop_hears none entry L fd = entry (src_events (sources L ! i)) i"
  by (simp add: loop_hears_def)

lemma loop_wf_length: "loop_wf L \<Longrightarrow> length (sources L) = loop_max_sources"
  by (simp add: loop_wf_def)

lemma registered_iff_find: "registered L fd = None \<longleftrightarrow> find_source_index L fd = None"
  by (simp add: registered_def split: option.split)

text \<open>The map and the requests after a source is filled, changed or dropped.\<close>

lemma fill_slot_maps:
  assumes "loop_wf L" "free_slot L = Some i" "find_source_index L (src_fd s) = None"
    "src_active s" "0 \<le> src_fd s" "src_callback s \<noteq> NULL_CALLBACK"
  shows "registered (set_source L i s) = (registered L)(src_fd s \<mapsto> (src_events s, src_callback s, src_userdata s))"
    "loop_hears none entry (set_source L i s) = (loop_hears none entry L)(src_fd s := entry (src_events s) i)"
proof -
  have i: "i < loop_max_sources" "\<not> src_active (sources L ! i)" using free_slot_SomeD [OF assms(2)] by auto
  have other: "j \<noteq> i" if "find_source_index L fd = Some j" for j fd
    using find_source_index_SomeD [OF that] i by (auto simp: occupies_def)
  have nth: "(sources L)[i := s] ! i = s" using i loop_wf_length [OF assms(1)] by simp
  note find = fill_slot(2) [OF assms]
  show "registered (set_source L i s) = (registered L)(src_fd s \<mapsto> (src_events s, src_callback s, src_userdata s))"
    by (rule ext) (auto simp: registered_def find nth dest: other split: option.splits)
  show "loop_hears none entry (set_source L i s) = (loop_hears none entry L)(src_fd s := entry (src_events s) i)"
    by (rule ext) (auto simp: loop_hears_def find nth dest: other split: option.splits)
qed

lemma change_slot_maps:
  assumes "loop_wf L" "find_source_index L fd = Some i" "src_active s" "src_fd s = fd" "src_callback s \<noteq> NULL_CALLBACK"
  shows "registered (set_source L i s) = (registered L)(fd \<mapsto> (src_events s, src_callback s, src_userdata s))"
    "loop_hears none entry (set_source L i s) = (loop_hears none entry L)(fd := entry (src_events s) i)"
proof -
  have occ: "occupies L i fd" by (rule find_source_index_SomeD [OF assms(2)])
  have other: "j \<noteq> i" if "find_source_index L fd' = Some j" "fd' \<noteq> fd" for j fd'
    using find_source_index_SomeD [OF that(1)] occ that(2) by (auto simp: occupies_def)
  have nth: "(sources L)[i := s] ! i = s" using occ loop_wf_length [OF assms(1)] by (simp add: occupies_def)
  note find = change_slot(2) [OF assms]
  show "registered (set_source L i s) = (registered L)(fd \<mapsto> (src_events s, src_callback s, src_userdata s))"
    by (rule ext) (auto simp: registered_def find nth assms(2) dest: other split: option.splits)
  show "loop_hears none entry (set_source L i s) = (loop_hears none entry L)(fd := entry (src_events s) i)"
    by (rule ext) (auto simp: loop_hears_def find nth assms(2) dest: other split: option.splits)
qed

lemma drop_slot_maps:
  assumes "loop_wf L" "find_source_index L fd = Some i" "\<not> src_active s"
  shows "registered (set_source L i s) = (registered L)(fd := None)"
    "loop_hears none entry (set_source L i s) = (loop_hears none entry L)(fd := none)"
proof -
  have occ: "occupies L i fd" by (rule find_source_index_SomeD [OF assms(2)])
  have other: "j \<noteq> i" if "find_source_index L fd' = Some j" "fd' \<noteq> fd" for j fd'
    using find_source_index_SomeD [OF that(1)] occ that(2) by (auto simp: occupies_def)
  note find = drop_slot(2) [OF assms]
  show "registered (set_source L i s) = (registered L)(fd := None)"
    by (rule ext) (auto simp: registered_def find dest: other split: option.splits)
  show "loop_hears none entry (set_source L i s) = (loop_hears none entry L)(fd := none)"
    by (rule ext) (auto simp: loop_hears_def find dest: other split: option.splits)
qed

lemma free_slot_quiet_maps:
  assumes "loop_wf L" "free_slot L = Some i" "\<not> src_active s"
  shows "registered (set_source L i s) = registered L" "loop_hears none entry (set_source L i s) = loop_hears none entry L"
proof -
  have i: "\<not> src_active (sources L ! i)" using free_slot_SomeD [OF assms(2)] by auto
  have other: "j \<noteq> i" if "find_source_index L fd = Some j" for j fd
    using find_source_index_SomeD [OF that] i by (auto simp: occupies_def)
  note find = free_slot_quiet(2) [OF assms]
  show "registered (set_source L i s) = registered L"
    by (rule ext) (auto simp: registered_def find dest: other split: option.splits)
  show "loop_hears none entry (set_source L i s) = loop_hears none entry L"
    by (rule ext) (auto simp: loop_hears_def find dest: other split: option.splits)
qed

context poll_backend
begin

lemma add_fd_step:
  assumes inv: "loop_inv none entry hear L w" and eq: "inkwell_loop_add_fd B L fd events callback userdata w = (r, L', w')"
  shows "table_step none entry hear L L' w' (\<lambda>m. case r of Inl _ \<Rightarrow> m | Inr _ \<Rightarrow> m(fd \<mapsto> (events, callback, userdata)))"
proof (cases "fd < 0 \<or> callback = NULL_CALLBACK \<or> find_source_index L fd \<noteq> None \<or> free_slot L = None")
  case True
  then show ?thesis
    using assms by (auto simp: inkwell_loop_add_fd_def table_step_def split: if_splits)
next
  case False
  then obtain i where i: "free_slot L = Some i" and new: "find_source_index L fd = None" and ok: "0 \<le> fd" "callback \<noteq> NULL_CALLBACK"
    by auto
  let ?s = "\<lparr>src_fd = fd, src_events = events, src_callback = callback, src_userdata = userdata, src_active = True\<rparr>"
  have wf: "loop_wf L" and hears: "hear (poll_fd L) w = loop_hears none entry L" using inv by (auto simp: loop_inv_def)
  have none: "hear (poll_fd L) w (src_fd ?s) = none" unfolding hears using new by (simp add: loop_hears_None)
  obtain b w1 where b: "b_add B (poll_fd L) i ?s w = (b, w1)" by (cases "b_add B (poll_fd L) i ?s w")
  show ?thesis
  proof (cases b)
    case (Inl e)
    have L': "r = Inl e" "L' = set_source L i (?s\<lparr>src_active := False\<rparr>)" "w' = w1"
      using eq False i new ok b Inl by (simp_all add: inkwell_loop_add_fd_def)
    have "hear (poll_fd L) w1 = loop_hears none entry L" using add_fail [OF b [unfolded Inl] none] hears by simp
    then show ?thesis
      unfolding L' using free_slot_quiet(1) [OF wf i] free_slot_quiet_maps(1) [OF wf i] free_slot_quiet_maps(2) [where none = none and entry = entry, OF wf i]
      by (simp add: table_step_def loop_inv_def)
  next
    case (Inr u)
    have L': "r = Inr ()" "L' = set_source L i ?s" "w' = w1"
      using eq False i new ok b Inr by (simp_all add: inkwell_loop_add_fd_def)
    have "hear (poll_fd L) w1 = (loop_hears none entry L)(fd := entry events i)"
      using add_ok [OF b [unfolded Inr] none] hears by simp
    then show ?thesis
      unfolding L' using fill_slot(1) [OF wf i, of ?s] fill_slot_maps(1) [OF wf i, of ?s] fill_slot_maps(2) [where none = none and entry = entry, OF wf i, of ?s] new ok
      by (simp add: table_step_def loop_inv_def)
  qed
qed

lemma update_fd_step:
  assumes inv: "loop_inv none entry hear L w" and eq: "inkwell_loop_update_fd B L fd events w = (r, L', w')"
  shows "table_step none entry hear L L' w' (\<lambda>m. case r of Inl _ \<Rightarrow> m | Inr _ \<Rightarrow> m(fd := map_option (\<lambda>(_, c). (events, c)) (m fd)))"
proof (cases "find_source_index L fd")
  case None
  then show ?thesis using assms by (auto simp: inkwell_loop_update_fd_def table_step_def)
next
  case (Some i)
  let ?old = "sources L ! i"
  let ?s = "?old\<lparr>src_events := events\<rparr>"
  have wf: "loop_wf L" and hears: "hear (poll_fd L) w = loop_hears none entry L" using inv by (auto simp: loop_inv_def)
  have occ: "occupies L i fd" by (rule find_source_index_SomeD [OF Some])
  then have old: "src_active ?old" "src_fd ?old = fd" "src_callback ?old \<noteq> NULL_CALLBACK"
    using wf by (auto simp: occupies_def loop_wf_def)
  have reg: "registered L fd = Some (src_events ?old, src_callback ?old, src_userdata ?old)"
    using Some by (simp add: registered_def)
  have was: "hear (poll_fd L) w (src_fd ?s) = entry (src_events ?old) i"
    unfolding hears using Some old by (simp add: loop_hears_Some)
  obtain b w1 where b: "b_update B (poll_fd L) i ?s (src_events ?old) w = (b, w1)"
    by (cases "b_update B (poll_fd L) i ?s (src_events ?old) w")
  show ?thesis
  proof (cases b)
    case (Inl e)
    have L': "r = Inl e" "L' = set_source L i ?old" "w' = w1"
      using eq Some b Inl by (simp_all add: inkwell_loop_update_fd_def)
    then have "L' = L" by (simp add: set_source_def)
    moreover have "hear (poll_fd L) w1 = loop_hears none entry L" using update_fail [OF b [unfolded Inl] was] hears by simp
    ultimately show ?thesis using L'(1,3) wf by (simp add: table_step_def loop_inv_def)
  next
    case (Inr u)
    have L': "r = Inr ()" "L' = set_source L i ?s" "w' = w1"
      using eq Some b Inr by (simp_all add: inkwell_loop_update_fd_def)
    have "hear (poll_fd L) w1 = (loop_hears none entry L)(fd := entry events i)"
      using update_ok [OF b [unfolded Inr] was] hears old by simp
    then show ?thesis
      unfolding L' using change_slot(1) [OF wf Some, of ?s] change_slot_maps(1) [OF wf Some, of ?s] change_slot_maps(2) [where none = none and entry = entry, OF wf Some, of ?s] old reg
      by (simp add: table_step_def loop_inv_def)
  qed
qed

lemma remove_fd_step:
  assumes inv: "loop_inv none entry hear L w" and eq: "inkwell_loop_remove_fd B L fd w = (r, L', w')"
  shows "table_step none entry hear L L' w' (\<lambda>m. case r of Inl _ \<Rightarrow> m | Inr _ \<Rightarrow> m(fd := None))"
proof (cases "find_source_index L fd")
  case None
  then show ?thesis using assms by (auto simp: inkwell_loop_remove_fd_def table_step_def)
next
  case (Some i)
  let ?old = "sources L ! i"
  have wf: "loop_wf L" and hears: "hear (poll_fd L) w = loop_hears none entry L" using inv by (auto simp: loop_inv_def)
  have old: "src_fd ?old = fd" using find_source_index_SomeD [OF Some] by (simp add: occupies_def)
  have was: "hear (poll_fd L) w (src_fd ?old) = entry (src_events ?old) i"
    unfolding hears using Some old by (simp add: loop_hears_Some)
  obtain b w1 where b: "b_remove B (poll_fd L) i ?old w = (b, w1)" by (cases "b_remove B (poll_fd L) i ?old w")
  show ?thesis
  proof (cases b)
    case (Inl e)
    then have "r = Inl e" "L' = L" "w' = w1" using eq Some b by (simp_all add: inkwell_loop_remove_fd_def)
    moreover have "hear (poll_fd L) w1 = loop_hears none entry L" using remove_fail [OF b [unfolded Inl] was] hears by simp
    ultimately show ?thesis using wf by (simp add: table_step_def loop_inv_def)
  next
    case (Inr u)
    have L': "r = Inr ()" "L' = set_source L i no_source" "w' = w1"
      using eq Some b Inr by (simp_all add: inkwell_loop_remove_fd_def)
    have "hear (poll_fd L) w1 = (loop_hears none entry L)(fd := none)"
      using remove_ok [OF b [unfolded Inr] was] hears old by simp
    then show ?thesis
      unfolding L' using drop_slot(1) [OF wf Some, of no_source] drop_slot_maps(1) [OF wf Some, of no_source] drop_slot_maps(2) [where none = none and entry = entry, OF wf Some, of no_source]
      by (simp add: table_step_def loop_inv_def no_source_def)
  qed
qed

end

section \<open>The two kernels\<close>

text \<open>
  epoll: \<open>reg p w fd\<close> is the mask and the pointer registered for a descriptor. A control call that succeeds has
  its effect, and one that fails has none.
\<close>

locale epoll_kernel =
  fixes h :: "'w host"
    and reg :: "int \<Rightarrow> 'w \<Rightarrow> int \<Rightarrow> (u32 \<times> nat) option"
  assumes create: "h_epoll_create h w = (Inr p, w') \<Longrightarrow> reg p w' = (\<lambda>_. None)"
    and ctl_add: "h_epoll_ctl h p EPOLL_CTL_ADD fd ev w = (Inr u, w') \<Longrightarrow> reg p w' = (reg p w)(fd \<mapsto> ev)"
    and ctl_mod: "h_epoll_ctl h p EPOLL_CTL_MOD fd ev w = (Inr u, w') \<Longrightarrow> reg p w' = (reg p w)(fd \<mapsto> ev)"
    and ctl_del: "h_epoll_ctl h p EPOLL_CTL_DEL fd ev w = (Inr u, w') \<Longrightarrow> reg p w' = (reg p w)(fd := None)"
    and ctl_fail: "h_epoll_ctl h p op fd ev w = (Inl e, w') \<Longrightarrow> reg p w' = reg p w"
    and eventfd: "reg p (snd (h_eventfd h w)) = reg p w"

abbreviation epoll_entry :: "u32 \<Rightarrow> nat \<Rightarrow> (u32 \<times> nat) option" where
  "epoll_entry m i \<equiv> Some (m, i)"

abbreviation epoll_inv :: "(int \<Rightarrow> 'w \<Rightarrow> int \<Rightarrow> (u32 \<times> nat) option) \<Rightarrow> inkwell_loop \<Rightarrow> 'w \<Rightarrow> bool" where
  "epoll_inv reg L w \<equiv> loop_inv None epoll_entry reg L w"

sublocale epoll_kernel \<subseteq> epoll: poll_backend "epoll_backend h" h None epoll_entry reg
proof
  show "b_open (epoll_backend h) w = (Inr p, w') \<Longrightarrow> reg p w' = (\<lambda>_. None)" for w p w'
    by (simp add: epoll_backend_def create)
  show "b_add (epoll_backend h) p i s w = (Inr u, w') \<Longrightarrow> reg p w' = (reg p w)(src_fd s := epoll_entry (src_events s) i)" for p i s w u w'
    using ctl_add [of p "src_fd s" "(src_events s, i)" w u w'] by (simp add: epoll_backend_def backend_ctl_def)
  show "b_update (epoll_backend h) p i s was w = (Inr u, w') \<Longrightarrow> reg p w' = (reg p w)(src_fd s := epoll_entry (src_events s) i)" for p i s was w u w'
    using ctl_mod [of p "src_fd s" "(src_events s, i)" w u w'] by (simp add: epoll_backend_def backend_ctl_def)
  show "b_remove (epoll_backend h) p i s w = (Inr u, w') \<Longrightarrow> reg p w' = (reg p w)(src_fd s := None)" for p i s w u w'
    using ctl_del [of p "src_fd s" "(0, 0)" w u w'] by (simp add: epoll_backend_def)
  show "b_add (epoll_backend h) p i s w = (Inl e, w') \<Longrightarrow> reg p w' = reg p w" for p i s w e w'
    using ctl_fail [of p EPOLL_CTL_ADD "src_fd s" "(src_events s, i)" w e w'] by (simp add: epoll_backend_def backend_ctl_def)
  show "b_update (epoll_backend h) p i s was w = (Inl e, w') \<Longrightarrow> reg p w' = reg p w" for p i s was w e w'
    using ctl_fail [of p EPOLL_CTL_MOD "src_fd s" "(src_events s, i)" w e w'] by (simp add: epoll_backend_def backend_ctl_def)
  show "b_remove (epoll_backend h) p i s w = (Inl e, w') \<Longrightarrow> reg p w' = reg p w" for p i s w e w'
    using ctl_fail [of p EPOLL_CTL_DEL "src_fd s" "(0, 0)" w e w'] by (simp add: epoll_backend_def)
  show "reg p (snd (h_eventfd h w)) = reg p w" for p w by (rule eventfd)
qed

definition mask_hear :: "u32 \<Rightarrow> nat \<Rightarrow> kqueue_filter \<Rightarrow> nat option" where
  "mask_hear m i d = (if wants m d then Some i else None)"

abbreviation kqueue_inv :: "(int \<Rightarrow> 'w \<Rightarrow> int \<Rightarrow> kqueue_filter \<Rightarrow> nat option) \<Rightarrow> inkwell_loop \<Rightarrow> 'w \<Rightarrow> bool" where
  "kqueue_inv knote L w \<equiv> loop_inv (\<lambda>_. None) mask_hear knote L w"

text \<open>
  kqueue: \<open>knote p w fd d\<close> is the pointer registered with a filter. Deleting a registered filter succeeds, and a
  read filter that was just deleted can be added again after a change of the write filter has failed.
\<close>

locale kqueue_kernel =
  fixes h :: "'w host"
    and knote :: "int \<Rightarrow> 'w \<Rightarrow> int \<Rightarrow> kqueue_filter \<Rightarrow> nat option"
  assumes create: "h_kqueue h w = (Inr p, w') \<Longrightarrow> knote p w' = (\<lambda>_ _. None)"
    and change_add: "h_kevent_change h p fd d True i w = (Inr u, w') \<Longrightarrow> knote p w' = (knote p w)(fd := (knote p w fd)(d \<mapsto> i))"
    and change_del: "h_kevent_change h p fd d False i w = (Inr u, w') \<Longrightarrow> knote p w' = (knote p w)(fd := (knote p w fd)(d := None))"
    and change_fail: "h_kevent_change h p fd d a i w = (Inl e, w') \<Longrightarrow> knote p w' = knote p w"
    and del_registered: "knote p w fd d = Some j \<Longrightarrow> \<exists>w'. h_kevent_change h p fd d False i w = (Inr (), w')"
    and add_back: "knote p w fd EVFILT_READ \<noteq> None \<Longrightarrow> h_kevent_change h p fd EVFILT_READ False i w = (Inr u, w1) \<Longrightarrow>
      h_kevent_change h p fd EVFILT_WRITE a i w1 = (Inl e, w2) \<Longrightarrow>
      \<exists>w3. h_kevent_change h p fd EVFILT_READ True i w2 = (Inr (), w3)"
    and eventfd: "knote p (snd (h_eventfd h w)) = knote p w"

context kqueue_kernel
begin

lemma change_ok:
  "h_kevent_change h p fd d a i w = (Inr u, w') \<Longrightarrow>
     knote p w' = (knote p w)(fd := (knote p w fd)(d := (if a then Some i else None)))"
  by (cases a) (simp_all add: change_add change_del)

text \<open>A change of mask has its effect, or none.\<close>

lemma apply_ok:
  assumes "kqueue_apply h p i s was now w = (Inr u, w')" "knote p w (src_fd s) = mask_hear was i"
  shows "knote p w' = (knote p w)(src_fd s := mask_hear now i)"
proof -
  have split: "mask_hear m i = (\<lambda>_. None)(EVFILT_READ := (if wants m EVFILT_READ then Some i else None),
      EVFILT_WRITE := (if wants m EVFILT_WRITE then Some i else None))" for m
    by (rule ext) (auto simp: mask_hear_def split: kqueue_filter.splits intro: kqueue_filter.exhaust)
  show ?thesis
    using assms
    by (auto simp: kqueue_apply_def split split: if_splits prod.splits sum.splits dest!: change_ok intro!: ext)
qed

lemma apply_fail:
  assumes eq: "kqueue_apply h p i s was now w = (Inl e, w')" and was: "knote p w (src_fd s) = mask_hear was i"
  shows "knote p w' = knote p w"
proof -
  let ?change = "\<lambda>d a. h_kevent_change h p (src_fd s) d a i"
  obtain r1 w1 where c1: "?change EVFILT_READ (wants now EVFILT_READ) w = (r1, w1)" by fastforce
  obtain r2 w2 where c2: "?change EVFILT_WRITE (wants now EVFILT_WRITE) w1 = (r2, w2)" by fastforce
  consider (quiet) "wants was EVFILT_READ = wants now EVFILT_READ"
    | (first) e1 where "wants was EVFILT_READ \<noteq> wants now EVFILT_READ" "r1 = Inl e1"
    | (second) "wants was EVFILT_READ \<noteq> wants now EVFILT_READ" "r1 = Inr ()" "r2 = Inl e"
    using eq c1 c2 by (cases r1; cases r2) (auto simp: kqueue_apply_def split: if_splits)
  then show ?thesis
  proof cases
    case quiet
    then show ?thesis
      using eq by (auto simp: kqueue_apply_def split: if_splits prod.splits sum.splits dest: change_fail)
  next
    case first
    then show ?thesis using eq c1 by (auto simp: kqueue_apply_def dest: change_fail)
  next
    case second
    have w': "w' = snd (?change EVFILT_READ (wants was EVFILT_READ) w2)"
      using eq second c1 c2 by (auto simp: kqueue_apply_def split: if_splits)
    have n1: "knote p w1 = (knote p w)(src_fd s := (knote p w (src_fd s))(EVFILT_READ := (if wants now EVFILT_READ then Some i else None)))"
      by (rule change_ok) (use c1 second in simp)
    have n2: "knote p w2 = knote p w1" by (rule change_fail) (use c2 second in simp)
    have "\<exists>w3. ?change EVFILT_READ (wants was EVFILT_READ) w2 = (Inr (), w3)"
    proof (cases "wants was EVFILT_READ")
      case True
      then show ?thesis
        using second add_back [of p w "src_fd s" i "()" w1 "wants now EVFILT_WRITE" e w2] c1 c2 was by (simp add: mask_hear_def)
    next
      case False
      then show ?thesis using second n1 n2 del_registered [of p w2 "src_fd s" EVFILT_READ i i] by simp
    qed
    then obtain w3 where c3: "?change EVFILT_READ (wants was EVFILT_READ) w2 = (Inr (), w3)" ..
    then have "knote p w' = (knote p w2)(src_fd s := (knote p w2 (src_fd s))(EVFILT_READ := (if wants was EVFILT_READ then Some i else None)))"
      unfolding w' using change_ok [OF c3] by simp
    also have "\<dots> = knote p w" unfolding n2 n1 using was by (simp add: fun_upd_idem mask_hear_def)
    finally show ?thesis .
  qed
qed

lemma apply_to_zero:
  assumes "knote p w (src_fd s) = mask_hear was i"
  shows "fst (kqueue_apply h p i s was 0 w) = Inr ()"
proof -
  let ?change = "\<lambda>d a. h_kevent_change h p (src_fd s) d a i"
  have zero: "\<not> wants 0 d" for d by (simp add: wants_def)
  have read: "\<exists>w1. ?change EVFILT_READ False w = (Inr (), w1)" if "wants was EVFILT_READ"
    using del_registered [of p w "src_fd s" EVFILT_READ i i] that assms by (simp add: mask_hear_def)
  have "\<exists>w2. ?change EVFILT_WRITE False w1 = (Inr (), w2)" if "wants was EVFILT_WRITE" "?change EVFILT_READ False w = (Inr (), w1)" for w1
    using del_registered [of p w1 "src_fd s" EVFILT_WRITE i i] that change_ok [OF that(2)] assms by (simp add: mask_hear_def)
  moreover have "\<exists>w2. ?change EVFILT_WRITE False w = (Inr (), w2)" if "wants was EVFILT_WRITE"
    using del_registered [of p w "src_fd s" EVFILT_WRITE i i] that assms by (simp add: mask_hear_def)
  ultimately show ?thesis using read by (auto simp: kqueue_apply_def zero)
qed

end

sublocale kqueue_kernel \<subseteq> kqueue: poll_backend "kqueue_backend h" h "\<lambda>_. None" mask_hear knote
proof
  have zero: "mask_hear 0 i = (\<lambda>_. None)" for i by (rule ext) (simp add: mask_hear_def wants_def)
  show "b_open (kqueue_backend h) w = (Inr p, w') \<Longrightarrow> knote p w' = (\<lambda>_ _. None)" for w p w'
    by (simp add: kqueue_backend_def create)
  show "b_add (kqueue_backend h) p i s w = (Inr u, w') \<Longrightarrow> knote p w (src_fd s) = (\<lambda>_. None) \<Longrightarrow>
      knote p w' = (knote p w)(src_fd s := mask_hear (src_events s) i)" for p i s w u w'
    using apply_ok [of p i s 0] by (simp add: kqueue_backend_def zero)
  show "b_add (kqueue_backend h) p i s w = (Inl e, w') \<Longrightarrow> knote p w (src_fd s) = (\<lambda>_. None) \<Longrightarrow> knote p w' = knote p w" for p i s w e w'
    using apply_fail [of p i s 0] by (simp add: kqueue_backend_def zero)
  show "b_update (kqueue_backend h) p i s was w = (Inr u, w') \<Longrightarrow> knote p w (src_fd s) = mask_hear was i \<Longrightarrow>
      knote p w' = (knote p w)(src_fd s := mask_hear (src_events s) i)" for p i s was w u w'
    using apply_ok [of p i s was] by (simp add: kqueue_backend_def)
  show "b_update (kqueue_backend h) p i s was w = (Inl e, w') \<Longrightarrow> knote p w (src_fd s) = mask_hear was i \<Longrightarrow> knote p w' = knote p w" for p i s was w e w'
    using apply_fail [of p i s was] by (simp add: kqueue_backend_def)
  show "b_remove (kqueue_backend h) p i s w = (Inr u, w') \<Longrightarrow> knote p w (src_fd s) = mask_hear (src_events s) i \<Longrightarrow>
      knote p w' = (knote p w)(src_fd s := (\<lambda>_. None))" for p i s w u w'
    using apply_ok [of p i s "src_events s" 0 w "()" w'] apply_to_zero [of p w s "src_events s" i]
    by (cases "kqueue_apply h p i s (src_events s) 0 w") (simp add: kqueue_backend_def zero)
  show "b_remove (kqueue_backend h) p i s w = (Inl e, w') \<Longrightarrow> knote p w' = knote p w" for p i s w e w'
    by (simp add: kqueue_backend_def)
  show "knote p (snd (h_eventfd h w)) = knote p w" for p w by (rule eventfd)
qed

section \<open>Reachable loops\<close>

text \<open>
  The states of a loop that was initialised: the calls of the API in any order, and anything else that happens
  in the world meanwhile and leaves the poll set alone.
\<close>

inductive loop_reachable :: "'w loop_backend \<Rightarrow> 'w host \<Rightarrow> (int \<Rightarrow> 'w \<Rightarrow> int \<Rightarrow> 'r) \<Rightarrow> inkwell_loop \<Rightarrow> 'w \<Rightarrow> bool"
  for B h hear where
  reach_init: "inkwell_loop_init B h w = (Inr (), L, w') \<Longrightarrow> loop_reachable B h hear L w'"
| reach_add: "loop_reachable B h hear L w \<Longrightarrow> inkwell_loop_add_fd B L fd events callback userdata w = (r, L', w') \<Longrightarrow>
    loop_reachable B h hear L' w'"
| reach_update: "loop_reachable B h hear L w \<Longrightarrow> inkwell_loop_update_fd B L fd events w = (r, L', w') \<Longrightarrow> loop_reachable B h hear L' w'"
| reach_remove: "loop_reachable B h hear L w \<Longrightarrow> inkwell_loop_remove_fd B L fd w = (r, L', w') \<Longrightarrow> loop_reachable B h hear L' w'"
| reach_flags: "loop_reachable B h hear L w \<Longrightarrow> loop_reachable B h hear (L\<lparr>running := r, stop_requested := q\<rparr>) w"
| reach_outside: "loop_reachable B h hear L w \<Longrightarrow> hear (poll_fd L) w' = hear (poll_fd L) w \<Longrightarrow> loop_reachable B h hear L w'"

lemma zero_loop_find:
  "find_source_index (zero_loop\<lparr>poll_fd := p, wake := k\<rparr>) fd = None" "free_slot (zero_loop\<lparr>poll_fd := p, wake := k\<rparr>) = Some 0"
  by (auto simp: find_source_index_None_iff occupies_def free_slot_def zero_loop_def zero_source_def loop_max_sources_def upt_rec)

lemma zero_loop_empty: "loop_wf (zero_loop\<lparr>poll_fd := p, wake := k\<rparr>)" "loop_hears none entry (zero_loop\<lparr>poll_fd := p, wake := k\<rparr>) = (\<lambda>_. none)"
proof -
  have none: "\<not> occupies (zero_loop\<lparr>poll_fd := p, wake := k\<rparr>) i fd" for i fd
    by (auto simp: occupies_def zero_loop_def zero_source_def)
  then show "loop_hears none entry (zero_loop\<lparr>poll_fd := p, wake := k\<rparr>) = (\<lambda>_. none)"
    by (intro ext) (simp add: loop_hears_None find_source_index_None_iff)
  show "loop_wf (zero_loop\<lparr>poll_fd := p, wake := k\<rparr>)"
    by (auto simp: loop_wf_def zero_loop_def zero_source_def)
qed

context poll_backend
begin

lemma init_inv:
  assumes eq: "inkwell_loop_init B h w = (Inr (), L, w')"
  shows "loop_inv none entry hear L w'"
proof -
  obtain p w1 fd w2 L2 where o: "b_open B w = (Inr p, w1)" and e: "h_eventfd h w1 = (Inr fd, w2)"
    and a: "inkwell_loop_add_fd B (zero_loop\<lparr>poll_fd := p, wake := \<lparr>wake_read_fd = fd, wake_write_fd = fd\<rparr>\<rparr>) fd loop_in WAKE_CALLBACK 0 w2 = (Inr (), L2, w')"
    and L: "L = L2\<lparr>running := False, stop_requested := False\<rparr>"
    using eq by (auto simp: inkwell_loop_init_def inkwell_wake_open_def split: sum.splits prod.splits)
  have "hear p w2 = (\<lambda>_. none)" using open_ok [OF o] eventfd_quiet [of p w1] e by simp
  then have "loop_inv none entry hear (zero_loop\<lparr>poll_fd := p, wake := \<lparr>wake_read_fd = fd, wake_write_fd = fd\<rparr>\<rparr>) w2"
    by (simp add: loop_inv_def zero_loop_empty)
  from add_fd_step [OF this a] have "loop_inv none entry hear L2 w'" by (simp add: table_step_def)
  then show ?thesis unfolding L by (subst loop_inv_cong [of _ L2 _ w' w']) simp_all
qed

lemma reachable_inv: "loop_reachable B h hear L w \<Longrightarrow> loop_inv none entry hear L w"
proof (induction rule: loop_reachable.induct)
  case reach_init
  then show ?case by (rule init_inv)
next
  case reach_add
  then show ?case using add_fd_step by (auto simp: table_step_def)
next
  case reach_update
  then show ?case using update_fd_step by (auto simp: table_step_def)
next
  case reach_remove
  then show ?case using remove_fd_step by (auto simp: table_step_def)
next
  case (reach_flags L w r q)
  then show ?case by (subst loop_inv_cong [of _ L _ w w]) simp_all
next
  case (reach_outside L w w')
  then show ?case by (subst loop_inv_cong [of _ L _ w' w]) simp_all
qed

end

lemma full_table_iff:
  assumes "loop_wf L"
  shows "free_slot L = None \<longleftrightarrow> card (dom (registered L)) = loop_max_sources"
proof -
  let ?A = "{i. i < loop_max_sources \<and> src_active (sources L ! i)}"
  have dom: "dom (registered L) = (\<lambda>i. src_fd (sources L ! i)) ` ?A"
  proof
    show "dom (registered L) \<subseteq> (\<lambda>i. src_fd (sources L ! i)) ` ?A"
    proof
      fix fd assume "fd \<in> dom (registered L)"
      then obtain i where "find_source_index L fd = Some i"
        by (auto simp: registered_def split: option.splits)
      from find_source_index_SomeD [OF this] show "fd \<in> (\<lambda>i. src_fd (sources L ! i)) ` ?A"
        by (auto simp: occupies_def)
    qed
    show "(\<lambda>i. src_fd (sources L ! i)) ` ?A \<subseteq> dom (registered L)"
    proof (rule image_subsetI)
      fix i assume "i \<in> ?A"
      then have "occupies L i (src_fd (sources L ! i))" by (simp add: occupies_def)
      then have "find_source_index L (src_fd (sources L ! i)) = Some i" by (simp add: find_source_index_iff [OF assms])
      then have "registered L (src_fd (sources L ! i)) \<noteq> None" by (simp add: registered_iff_find)
      then show "src_fd (sources L ! i) \<in> dom (registered L)" by blast
    qed
  qed
  have inj: "inj_on (\<lambda>i. src_fd (sources L ! i)) ?A" using assms by (auto simp: inj_on_def loop_wf_def)
  have sub: "?A \<subseteq> {..<loop_max_sources}" by auto
  have "card ?A = loop_max_sources \<longleftrightarrow> ?A = {..<loop_max_sources}"
    using card_subset_eq [OF finite_lessThan sub] card_lessThan by metis
  also have "\<dots> \<longleftrightarrow> free_slot L = None" unfolding free_slot_None_iff by auto
  finally show ?thesis unfolding dom card_image [OF inj] by simp
qed

section \<open>The table refines a bounded map\<close>

text \<open>
  The specification of the table: a map of at most \<open>INKWELL_LOOP_MAX_SOURCES\<close> descriptors to the events, the
  callback and its argument. \<open>k\<close> is the answer of the kernel where it is asked.
\<close>

type_synonym loop_map = "int \<Rightarrow> (u32 \<times> inkwell_loop_callback \<times> nat) option"

definition map_add_fd :: "loop_map \<Rightarrow> int \<Rightarrow> u32 \<Rightarrow> inkwell_loop_callback \<Rightarrow> nat \<Rightarrow> errno + unit \<Rightarrow> (errno + unit) \<times> loop_map" where
  "map_add_fd m fd events callback userdata k =
     (if fd < 0 \<or> callback = NULL_CALLBACK then (Inl EINVAL, m)
      else if fd \<in> dom m then (Inl EEXIST, m)
      else if card (dom m) = loop_max_sources then (Inl ENOSPC, m)
      else (k, case k of Inl _ \<Rightarrow> m | Inr _ \<Rightarrow> m(fd \<mapsto> (events, callback, userdata))))"

definition map_update_fd :: "loop_map \<Rightarrow> int \<Rightarrow> u32 \<Rightarrow> errno + unit \<Rightarrow> (errno + unit) \<times> loop_map" where
  "map_update_fd m fd events k =
     (case m fd of
        None \<Rightarrow> (Inl ENOENT, m)
      | Some (_, c) \<Rightarrow> (k, case k of Inl _ \<Rightarrow> m | Inr _ \<Rightarrow> m(fd \<mapsto> (events, c))))"

definition map_remove_fd :: "loop_map \<Rightarrow> int \<Rightarrow> errno + unit \<Rightarrow> (errno + unit) \<times> loop_map" where
  "map_remove_fd m fd k =
     (if fd \<in> dom m then (k, case k of Inl _ \<Rightarrow> m | Inr _ \<Rightarrow> m(fd := None)) else (Inl ENOENT, m))"

definition table_refines :: "'w loop_backend \<Rightarrow> (inkwell_loop \<Rightarrow> 'w \<Rightarrow> bool) \<Rightarrow> bool" where
  "table_refines B ok \<longleftrightarrow> (\<forall>L w. ok L w \<longrightarrow>
     (\<forall>fd events callback userdata r L' w'. inkwell_loop_add_fd B L fd events callback userdata w = (r, L', w') \<longrightarrow>
        ok L' w' \<and> (\<exists>k. (r, registered L') = map_add_fd (registered L) fd events callback userdata k))
     \<and> (\<forall>fd events r L' w'. inkwell_loop_update_fd B L fd events w = (r, L', w') \<longrightarrow>
        ok L' w' \<and> (\<exists>k. (r, registered L') = map_update_fd (registered L) fd events k))
     \<and> (\<forall>fd r L' w'. inkwell_loop_remove_fd B L fd w = (r, L', w') \<longrightarrow>
        ok L' w' \<and> (\<exists>k. (r, registered L') = map_remove_fd (registered L) fd k)))"

context poll_backend
begin

lemma add_refines:
  assumes inv: "loop_inv none entry hear L w" and eq: "inkwell_loop_add_fd B L fd events callback userdata w = (r, L', w')"
  shows "\<exists>k. (r, registered L') = map_add_fd (registered L) fd events callback userdata k"
proof -
  have dom: "fd \<in> dom (registered L) \<longleftrightarrow> find_source_index L fd \<noteq> None" by (simp add: domIff registered_iff_find)
  have "loop_wf L" using inv by (simp add: loop_inv_def)
  note full = full_table_iff [OF this]
  have step: "registered L' = (case r of Inl _ \<Rightarrow> registered L | Inr _ \<Rightarrow> (registered L)(fd \<mapsto> (events, callback, userdata)))"
    using add_fd_step [OF inv eq] by (simp add: table_step_def)
  show ?thesis
  proof (cases "fd < 0 \<or> callback = NULL_CALLBACK \<or> find_source_index L fd \<noteq> None \<or> free_slot L = None")
    case True
    then show ?thesis using eq by (auto simp: inkwell_loop_add_fd_def map_add_fd_def dom full [symmetric] split: if_splits)
  next
    case False
    then show ?thesis using step by (auto simp: map_add_fd_def dom full [symmetric])
  qed
qed

lemma update_refines:
  assumes inv: "loop_inv none entry hear L w" and eq: "inkwell_loop_update_fd B L fd events w = (r, L', w')"
  shows "\<exists>k. (r, registered L') = map_update_fd (registered L) fd events k"
proof (cases "find_source_index L fd")
  case None
  then have "r = Inl ENOENT" "L' = L" using eq by (simp_all add: inkwell_loop_update_fd_def)
  then show ?thesis using None by (simp add: map_update_fd_def registered_def)
next
  case (Some i)
  then obtain e c where "registered L fd = Some (e, c)" by (simp add: registered_def)
  then have "(r, registered L') = map_update_fd (registered L) fd events r"
    using update_fd_step [OF inv eq] by (cases r) (auto simp: map_update_fd_def table_step_def)
  then show ?thesis ..
qed

lemma remove_refines:
  assumes inv: "loop_inv none entry hear L w" and eq: "inkwell_loop_remove_fd B L fd w = (r, L', w')"
  shows "\<exists>k. (r, registered L') = map_remove_fd (registered L) fd k"
proof (cases "find_source_index L fd")
  case None
  then have "r = Inl ENOENT" "L' = L" using eq by (simp_all add: inkwell_loop_remove_fd_def)
  then show ?thesis using None by (simp add: map_remove_fd_def domIff registered_iff_find)
next
  case (Some i)
  then have "fd \<in> dom (registered L)" by (simp add: domIff registered_iff_find)
  then have "(r, registered L') = map_remove_fd (registered L) fd r"
    using remove_fd_step [OF inv eq] by (cases r) (auto simp: map_remove_fd_def table_step_def)
  then show ?thesis ..
qed

lemmas keeps_inv = add_fd_step [unfolded table_step_def, THEN conjunct1] update_fd_step [unfolded table_step_def, THEN conjunct1]
  remove_fd_step [unfolded table_step_def, THEN conjunct1]

lemma refines_map: "table_refines B (loop_inv none entry hear)"
  unfolding table_refines_def
  by (intro allI impI conjI) (erule (1) keeps_inv add_refines update_refines remove_refines)+

end

context epoll_kernel
begin

lemmas epoll_reachable_inv = epoll.reachable_inv
lemmas epoll_refines_map = epoll.refines_map

end

context kqueue_kernel
begin

lemmas kqueue_reachable_inv = kqueue.reachable_inv
lemmas kqueue_refines_map = kqueue.refines_map

end

end
