(* ===== verification/Loop_Run.thy ===== *)
theory Loop_Run
  imports Loop
begin

text \<open>
  What the event loop does when it runs: the dispatch of a batch, and \<open>inkwell_loop_run\<close> with its deadline. The
  interface \<open>epoll_time\<close> adds to the epoll kernel what running relies on; \<open>ref_host\<close> is a host on which the hypotheses of
  this theory hold.
\<close>

section \<open>The merged batch\<close>







section \<open>Waiting and time\<close>

lemma wait_until:
  fixes n1 n2 t d k :: nat
  assumes "n1 < (t + 1) * 1000000" "t < d" "n2 \<le> n1 + (d - t) * 1000000 + k"
  shows "n2 \<le> (d + 1) * 1000000 + k"
proof -
  obtain c where "d = t + c" using assms(2) less_imp_add_positive by blast
  then show ?thesis using assms by simp
qed

lemma sint_small: "unat x < 2 ^ 31 \<Longrightarrow> sint (x :: u32) = int (unat x)"
proof -
  assume "unat x < 2 ^ 31"
  then have "int (unat x) < int (2 ^ 31)" by (rule of_nat_less_iff [THEN iffD2])
  then have "uint x < 2 ^ 31" by simp
  moreover have "- (2 ^ 31) \<le> uint x" by (rule order_trans [OF _ unsigned_greater_eq]) simp
  ultimately show ?thesis using signed_take_bit_int_eq_self [of 31 "uint x"] by (simp add: sint_uint)
qed

text \<open>
  What running relies on. A wait reports at most as many events as were asked for, of registered descriptors; with no
  time to wait it is not interrupted. \<open>ns\<close> is the clock behind the millisecond clock: waiting takes some time, at most
  what was asked for and the slack \<open>\<delta>\<close>; a callback, a read and a look at the clock take at most \<open>\<delta>\<close>. Callbacks keep
  the table in step with the poll set.
\<close>

locale epoll_time = epoll_kernel +
  fixes app :: "'w app"
    and ns :: "'w \<Rightarrow> nat"
    and \<delta> :: nat
  assumes wait: "h_epoll_wait h p n ms w = (r, w') \<Longrightarrow>
      reg p w' = reg p w \<and> ns w < ns w' \<and> (0 \<le> ms \<longrightarrow> ns w' \<le> ns w + nat ms * 1000000 + \<delta>) \<and> (ms = 0 \<longrightarrow> r \<noteq> Inl EINTR)"
    and wait_at_most: "h_epoll_wait h p n ms w = (Inr evs, w') \<Longrightarrow> length evs \<le> n"
    and wait_reports: "h_epoll_wait h p n ms w = (Inr evs, w') \<Longrightarrow> (i, m) \<in> set evs \<Longrightarrow> \<exists>fd m'. reg p w fd = Some (m', i)"
    and now: "h_now h w = (t, w') \<Longrightarrow> reg p w' = reg p w \<and> t = of_nat (ns w' div 1000000) \<and> ns w \<le> ns w' \<and> ns w' \<le> ns w + \<delta>"
    and read: "h_read h fd n w = (v, w') \<Longrightarrow> reg p w' = reg p w \<and> v \<noteq> Inl EINTR \<and> ns w \<le> ns w' \<and> ns w' \<le> ns w + \<delta>"
    and app: "app f fd m ud (L, w) = (L', w') \<Longrightarrow> epoll_inv reg L w \<Longrightarrow>
      epoll_inv reg L' w' \<and> poll_fd L' = poll_fd L \<and> ns w \<le> ns w' \<and> ns w' \<le> ns w + \<delta>"
begin

lemma drain_returns: "\<exists>r w'. wake_drain_loop h fd w = Some (r, w') \<and> reg p w' = reg p w \<and> ns w \<le> ns w' \<and> ns w' \<le> ns w + \<delta>"
proof -
  obtain v w' where v: "h_read h fd 8 w = (v, w')" by fastforce
  show ?thesis using read [OF v, of p] v by (cases v) (auto simp: wake_drain_loop.simps)
qed

lemma call_returns:
  assumes inv: "epoll_inv reg L w" and s: "src_callback s \<noteq> NULL_CALLBACK"
  shows "\<exists>L' w'. call_source h app s m (L, w) = Some (L', w') \<and> epoll_inv reg L' w' \<and> poll_fd L' = poll_fd L
    \<and> ns w \<le> ns w' \<and> ns w' \<le> ns w + \<delta>"
proof (cases "src_callback s")
  case WAKE_CALLBACK
  have "\<exists>r w'. inkwell_wake_drain h (wake L) w = Some (r, w') \<and> reg (poll_fd L) w' = reg (poll_fd L) w \<and> ns w \<le> ns w' \<and> ns w' \<le> ns w + \<delta>"
    using drain_returns by (auto simp: inkwell_wake_drain_def)
  then obtain r w' where w': "inkwell_wake_drain h (wake L) w = Some (r, w')" "reg (poll_fd L) w' = reg (poll_fd L) w" "ns w \<le> ns w'" "ns w' \<le> ns w + \<delta>"
    by blast
  have "epoll_inv reg (L\<lparr>running := False, stop_requested := True\<rparr>) w'"
    by (subst loop_inv_cong [of _ L _ w' w]) (simp_all add: inv w'(2))
  then show ?thesis using WAKE_CALLBACK w' by (simp add: call_source_def wake_callback_def)
next
  case (APP_CALLBACK f)
  obtain L' w' where a: "app f (src_fd s) m (src_userdata s) (L, w) = (L', w')" by fastforce
  then show ?thesis using APP_CALLBACK app [OF a inv] by (simp add: call_source_def)
qed (use s in simp)

lemma deliver_returns:
  "epoll_inv reg L w \<Longrightarrow> \<forall>(i, m) \<in> set evs. i < loop_max_sources \<Longrightarrow>
   \<exists>calls L' w'. epoll_deliver h app evs (L, w) = Some (calls, L', w') \<and> epoll_inv reg L' w' \<and> poll_fd L' = poll_fd L
    \<and> ns w \<le> ns w' \<and> ns w' \<le> ns w + length evs * \<delta>"
proof (induction evs arbitrary: L w)
  case (Cons ev evs)
  obtain i m where ev: "ev = (i, m)" by fastforce
  then have i: "i < loop_max_sources" using Cons.prems by simp
  show ?case
  proof (cases "src_active (sources L ! i)")
    case False
    then show ?thesis using Cons.IH [OF Cons.prems(1)] Cons.prems(2) ev by (auto simp: Let_def add.commute trans_le_add2)
  next
    case True
    have "src_callback (sources L ! i) \<noteq> NULL_CALLBACK"
      using Cons.prems(1) i True by (auto simp: loop_inv_def loop_wf_def)
    from call_returns [OF Cons.prems(1) this] obtain L1 w1 where c: "call_source h app (sources L ! i) m (L, w) = Some (L1, w1)"
      "epoll_inv reg L1 w1" "poll_fd L1 = poll_fd L" "ns w \<le> ns w1" "ns w1 \<le> ns w + \<delta>" by blast
    from Cons.IH [OF c(2)] Cons.prems(2) obtain calls L' w' where d: "epoll_deliver h app evs (L1, w1) = Some (calls, L', w')"
      "epoll_inv reg L' w'" "poll_fd L' = poll_fd L1" "ns w1 \<le> ns w'" "ns w' \<le> ns w1 + length evs * \<delta>" by auto
    then show ?thesis using True ev c by (auto simp: Let_def)
  qed
qed simp

lemma dispatch_returns:
  assumes inv: "epoll_inv reg L w"
  shows "\<exists>r calls L' w'. epoll_dispatch h app L ms w = Some (r, calls, L', w') \<and> epoll_inv reg L' w' \<and> ns w < ns w'
    \<and> (0 \<le> ms \<longrightarrow> ns w' \<le> ns w + nat ms * 1000000 + 9 * \<delta>) \<and> (ms = 0 \<longrightarrow> r \<noteq> Inl EINTR)
    \<and> (\<forall>e. r = Inl e \<longrightarrow> 0 \<le> ms \<longrightarrow> ns w' \<le> ns w + nat ms * 1000000 + \<delta>)"
proof -
  obtain r w1 where r: "h_epoll_wait h (poll_fd L) 8 ms w = (r, w1)" by fastforce
  note wt = wait [OF r]
  have inv1: "epoll_inv reg L w1"
    by (subst loop_inv_cong [of _ L _ w1 w]) (simp_all add: inv wt)
  show ?thesis
  proof (cases r)
    case (Inl e)
    have d: "epoll_dispatch h app L ms w = Some (Inl e, [], L, w1)" by (simp add: epoll_dispatch_def r Inl)
    have "ns w1 \<le> ns w + nat ms * 1000000 + 9 * \<delta>" if "0 \<le> ms" using wt that by linarith
    then show ?thesis
      by (intro exI [of _ "Inl e"] exI [of _ "[]"] exI [of _ L] exI [of _ w1]) (use d wt inv1 Inl in simp)
  next
    case (Inr evs)
    note r' = r [unfolded Inr]
    have "i < loop_max_sources" if ev: "(i, m) \<in> set evs" for i m
    proof -
      obtain fd m' where "reg (poll_fd L) w fd = Some (m', i)" using wait_reports [OF r' ev] by blast
      then have "find_source_index L fd = Some i"
        using inv by (auto simp: loop_inv_def loop_hears_def split: option.splits)
      then show ?thesis using find_source_index_SomeD by (auto simp: occupies_def)
    qed
    then obtain calls L' w' where d: "epoll_deliver h app evs (L, w1) = Some (calls, L', w')" "epoll_inv reg L' w'"
      "ns w1 \<le> ns w'" "ns w' \<le> ns w1 + length evs * \<delta>"
      using deliver_returns [OF inv1, of evs] by blast
    have e: "epoll_dispatch h app L ms w = Some (Inr (length evs), calls, L', w')" by (simp add: epoll_dispatch_def r Inr d)
    have "length evs * \<delta> \<le> 8 * \<delta>" using wait_at_most [OF r'] by (intro mult_right_mono) auto
    then have "ns w' \<le> ns w + nat ms * 1000000 + 9 * \<delta>" if "0 \<le> ms" using wt d that by linarith
    moreover have "ns w < ns w'" using wt d by linarith
    ultimately show ?thesis
      by (intro exI [of _ "Inr (length evs)"] exI [of _ calls] exI [of _ L'] exI [of _ w']) (use e d(2) in simp)
  qed
qed

lemma now_inv: "h_now h w = (t, w') \<Longrightarrow> epoll_inv reg L w \<Longrightarrow> epoll_inv reg L w'"
  by (subst loop_inv_cong [of _ L _ w' w]) (simp_all add: now)

lemma now_ms: "h_now h w = (t, w') \<Longrightarrow> ns w' < 2 ^ 64 * 1000000 \<Longrightarrow> unat t = ns w' div 1000000"
  using now [of w t w' 0] by (simp add: unat_of_nat take_bit_nat_eq_self less_mult_imp_div_less)

text \<open>The time left fits an \<open>int\<close>, since it is at most the timeout.\<close>

lemma time_left:
  fixes deadline_ms t :: u64
  assumes "unat deadline_ms \<le> unat t + nat timeout_ms" "timeout_ms < 2 ^ 31" "t < deadline_ms"
  shows "sint (ucast (deadline_ms - t) :: u32) = int (unat deadline_ms - unat t)"
proof -
  have u: "unat (deadline_ms - t) = unat deadline_ms - unat t"
    using assms(3) by (simp add: unat_sub word_le_nat_alt word_less_nat_alt)
  have small: "unat deadline_ms - unat t < 2 ^ 31" using assms by (auto simp: word_less_nat_alt)
  then have c: "unat (ucast (deadline_ms - t) :: u32) = unat deadline_ms - unat t"
    unfolding unsigned_ucast_eq u [symmetric] by (simp add: take_bit_nat_eq_self)
  have "sint (ucast (deadline_ms - t) :: u32) = int (unat (ucast (deadline_ms - t) :: u32))"
    by (rule sint_small) (use small c in linarith)
  then show ?thesis unfolding c .
qed

text \<open>One turn of the loop: it ends by the deadline and a batch, and after an interruption the deadline is ahead.\<close>

lemma turn_returns:
  assumes inv: "epoll_inv reg L w" and run: "running L"
    and D: "unat deadline_ms \<le> ns w div 1000000 + nat timeout_ms" and pos: "0 < timeout_ms" "timeout_ms < 2 ^ 31"
    and w: "ns w \<le> (unat deadline_ms + 1) * 1000000 + \<delta>" and room: "(unat deadline_ms + 1) * 1000000 + 12 * \<delta> < 2 ^ 64 * 1000000"
  obtains r :: "errno + nat" and L2 w2 where
    "loop_run_loop (epoll_backend h) h app timeout_ms deadline_ms L w =
      (case r of
         Inl e \<Rightarrow> if e = EINTR then loop_run_loop (epoll_backend h) h app timeout_ms deadline_ms L2 w2
                  else Some (Inl e, L2\<lparr>running := False\<rparr>, w2)
       | Inr n \<Rightarrow> if n = 0 then Some (Inr (), L2\<lparr>running := False\<rparr>, w2)
                  else (case h_now h w2 of (now, w3) \<Rightarrow>
                    if now \<ge> deadline_ms then Some (Inr (), L2\<lparr>running := False\<rparr>, w3)
                    else loop_run_loop (epoll_backend h) h app timeout_ms deadline_ms L2 w3))"
    "epoll_inv reg L2 w2" "ns w < ns w2" "ns w2 \<le> (unat deadline_ms + 1) * 1000000 + 11 * \<delta>"
    "r = Inl EINTR \<Longrightarrow> ns w < unat deadline_ms * 1000000 \<and> ns w2 \<le> (unat deadline_ms + 1) * 1000000 + \<delta>"
proof -
  let ?D = "unat deadline_ms"
  obtain t w1 where t: "h_now h w = (t, w1)" by fastforce
  have nt: "ns w \<le> ns w1" "ns w1 \<le> ns w + \<delta>" using now [OF t, of 0] by auto
  have tw: "unat t = ns w1 div 1000000" by (rule now_ms [OF t]) (use nt w room in linarith)
  define ms where "ms = (if t \<ge> deadline_ms then 0 else sint (ucast (deadline_ms - t) :: u32))"
  have t_ge: "?D \<le> unat t + nat timeout_ms" using D nt tw div_le_mono [of "ns w" "ns w1" 1000000] by linarith
  have left: "ms = int (?D - unat t)"
  proof (cases "t \<ge> deadline_ms")
    case True
    then show ?thesis by (simp add: ms_def word_le_nat_alt)
  next
    case False
    then show ?thesis using time_left [OF t_ge pos(2)] by (simp add: ms_def)
  qed
  then have nms: "nat ms = ?D - unat t" by (simp only: nat_int)
  obtain r calls L2 w2 where d: "epoll_dispatch h app L ms w1 = Some (r, calls, L2, w2)" "epoll_inv reg L2 w2" "ns w1 < ns w2"
    "ns w2 \<le> ns w1 + nat ms * 1000000 + 9 * \<delta>" "ms = 0 \<longrightarrow> r \<noteq> Inl EINTR"
    "\<And>e. r = Inl e \<Longrightarrow> ns w2 \<le> ns w1 + nat ms * 1000000 + \<delta>"
    using dispatch_returns [OF now_inv [OF t inv], of ms] left by auto
  have w1_t: "ns w1 < (unat t + 1) * 1000000"
    using tw div_mult_mod_eq [of "ns w1" 1000000] mod_less_divisor [of 1000000 "ns w1"] by simp
  have late: "ns w2 \<le> (?D + 1) * 1000000 + 11 * \<delta>"
    using d(4) nt(2) w wait_until [OF w1_t, of ?D "ns w2" "9 * \<delta>"] unfolding nms by (cases "?D \<le> unat t") simp_all
  have early: "ns w < ?D * 1000000 \<and> ns w2 \<le> (?D + 1) * 1000000 + \<delta>" if "r = Inl EINTR"
  proof -
    have "unat t < ?D" using d(5) that left by (cases "unat t < ?D") auto
    then show ?thesis
      using wait_until [OF w1_t, of ?D "ns w2" \<delta>] d(6) [OF that] nt(1)
        order_less_le_trans [OF w1_t mult_le_mono1 [of "unat t + 1" ?D 1000000]] unfolding nms by simp
  qed
  have less: "ns w < ns w2" using nt(1) d(3) by linarith
  have disp: "b_dispatch (epoll_backend h) = epoll_dispatch h" by (simp add: epoll_backend_def)
  show thesis
  proof (rule that [of L2 w2 r, OF _ d(2) less late early])
    show "loop_run_loop (epoll_backend h) h app timeout_ms deadline_ms L w =
      (case r of
         Inl e \<Rightarrow> if e = EINTR then loop_run_loop (epoll_backend h) h app timeout_ms deadline_ms L2 w2
                  else Some (Inl e, L2\<lparr>running := False\<rparr>, w2)
       | Inr n \<Rightarrow> if n = 0 then Some (Inr (), L2\<lparr>running := False\<rparr>, w2)
                  else (case h_now h w2 of (now, w3) \<Rightarrow>
                    if now \<ge> deadline_ms then Some (Inr (), L2\<lparr>running := False\<rparr>, w3)
                    else loop_run_loop (epoll_backend h) h app timeout_ms deadline_ms L2 w3))"
      by (subst loop_run_loop.simps) (use run t d(1) pos in \<open>simp add: ms_def disp Let_def split: sum.split\<close>)
  qed
qed

lemma run_loop_returns:
  assumes "epoll_inv reg L w" "unat deadline_ms \<le> ns w div 1000000 + nat timeout_ms" "0 < timeout_ms" "timeout_ms < 2 ^ 31"
    "ns w \<le> (unat deadline_ms + 1) * 1000000 + \<delta>" "(unat deadline_ms + 1) * 1000000 + 12 * \<delta> < 2 ^ 64 * 1000000"
  shows "\<exists>r L' w'. loop_run_loop (epoll_backend h) h app timeout_ms deadline_ms L w = Some (r, L', w')
    \<and> epoll_inv reg L' w' \<and> \<not> running L' \<and> ns w' \<le> (unat deadline_ms + 1) * 1000000 + 12 * \<delta>"
  using assms
proof (induction "unat deadline_ms * 1000000 - ns w" arbitrary: L w rule: less_induct)
  case less
  let ?D = "unat deadline_ms"
  let ?run = "loop_run_loop (epoll_backend h) h app timeout_ms deadline_ms"
  have flag: "epoll_inv reg (L'\<lparr>running := False\<rparr>) w' \<longleftrightarrow> epoll_inv reg L' w'" for L' w'
    by (rule loop_inv_cong) simp_all
  show ?case
  proof (cases "running L")
    case False
    then show ?thesis using less.prems by (subst loop_run_loop.simps) (simp add: flag)
  next
    case True
    obtain r :: "errno + nat" and L2 w2 where eq: "?run L w = (case r of Inl e \<Rightarrow> if e = EINTR then ?run L2 w2 else Some (Inl e, L2\<lparr>running := False\<rparr>, w2)
        | Inr n \<Rightarrow> if n = 0 then Some (Inr (), L2\<lparr>running := False\<rparr>, w2)
                   else (case h_now h w2 of (now, w3) \<Rightarrow>
                     if now \<ge> deadline_ms then Some (Inr (), L2\<lparr>running := False\<rparr>, w3) else ?run L2 w3))"
      and d: "epoll_inv reg L2 w2" "ns w < ns w2" "ns w2 \<le> (?D + 1) * 1000000 + 11 * \<delta>"
        "r = Inl EINTR \<Longrightarrow> ns w < ?D * 1000000 \<and> ns w2 \<le> (?D + 1) * 1000000 + \<delta>"
      by (rule turn_returns [OF less.prems(1) True less.prems(2-6)]) (rule that)
    have again: ?thesis if eq': "?run L w = ?run L2 w'" and "epoll_inv reg L2 w'" "ns w < ns w'" "ns w < ?D * 1000000"
      "ns w' \<le> (?D + 1) * 1000000 + \<delta>" for w'
    proof -
      have "?D * 1000000 - ns w' < ?D * 1000000 - ns w" using that(3,4) by linarith
      moreover have "?D \<le> ns w' div 1000000 + nat timeout_ms"
        using less.prems(2) div_le_mono [OF less_imp_le [OF that(3)], of 1000000] by linarith
      ultimately show ?thesis unfolding eq' by (rule less.hyps [OF _ that(2) _ less.prems(3,4) that(5) less.prems(6)])
    qed
    obtain t2 w3 where t2: "h_now h w2 = (t2, w3)" by fastforce
    have nt2: "ns w2 \<le> ns w3" "ns w3 \<le> ns w2 + \<delta>" using now [OF t2, of 0] by auto
    have tw2: "unat t2 = ns w3 div 1000000" by (rule now_ms [OF t2]) (use nt2 d(3) less.prems(6) in linarith)
    note inv3 = now_inv [OF t2 d(1)]
    consider "r = Inl EINTR" | e where "r = Inl e" "e \<noteq> EINTR" | "r = Inr 0"
      | n where "r = Inr n" "n \<noteq> 0" "t2 \<ge> deadline_ms" | n where "r = Inr n" "n \<noteq> 0" "\<not> deadline_ms \<le> t2"
      by (cases r) blast+
    then show ?thesis
    proof cases
      case 1
      then show ?thesis using again [of w2] eq d by simp
    next
      case 5
      then have "ns w3 < ?D * 1000000" using tw2 by (simp add: not_le word_less_nat_alt div_less_iff_less_mult)
      then show ?thesis using again [of w3] eq 5 inv3 t2 nt2 d(2) by simp
    qed (use eq d t2 nt2 inv3 in \<open>simp_all add: flag\<close>)
  qed
qed

theorem run_returns:
  assumes inv: "epoll_inv reg L w" and timeout: "0 < timeout_ms" "timeout_ms < 2 ^ 31"
    and room: "ns w + (nat timeout_ms + 1) * 1000000 + 13 * \<delta> < 2 ^ 64 * 1000000"
  shows "\<exists>r L' w'. inkwell_loop_run (epoll_backend h) h app L timeout_ms w = Some (r, L', w')
    \<and> epoll_inv reg L' w' \<and> \<not> running L' \<and> ns w' \<le> ns w + (nat timeout_ms + 1) * 1000000 + 13 * \<delta>"
proof -
  obtain t w1 where t: "h_now h w = (t, w1)" by fastforce
  have nt: "ns w \<le> ns w1" "ns w1 \<le> ns w + \<delta>" using now [OF t, of 0] by auto
  have tw: "unat t = ns w1 div 1000000" by (rule now_ms [OF t]) (use nt room in linarith)
  have floor: "ns w1 div 1000000 * 1000000 \<le> ns w1" "ns w1 < (ns w1 div 1000000 + 1) * 1000000"
    using div_mult_mod_eq [of "ns w1" 1000000] mod_less_divisor [of 1000000 "ns w1"] by simp_all
  let ?d = "t + of_int timeout_ms :: u64"
  have "(unat t + nat timeout_ms) * 1000000 < 2 ^ 64 * 1000000" using floor tw nt room by (simp add: algebra_simps)
  then have small: "unat t + nat timeout_ms < 2 ^ 64" by simp
  have D: "unat ?d = unat t + nat timeout_ms"
  proof -
    have "(of_int timeout_ms :: u64) = of_nat (nat timeout_ms)" using timeout by simp
    then have "?d = of_nat (unat t + nat timeout_ms)" by simp
    then show ?thesis using small by (simp add: unat_of_nat take_bit_nat_eq_self del: of_nat_add)
  qed
  let ?L = "L\<lparr>running := True, stop_requested := False\<rparr>"
  have inv1: "epoll_inv reg ?L w1" using now_inv [OF t inv] by (subst loop_inv_cong [of _ L]) simp_all
  have end_: "(unat ?d + 1) * 1000000 + 12 * \<delta> \<le> ns w + (nat timeout_ms + 1) * 1000000 + 13 * \<delta>"
    unfolding D tw using floor nt by (simp add: algebra_simps)
  have "\<exists>r L' w'. loop_run_loop (epoll_backend h) h app timeout_ms ?d ?L w1 = Some (r, L', w')
    \<and> epoll_inv reg L' w' \<and> \<not> running L' \<and> ns w' \<le> (unat ?d + 1) * 1000000 + 12 * \<delta>"
    by (rule run_loop_returns [OF inv1 _ timeout]) (use end_ room floor D tw in \<open>simp_all add: algebra_simps\<close>)
  then show ?thesis using t timeout end_ by (auto simp: inkwell_loop_run_def)
qed

end

section \<open>A reference host\<close>

text \<open>
  A host on which the hypotheses hold: the registrations of both kinds as maps, the next descriptor and a clock in
  nanoseconds. Nothing ever becomes ready, and waiting takes the time asked for and a nanosecond.
\<close>

record ref_world =
  rw_reg :: "int \<Rightarrow> int \<Rightarrow> (u32 \<times> nat) option"
  rw_note :: "int \<Rightarrow> int \<Rightarrow> kqueue_filter \<Rightarrow> nat option"
  rw_next :: int
  rw_ns :: nat

definition ref_start :: ref_world where
  "ref_start = \<lparr>rw_reg = (\<lambda>_ _. None), rw_note = (\<lambda>_ _ _. None), rw_next = 3, rw_ns = 0\<rparr>"

definition ref_epoll_ctl :: "int \<Rightarrow> epoll_op \<Rightarrow> int \<Rightarrow> u32 \<times> nat \<Rightarrow> ref_world \<Rightarrow> (errno + unit) \<times> ref_world" where
  "ref_epoll_ctl p op fd ev w =
     (case op of
        EPOLL_CTL_ADD \<Rightarrow> if rw_reg w p fd \<noteq> None then (Inl EEXIST, w) else (Inr (), w\<lparr>rw_reg := (rw_reg w)(p := (rw_reg w p)(fd \<mapsto> ev))\<rparr>)
      | EPOLL_CTL_MOD \<Rightarrow> if rw_reg w p fd = None then (Inl ENOENT, w) else (Inr (), w\<lparr>rw_reg := (rw_reg w)(p := (rw_reg w p)(fd \<mapsto> ev))\<rparr>)
      | EPOLL_CTL_DEL \<Rightarrow> if rw_reg w p fd = None then (Inl ENOENT, w) else (Inr (), w\<lparr>rw_reg := (rw_reg w)(p := (rw_reg w p)(fd := None))\<rparr>))"

definition ref_kevent_change :: "int \<Rightarrow> int \<Rightarrow> kqueue_filter \<Rightarrow> bool \<Rightarrow> nat \<Rightarrow> ref_world \<Rightarrow> (errno + unit) \<times> ref_world" where
  "ref_kevent_change p fd d a i w =
     (if a then (Inr (), w\<lparr>rw_note := (rw_note w)(p := (rw_note w p)(fd := (rw_note w p fd)(d \<mapsto> i)))\<rparr>)
      else if rw_note w p fd d = None then (Inl ENOENT, w)
      else (Inr (), w\<lparr>rw_note := (rw_note w)(p := (rw_note w p)(fd := (rw_note w p fd)(d := None)))\<rparr>))"

definition ref_host :: "ref_world host" where
  "ref_host = \<lparr>
     h_now = (\<lambda>w. (of_nat (rw_ns w div 1000000), w)),
     h_read = (\<lambda>fd n w. (Inl EAGAIN, w)),
     h_write = (\<lambda>fd b w. (Inr (length b), w)),
     h_recv = (\<lambda>fd n w. (Inl EAGAIN, w)),
     h_send = (\<lambda>fd b w. (Inr (length b), w)),
     h_close = (\<lambda>fd w. (Inr (), w)),
     h_eventfd = (\<lambda>w. (Inr (rw_next w), w\<lparr>rw_next := rw_next w + 1\<rparr>)),
     h_epoll_create = (\<lambda>w. (Inr (rw_next w), w\<lparr>rw_next := rw_next w + 1, rw_reg := (rw_reg w)(rw_next w := (\<lambda>_. None))\<rparr>)),
     h_epoll_ctl = ref_epoll_ctl,
     h_epoll_wait = (\<lambda>p n ms w. (Inr [], w\<lparr>rw_ns := rw_ns w + nat ms * 1000000 + 1\<rparr>)),
     h_kqueue = (\<lambda>w. (Inr (rw_next w), w\<lparr>rw_next := rw_next w + 1, rw_note := (rw_note w)(rw_next w := (\<lambda>_ _. None))\<rparr>)),
     h_kevent_change = ref_kevent_change,
     h_kevent_wait = (\<lambda>p n t w. (Inr [], w))\<rparr>"

interpretation ref_time: epoll_time ref_host "\<lambda>p w. rw_reg w p" "\<lambda>_ _ _ _ st. st" rw_ns 1
  by unfold_locales (auto simp: ref_host_def ref_epoll_ctl_def split: epoll_op.splits if_splits)

interpretation ref_kqueue: kqueue_kernel ref_host "\<lambda>p w. rw_note w p"
  by unfold_locales (auto simp: ref_host_def ref_kevent_change_def split: if_splits)

section \<open>Properties\<close>








text \<open>
  C7. The table of sources is a bounded map from descriptors to what was registered for them: each operation
  answers and changes the map as the specification says, with either kernel, and keeps the invariant.
\<close>

theorem loop_table_refines_map:
  assumes "epoll_kernel h reg" "kqueue_kernel h' knote"
  shows "table_refines (epoll_backend h) (loop_inv None epoll_entry reg)
    \<and> table_refines (kqueue_backend h') (loop_inv (\<lambda>_. None) mask_hear knote)"
  using epoll_kernel.epoll_refines_map [OF assms(1)] kqueue_kernel.kqueue_refines_map [OF assms(2)] by blast

theorem loop_table_refines_map_witness:
  "table_refines (epoll_backend ref_host) (loop_inv None epoll_entry (\<lambda>p w. rw_reg w p))
   \<and> table_refines (kqueue_backend ref_host) (loop_inv (\<lambda>_. None) mask_hear (\<lambda>p w. rw_note w p))"
  by (rule loop_table_refines_map [OF ref_time.epoll_kernel_axioms ref_kqueue.kqueue_kernel_axioms])


definition two_sources :: inkwell_loop where
  "two_sources = zero_loop\<lparr>poll_fd := 3, sources := (sources zero_loop)
     [0 := \<lparr>src_fd = 7, src_events = loop_in OR loop_out, src_callback = APP_CALLBACK 0, src_userdata = 0, src_active = True\<rparr>,
      1 := \<lparr>src_fd = 8, src_events = loop_in, src_callback = APP_CALLBACK 1, src_userdata = 0, src_active = True\<rparr>]\<rparr>"




text \<open>
  The epoll backend has no such guard: a source that takes a slot during a batch is told of an event of the
  source that had the slot before. Here the callback of descriptor 7 replaces descriptor 8 by descriptor 9, and
  the callback of 9 is then called with what was reported for 8.
\<close>

lemma epoll_stale_event:
  "let app = (\<lambda>f fd m ud (L, w). if f = 0 then
       (case inkwell_loop_remove_fd (epoll_backend ref_host) L 8 w of
          (_, L, w) \<Rightarrow> snd (inkwell_loop_add_fd (epoll_backend ref_host) L 9 loop_in (APP_CALLBACK 2) 0 w))
       else (L, w))
   in map_option fst (epoll_deliver ref_host app [(0, loop_in), (1, loop_in)] (two_sources, ref_start\<lparr>rw_reg := (\<lambda>_. [7 \<mapsto> (5, 0), 8 \<mapsto> (1, 1)])\<rparr>))
     = Some [(0, 7, loop_in), (1, 9, loop_in)]"
  by (simp add: Let_def two_sources_def zero_loop_def zero_source_def no_source_def set_source_def find_source_index_def free_slot_def
    loop_max_sources_def upt_rec call_source_def inkwell_loop_remove_fd_def inkwell_loop_add_fd_def epoll_backend_def backend_ctl_def
    ref_host_def ref_epoll_ctl_def ref_start_def loop_in_def)

text \<open>
  C8. A run with a timeout ends. \<open>inkwell_loop_run\<close> returns whatever becomes ready and however often the wait is
  interrupted, with the loop stopped and the table in step with the poll set, and it gives control back by the
  timeout, counted to the next millisecond, and the time of one batch of callbacks: a source that is always
  ready does not hold it.
\<close>

theorem loop_run_returns:
  assumes "epoll_time h reg app ns \<delta>" "loop_inv None epoll_entry reg L w" "0 < timeout_ms" "timeout_ms < 2 ^ 31"
    "ns w + (nat timeout_ms + 1) * 1000000 + 13 * \<delta> < 2 ^ 64 * 1000000"
  shows "\<exists>r L' w'. inkwell_loop_run (epoll_backend h) h app L timeout_ms w = Some (r, L', w')
    \<and> loop_inv None epoll_entry reg L' w' \<and> \<not> running L' \<and> ns w' \<le> ns w + (nat timeout_ms + 1) * 1000000 + 13 * \<delta>"
  by (rule epoll_time.run_returns [OF assms])

theorem loop_run_returns_witness:
  "\<exists>r L' w'. inkwell_loop_run (epoll_backend ref_host) ref_host (\<lambda>_ _ _ _ st. st) (zero_loop\<lparr>poll_fd := 3\<rparr>) 20 ref_start = Some (r, L', w')
    \<and> \<not> running L' \<and> rw_ns w' \<le> 21000013"
proof -
  have "loop_inv None epoll_entry (\<lambda>p w. rw_reg w p) (zero_loop\<lparr>poll_fd := 3\<rparr>) ref_start"
    using zero_loop_empty(1) [where p = 3 and k = "wake zero_loop"]
      zero_loop_empty(2) [where p = 3 and k = "wake zero_loop" and none = None and entry = epoll_entry] by (simp add: loop_inv_def ref_start_def)
  from loop_run_returns [OF ref_time.epoll_time_axioms this, of 20] show ?thesis by (auto simp: ref_start_def)
qed

end
