(* ===== verification/Stream_IO.thy ===== *)
theory Stream_IO
  imports Loop
begin

text \<open>
  The byte stream on a descriptor (\<open>src/net/stream.c\<close>) on a POSIX system. The caller's queue storage is in the
  record: the slots and the \<open>slot_count * slot_bytes\<close> bytes behind them, which are a ring from \<open>head\<close>. An
  operation takes and returns the stream, the loop it may be registered with (\<open>st_has_loop\<close> is that the pointer
  is not NULL) and the world. What a call hands to the sinks is part of its result: the pieces given to
  \<open>on_bytes\<close>, and the ids given to \<open>on_dropped\<close>. A flush is \<open>None\<close> when it is interrupted for ever.
\<close>

section \<open>State\<close>

datatype inkwell_stream_kind = STREAM_FILE | STREAM_SOCKET

record inkwell_stream_slot =
  slot_length :: nat
  slot_sent :: nat
  slot_id :: u32

record inkwell_stream =
  st_fd :: int
  st_socket :: u64
  st_token :: int
  st_kind :: inkwell_stream_kind
  st_want_write :: bool
  st_has_loop :: bool
  st_slots :: "inkwell_stream_slot list"
  st_bytes :: bytes
  st_slot_count :: nat
  st_slot_bytes :: nat
  st_head :: nat
  st_queued :: nat
  st_received :: nat
  st_on_bytes :: bool
  st_on_dropped :: bool

definition stream_read_chunk :: nat where "stream_read_chunk = 1024"
definition stream_reads_per_turn :: nat where "stream_reads_per_turn = 8"

text \<open>The stream after \<open>init\<close>. The storage is \<open>None\<close> when either pointer is NULL.\<close>

definition inkwell_stream_init :: "(inkwell_stream_slot list \<times> bytes) option \<Rightarrow> nat \<Rightarrow> nat \<Rightarrow> inkwell_stream" where
  "inkwell_stream_init storage slot_count slot_bytes =
     (let s = \<lparr>st_fd = -1, st_socket = socket_invalid, st_token = -1, st_kind = STREAM_FILE, st_want_write = False,
                st_has_loop = False, st_slots = [], st_bytes = [], st_slot_count = 0, st_slot_bytes = 0, st_head = 0,
                st_queued = 0, st_received = 0, st_on_bytes = False, st_on_dropped = False\<rparr>
      in case storage of
           None \<Rightarrow> s
         | Some (slots, data) \<Rightarrow>
             if slot_count > 0 \<and> slot_bytes > 0
             then s\<lparr>st_slots := slots, st_bytes := data, st_slot_count := slot_count, st_slot_bytes := slot_bytes\<rparr>
             else s)"

definition inkwell_stream_set_sink :: "inkwell_stream \<Rightarrow> bool \<Rightarrow> bool \<Rightarrow> inkwell_stream" where
  "inkwell_stream_set_sink s on_bytes on_dropped = s\<lparr>st_on_bytes := on_bytes, st_on_dropped := on_dropped\<rparr>"

definition inkwell_stream_is_open :: "inkwell_stream \<Rightarrow> bool" where
  "inkwell_stream_is_open s \<longleftrightarrow> (if st_kind s = STREAM_SOCKET then st_socket s \<noteq> socket_invalid else st_fd s \<ge> 0)"

definition stream_write :: "'w host \<Rightarrow> inkwell_stream \<Rightarrow> bytes \<Rightarrow> 'w \<Rightarrow> (errno + nat) \<times> 'w" where
  "stream_write h s data w =
     (if st_kind s = STREAM_SOCKET then inkwell_socket_send h (st_socket s) data w
      else inkwell_fd_write h (st_fd s) data w)"

section \<open>The queue\<close>

definition slot_bytes_at :: "inkwell_stream \<Rightarrow> nat \<Rightarrow> bytes" where
  "slot_bytes_at s i = take (st_slot_bytes s) (drop (i * st_slot_bytes s) (st_bytes s))"

definition slot_wipe :: "inkwell_stream \<Rightarrow> nat \<Rightarrow> inkwell_stream" where
  "slot_wipe s i = s\<lparr>st_bytes := mem_write (st_bytes s) (i * st_slot_bytes s) (replicate (st_slot_bytes s) 0)\<rparr>"

fun drop_queue_loop :: "nat list \<Rightarrow> inkwell_stream \<Rightarrow> u32 list \<times> inkwell_stream" where
  "drop_queue_loop [] s = ([], s)"
| "drop_queue_loop (i # is) s =
     (let index = (st_head s + i) mod st_slot_count s;
          ident = slot_id (st_slots s ! index);
          (dropped, s') = drop_queue_loop is (slot_wipe s index)
      in (if ident \<noteq> 0 \<and> st_on_dropped s then ident # dropped else dropped, s'))"

definition stream_drop_queue :: "inkwell_stream \<Rightarrow> u32 list \<times> inkwell_stream" where
  "stream_drop_queue s =
     (case drop_queue_loop [0..<st_queued s] s of (dropped, s) \<Rightarrow> (dropped, s\<lparr>st_head := 0, st_queued := 0\<rparr>))"

definition stream_update_write_interest :: "'w loop_backend \<Rightarrow> inkwell_stream \<Rightarrow> inkwell_loop \<Rightarrow> 'w \<Rightarrow> inkwell_stream \<times> inkwell_loop \<times> 'w" where
  "stream_update_write_interest B s L w =
     (if st_token s < 0 \<or> \<not> st_has_loop s then (s, L, w)
      else let want = st_queued s > 0 in
        if want = st_want_write s then (s, L, w)
        else case inkwell_loop_update_fd B L (st_token s) (if want then loop_in OR loop_out else loop_in) w of
          (Inr _, L, w) \<Rightarrow> (s\<lparr>st_want_write := want\<rparr>, L, w)
        | (Inl _, L, w) \<Rightarrow> (s, L, w))"

text \<open>The loop of a flush: whether it ended without a fatal error.\<close>

partial_function (option) flush_loop :: "'w host \<Rightarrow> inkwell_stream \<Rightarrow> 'w \<Rightarrow> (bool \<times> inkwell_stream \<times> 'w) option" where
  "flush_loop h s w =
     (if st_queued s = 0 then Some (True, s, w)
      else
        let slot = st_slots s ! st_head s in
        (case stream_write h s (take (slot_length slot - slot_sent slot) (drop (slot_sent slot) (slot_bytes_at s (st_head s)))) w of
           (Inl e, w) \<Rightarrow>
             if e = EAGAIN then Some (True, s, w)
             else if e = EINTR then flush_loop h s w
             else Some (False, s, w)
         | (Inr written, w) \<Rightarrow>
             let slot = slot\<lparr>slot_sent := slot_sent slot + written\<rparr>;
                 s = s\<lparr>st_slots := (st_slots s)[st_head s := slot]\<rparr>
             in if slot_sent slot < slot_length slot then Some (True, s, w)
                else let s = slot_wipe s (st_head s)
                     in flush_loop h (s\<lparr>st_head := (st_head s + 1) mod st_slot_count s, st_queued := st_queued s - 1\<rparr>) w))"

definition inkwell_stream_flush :: "'w loop_backend \<Rightarrow> 'w host \<Rightarrow> inkwell_stream \<Rightarrow> inkwell_loop \<Rightarrow> 'w \<Rightarrow> ((errno + unit) \<times> inkwell_stream \<times> inkwell_loop \<times> 'w) option" where
  "inkwell_stream_flush B h s L w =
     (if \<not> inkwell_stream_is_open s then Some (Inl ENOTCONN, s, L, w)
      else case flush_loop h s w of
        None \<Rightarrow> None
      | Some (ok, s, w) \<Rightarrow>
          if ok then Some (Inr (), stream_update_write_interest B s L w) else Some (Inl EIO, s, L, w))"

definition inkwell_stream_send :: "'w loop_backend \<Rightarrow> 'w host \<Rightarrow> inkwell_stream \<Rightarrow> inkwell_loop \<Rightarrow> bytes \<Rightarrow> u32 \<Rightarrow> 'w \<Rightarrow> ((errno + unit) \<times> inkwell_stream \<times> inkwell_loop \<times> 'w) option" where
  "inkwell_stream_send B h s L data ident w =
     (if \<not> inkwell_stream_is_open s then Some (Inl ENOTCONN, s, L, w)
      else if st_slot_count s = 0 \<or> st_queued s \<ge> st_slot_count s then Some (Inl ENOSPC, s, L, w)
      else if length data > st_slot_bytes s then Some (Inl EMSGSIZE, s, L, w)
      else
        let index = (st_head s + st_queued s) mod st_slot_count s;
            s = s\<lparr>st_bytes := mem_write (st_bytes s) (index * st_slot_bytes s) data,
                   st_slots := (st_slots s)[index := \<lparr>slot_length = length data, slot_sent = 0, slot_id = ident\<rparr>],
                   st_queued := st_queued s + 1\<rparr>
        in case stream_update_write_interest B s L w of (s, L, w) \<Rightarrow> inkwell_stream_flush B h s L w)"

definition inkwell_stream_write_raw :: "'w host \<Rightarrow> inkwell_stream \<Rightarrow> bytes \<Rightarrow> 'w \<Rightarrow> (errno + nat) \<times> 'w" where
  "inkwell_stream_write_raw h s data w = (if \<not> inkwell_stream_is_open s then (Inl ENOTCONN, w) else stream_write h s data w)"

section \<open>Reading\<close>

text \<open>The turns that are left; the pieces handed to the sink come first.\<close>

fun pump_loop :: "'w host \<Rightarrow> nat \<Rightarrow> nat \<Rightarrow> inkwell_stream \<Rightarrow> 'w \<Rightarrow> bytes list \<times> (errno + nat) \<times> inkwell_stream \<times> 'w" where
  "pump_loop h 0 n s w = ([], Inr n, s, w)"
| "pump_loop h (Suc turns) n s w =
     (case (if st_kind s = STREAM_SOCKET then inkwell_socket_recv h (st_socket s) stream_read_chunk w
            else inkwell_fd_read h (st_fd s) stream_read_chunk w) of
        (Inr got, w) \<Rightarrow>
          if got = [] then ([], Inl ENOTCONN, s, w)
          else (case pump_loop h turns (n + length got) (s\<lparr>st_received := st_received s + length got\<rparr>) w of
                  (pieces, r) \<Rightarrow> (if st_on_bytes s then got # pieces else pieces, r))
      | (Inl e, w) \<Rightarrow>
          if e = EAGAIN then ([], Inr n, s, w)
          else if e = EINTR then pump_loop h turns n s w
          else ([], Inl EIO, s, w))"

definition inkwell_stream_pump :: "'w host \<Rightarrow> inkwell_stream \<Rightarrow> 'w \<Rightarrow> bytes list \<times> (errno + nat) \<times> inkwell_stream \<times> 'w" where
  "inkwell_stream_pump h s w =
     (if \<not> inkwell_stream_is_open s then ([], Inl ENOTCONN, s, w) else pump_loop h stream_reads_per_turn 0 s w)"

section \<open>Opening and closing\<close>

text \<open>\<open>watch\<close> is the callback and its argument where a loop is given, \<open>None\<close> where it is NULL.\<close>

definition inkwell_stream_open_socket :: "'w loop_backend \<Rightarrow> inkwell_stream \<Rightarrow> u64 \<Rightarrow> (inkwell_loop_callback \<times> nat) option \<Rightarrow> inkwell_loop \<Rightarrow> 'w \<Rightarrow> (errno + unit) \<times> inkwell_stream \<times> inkwell_loop \<times> 'w" where
  "inkwell_stream_open_socket B s sock watch L w =
     (if sock = socket_invalid then (Inl EINVAL, s, L, w)
      else if inkwell_stream_is_open s then (Inl EBUSY, s, L, w)
      else case (case watch of None \<Rightarrow> (Inr (-1), L, w)
                 | Some (callback, userdata) \<Rightarrow> inkwell_loop_watch_socket B L sock loop_in callback userdata w) of
        (Inl e, L, w) \<Rightarrow> (Inl e, s, L, w)
      | (Inr token, L, w) \<Rightarrow>
          (Inr (), s\<lparr>st_socket := sock, st_kind := STREAM_SOCKET, st_token := token, st_has_loop := (watch \<noteq> None),
                     st_want_write := False, st_received := 0, st_head := 0, st_queued := 0\<rparr>, L, w))"

definition inkwell_stream_open :: "'w loop_backend \<Rightarrow> inkwell_stream \<Rightarrow> int \<Rightarrow> inkwell_stream_kind \<Rightarrow> (inkwell_loop_callback \<times> nat) option \<Rightarrow> inkwell_loop \<Rightarrow> 'w \<Rightarrow> (errno + unit) \<times> inkwell_stream \<times> inkwell_loop \<times> 'w" where
  "inkwell_stream_open B s fd kind watch L w =
     (if fd < 0 then (Inl EINVAL, s, L, w)
      else if kind = STREAM_SOCKET then
        (case inkwell_fd_to_socket fd of
           Inl e \<Rightarrow> (Inl e, s, L, w)
         | Inr sock \<Rightarrow> inkwell_stream_open_socket B s sock watch L w)
      else if inkwell_stream_is_open s then (Inl EBUSY, s, L, w)
      else case (case watch of None \<Rightarrow> (Inr (), L, w)
                 | Some (callback, userdata) \<Rightarrow> inkwell_loop_add_fd B L fd loop_in callback userdata w) of
        (Inl e, L, w) \<Rightarrow> (Inl e, s, L, w)
      | (Inr _, L, w) \<Rightarrow>
          (Inr (), s\<lparr>st_fd := fd, st_kind := kind, st_token := (if watch = None then -1 else fd), st_has_loop := (watch \<noteq> None),
                     st_want_write := False, st_received := 0, st_head := 0, st_queued := 0\<rparr>, L, w))"

definition inkwell_stream_close :: "'w loop_backend \<Rightarrow> 'w host \<Rightarrow> inkwell_stream \<Rightarrow> inkwell_loop \<Rightarrow> 'w \<Rightarrow> u32 list \<times> inkwell_stream \<times> inkwell_loop \<times> 'w" where
  "inkwell_stream_close B h s L w =
     (case stream_drop_queue s of
        (dropped, s) \<Rightarrow>
          if \<not> inkwell_stream_is_open s then (dropped, s, L, w)
          else
            let (L, w) = (if st_token s \<ge> 0 \<and> st_has_loop s then snd (inkwell_loop_remove_fd B L (st_token s) w) else (L, w));
                w = snd (if st_kind s = STREAM_SOCKET then inkwell_socket_close h (st_socket s) w else inkwell_fd_close h (st_fd s) w)
            in (dropped, s\<lparr>st_fd := -1, st_socket := socket_invalid, st_token := -1, st_want_write := False\<rparr>, L, w))"

section \<open>The ring\<close>

lemma mem_write_before: "i + n \<le> pos \<Longrightarrow> pos \<le> length b \<Longrightarrow> take n (drop i (mem_write b pos data)) = take n (drop i b)"
  by (auto simp: mem_write_def drop_take min_def)

lemma mem_write_after:
  assumes "pos + length data \<le> i" "pos + length data \<le> length b"
  shows "drop i (mem_write b pos data) = drop i b"
  using assms by (simp add: mem_write_def)

lemma mem_write_at: "pos \<le> length b \<Longrightarrow> take (length data) (drop pos (mem_write b pos data)) = data"
  by (simp add: mem_write_def)

lemma slot_bytes_other:
  assumes "i \<noteq> j" "i < c" "j < c" "length b = c * n" "length data \<le> n"
  shows "take n (drop (i * n) (mem_write b (j * n) data)) = take n (drop (i * n) b)"
proof (cases "i < j")
  case True
  then have "i * n + n \<le> j * n" using mult_le_mono1 [of "Suc i" j n] by simp
  moreover have "j * n \<le> length b" using assms by simp
  ultimately show ?thesis by (rule mem_write_before)
next
  case False
  then have "j * n + n \<le> i * n" using assms(1) mult_le_mono1 [of "Suc j" i n] by simp
  moreover have "j * n + n \<le> length b" using assms mult_le_mono1 [of "Suc j" c n] by simp
  ultimately show ?thesis using assms(5) by (simp add: mem_write_after)
qed

definition ring :: "inkwell_stream \<Rightarrow> nat \<Rightarrow> nat" where
  "ring s i = (st_head s + i) mod st_slot_count s"

definition queue_entry :: "inkwell_stream \<Rightarrow> nat \<Rightarrow> u32 \<times> bytes" where
  "queue_entry s j =
     (let slot = st_slots s ! j
      in (slot_id slot, take (slot_length slot - slot_sent slot) (drop (slot_sent slot) (slot_bytes_at s j))))"

text \<open>The queue as a list: the ids, and what is left to write.\<close>

definition stream_queue :: "inkwell_stream \<Rightarrow> (u32 \<times> bytes) list" where
  "stream_queue s = map (\<lambda>i. queue_entry s (ring s i)) [0..<st_queued s]"

definition stream_wf :: "inkwell_stream \<Rightarrow> bool" where
  "stream_wf s \<longleftrightarrow> length (st_slots s) = st_slot_count s \<and> length (st_bytes s) = st_slot_count s * st_slot_bytes s
     \<and> st_queued s \<le> st_slot_count s \<and> (0 < st_slot_count s \<longrightarrow> st_head s < st_slot_count s)
     \<and> (\<forall>i < st_queued s. let slot = st_slots s ! ring s i in slot_sent slot \<le> slot_length slot \<and> slot_length slot \<le> st_slot_bytes s)"

lemma mod_shift_inj:
  fixes a i j c :: nat
  assumes "i < c" "j < c" "(a + i) mod c = (a + j) mod c"
  shows "i = j"
proof -
  have *: "i = j" if "i \<le> j" "j < c" "(a + i) mod c = (a + j) mod c" for i j
  proof -
    have "c dvd (a + j) - (a + i)" using that mod_eq_dvd_iff_nat [of "a + i" "a + j" c] by simp
    then have "\<not> (0 < j - i \<and> j - i < c)" using nat_dvd_not_less [of "j - i" c] by auto
    then show ?thesis using that by linarith
  qed
  show ?thesis using assms * [of i j] * [of j i] by (cases "i \<le> j") auto
qed

lemma ring_inj: "i < st_slot_count s \<Longrightarrow> j < st_slot_count s \<Longrightarrow> ring s i = ring s j \<longleftrightarrow> i = j"
  unfolding ring_def using mod_shift_inj by metis

lemma ring_less: "i < st_queued s \<Longrightarrow> stream_wf s \<Longrightarrow> ring s j < st_slot_count s"
  by (auto simp: ring_def stream_wf_def)

text \<open>A stream that differs from another in one slot of its storage.\<close>

lemma queue_entry_other:
  assumes "j \<noteq> k" "j < st_slot_count s" "k < st_slot_count s" "stream_wf s" "length data \<le> st_slot_bytes s"
    and "st_slots s' = (st_slots s)[k := slot]" "st_bytes s' = mem_write (st_bytes s) (k * st_slot_bytes s) data \<or> st_bytes s' = st_bytes s"
    and "st_slot_bytes s' = st_slot_bytes s"
  shows "queue_entry s' j = queue_entry s j"
proof -
  have "slot_bytes_at s' j = slot_bytes_at s j"
    using assms slot_bytes_other [of j k "st_slot_count s" "st_bytes s" "st_slot_bytes s" data]
    by (auto simp: slot_bytes_at_def stream_wf_def)
  then show ?thesis using assms by (simp add: queue_entry_def)
qed

lemma queue_split: "0 < st_queued s \<Longrightarrow> stream_wf s \<Longrightarrow>
  stream_queue s = queue_entry s (st_head s) # map (\<lambda>i. queue_entry s (ring s i)) [1..<st_queued s]"
  by (auto simp: stream_queue_def upt_conv_Cons ring_def stream_wf_def)

text \<open>A partial write moves the cursor of the first entry.\<close>

definition queue_advance :: "nat \<Rightarrow> inkwell_stream \<Rightarrow> inkwell_stream" where
  "queue_advance n s = s\<lparr>st_slots := (st_slots s)[st_head s := (st_slots s ! st_head s)\<lparr>slot_sent := slot_sent (st_slots s ! st_head s) + n\<rparr>]\<rparr>"

definition queue_pop :: "inkwell_stream \<Rightarrow> inkwell_stream" where
  "queue_pop s = (slot_wipe s (st_head s))\<lparr>st_head := (st_head s + 1) mod st_slot_count s, st_queued := st_queued s - 1\<rparr>"

definition queue_push :: "bytes \<Rightarrow> u32 \<Rightarrow> inkwell_stream \<Rightarrow> inkwell_stream" where
  "queue_push data ident s = s\<lparr>st_bytes := mem_write (st_bytes s) (ring s (st_queued s) * st_slot_bytes s) data,
     st_slots := (st_slots s)[ring s (st_queued s) := \<lparr>slot_length = length data, slot_sent = 0, slot_id = ident\<rparr>],
     st_queued := st_queued s + 1\<rparr>"

lemma queue_advance:
  assumes wf: "stream_wf s" and pos: "0 < st_queued s" and hd: "stream_queue s = (ident, rest) # q" and n: "n \<le> length rest"
  shows "stream_wf (queue_advance n s)" "stream_queue (queue_advance n s) = (ident, drop n rest) # q"
proof -
  let ?s = "queue_advance n s"
  have h: "st_head s < st_slot_count s" "st_head s < length (st_slots s)" "ring s 0 = st_head s" "ring ?s = ring s"
    using wf pos by (auto simp: stream_wf_def ring_def queue_advance_def)
  let ?slot = "st_slots s ! st_head s"
  have slot: "slot_sent ?slot \<le> slot_length ?slot" "slot_length ?slot \<le> st_slot_bytes s"
    using wf pos h by (auto simp: stream_wf_def Let_def dest: spec [of _ 0])
  have e: "queue_entry s (st_head s) = (ident, rest)" "q = map (\<lambda>i. queue_entry s (ring s i)) [1..<st_queued s]"
    using hd queue_split [OF pos wf] by auto
  then have n': "n \<le> slot_length ?slot - slot_sent ?slot" using n by (auto simp: queue_entry_def Let_def)
  show "stream_wf ?s"
    using wf slot n' h by (auto simp: stream_wf_def queue_advance_def ring_def Let_def nth_list_update)
  have "queue_entry ?s (ring s i) = queue_entry s (ring s i)" if "i \<in> set [1..<st_queued s]" for i
  proof (rule queue_entry_other [where data = "[]"])
    have "i < st_slot_count s" using that wf by (auto simp: stream_wf_def)
    then show "ring s i \<noteq> st_head s" using ring_inj [of i s 0] h that by auto
  qed (use wf h that in \<open>auto simp: queue_advance_def ring_less\<close>)
  moreover have "queue_entry ?s (st_head s) = (ident, drop n rest)"
  proof -
    have "slot_bytes_at ?s = slot_bytes_at s" by (rule ext) (simp add: slot_bytes_at_def queue_advance_def)
    then show ?thesis using e(1) h(2) by (auto simp: queue_entry_def Let_def drop_take) (simp_all add: queue_advance_def add.commute)
  qed
  moreover have "stream_queue ?s = queue_entry ?s (st_head ?s) # map (\<lambda>i. queue_entry ?s (ring ?s i)) [1..<st_queued ?s]"
    by (rule queue_split) (use pos \<open>stream_wf ?s\<close> in \<open>auto simp: queue_advance_def\<close>)
  ultimately show "stream_queue ?s = (ident, drop n rest) # q"
    unfolding e(2) h(4) by (simp add: queue_advance_def)
qed

lemma queue_pop:
  assumes wf: "stream_wf s" and pos: "0 < st_queued s"
  shows "stream_wf (queue_pop s)" "stream_queue (queue_pop s) = tl (stream_queue s)"
proof -
  let ?s = "queue_pop s"
  have h: "0 < st_slot_count s" "st_head s < st_slot_count s" "ring s 0 = st_head s" using wf pos by (auto simp: stream_wf_def ring_def)
  have ring: "ring ?s i = ring s (Suc i)" for i by (simp add: queue_pop_def ring_def slot_wipe_def mod_simps)
  have len: "st_head s * st_slot_bytes s + st_slot_bytes s \<le> st_slot_count s * st_slot_bytes s"
    using h mult_le_mono1 [of "Suc (st_head s)" "st_slot_count s" "st_slot_bytes s"] by simp
  show "stream_wf ?s"
    using wf h len unfolding stream_wf_def ring by (auto simp: queue_pop_def slot_wipe_def Let_def)
  have "queue_entry ?s (ring s i) = queue_entry s (ring s i)" if "i \<in> set [1..<st_queued s]" for i
  proof (rule queue_entry_other [where data = "replicate (st_slot_bytes s) 0"])
    have "i < st_slot_count s" using that wf by (auto simp: stream_wf_def)
    then show "ring s i \<noteq> st_head s" using ring_inj [of i s 0] h that by auto
    show "st_slots ?s = (st_slots s)[st_head s := st_slots s ! st_head s]" by (simp add: queue_pop_def slot_wipe_def)
  qed (use wf h that in \<open>auto simp: queue_pop_def slot_wipe_def ring_less\<close>)
  then have "map (\<lambda>i. queue_entry s (ring s i)) [1..<st_queued s] = map (\<lambda>i. queue_entry ?s (ring s i)) [1..<st_queued s]" by simp
  also have "\<dots> = stream_queue ?s"
    using pos map_Suc_upt [of 0 "st_queued s - 1", symmetric] unfolding stream_queue_def ring by (simp add: queue_pop_def)
  finally show "stream_queue ?s = tl (stream_queue s)" using queue_split [OF pos wf] by simp
qed

lemma queue_push:
  assumes wf: "stream_wf s" and room: "st_queued s < st_slot_count s" and fits: "length data \<le> st_slot_bytes s"
  shows "stream_wf (queue_push data ident s)" "stream_queue (queue_push data ident s) = stream_queue s @ [(ident, data)]"
proof -
  let ?s = "queue_push data ident s" and ?k = "ring s (st_queued s)"
  have k: "?k < st_slot_count s" using room by (simp add: ring_def)
  have ring: "ring ?s i = ring s i" for i by (simp add: queue_push_def ring_def)
  have other: "?k \<noteq> ring s i" if "i < st_queued s" for i using ring_inj [of i s "st_queued s"] that room by simp
  have at: "?k * st_slot_bytes s + st_slot_bytes s \<le> st_slot_count s * st_slot_bytes s"
    using k mult_le_mono1 [of "Suc ?k" "st_slot_count s" "st_slot_bytes s"] by simp
  show "stream_wf ?s"
    unfolding stream_wf_def ring
  proof (intro conjI allI impI)
    fix i assume "i < st_queued ?s"
    then consider "i < st_queued s" | "i = st_queued s" by (auto simp: queue_push_def less_Suc_eq)
    then show "let slot = st_slots ?s ! ring s i in slot_sent slot \<le> slot_length slot \<and> slot_length slot \<le> st_slot_bytes ?s"
      using wf other k fits by cases (auto simp: stream_wf_def queue_push_def Let_def)
  qed (use wf room at fits in \<open>auto simp: stream_wf_def queue_push_def\<close>)
  have old: "queue_entry ?s (ring s i) = queue_entry s (ring s i)" if "i \<in> set [0..<st_queued s]" for i
  proof (rule queue_entry_other)
    show "ring s i \<noteq> ?k" by (rule other [symmetric]) (use that in simp)
  qed (use wf k that fits in \<open>auto simp: queue_push_def ring_less\<close>)
  have "slot_bytes_at ?s ?k = take (st_slot_bytes s) (drop (?k * st_slot_bytes s) (mem_write (st_bytes s) (?k * st_slot_bytes s) data))"
    by (simp add: slot_bytes_at_def queue_push_def)
  then have "take (length data) (slot_bytes_at ?s ?k) = data"
    using mem_write_at [of "?k * st_slot_bytes s" "st_bytes s" data] wf at fits k by (simp add: stream_wf_def min_def)
  then have "queue_entry ?s ?k = (ident, data)"
    using wf k by (simp add: queue_entry_def queue_push_def stream_wf_def Let_def)
  then show "stream_queue ?s = stream_queue s @ [(ident, data)]"
    using old unfolding stream_queue_def ring by (simp add: queue_push_def)
qed

section \<open>Writing\<close>

text \<open>Every slot outside the queue is zero.\<close>

definition idle_wiped :: "inkwell_stream \<Rightarrow> bool" where
  "idle_wiped s \<longleftrightarrow> (\<forall>j < st_slot_count s. (\<forall>i < st_queued s. ring s i \<noteq> j) \<longrightarrow> slot_bytes_at s j = replicate (st_slot_bytes s) 0)"

lemma slot_bytes_write_other:
  assumes "j \<noteq> k" "j < st_slot_count s" "k < st_slot_count s" "stream_wf s" "length data \<le> st_slot_bytes s"
  shows "slot_bytes_at (s\<lparr>st_bytes := mem_write (st_bytes s) (k * st_slot_bytes s) data\<rparr>) j = slot_bytes_at s j"
  using assms slot_bytes_other [of j k "st_slot_count s" "st_bytes s" "st_slot_bytes s" data]
  by (simp add: slot_bytes_at_def stream_wf_def)

lemma slot_wipe_zero:
  assumes "k < st_slot_count s" "stream_wf s"
  shows "slot_bytes_at (slot_wipe s k) k = replicate (st_slot_bytes s) 0"
proof -
  have "k * st_slot_bytes s \<le> length (st_bytes s)" using assms by (simp add: stream_wf_def)
  from mem_write_at [OF this, of "replicate (st_slot_bytes s) 0"] show ?thesis by (simp add: slot_bytes_at_def slot_wipe_def)
qed

lemma slot_wipe_other:
  "j \<noteq> k \<Longrightarrow> j < st_slot_count s \<Longrightarrow> k < st_slot_count s \<Longrightarrow> stream_wf s \<Longrightarrow> slot_bytes_at (slot_wipe s k) j = slot_bytes_at s j"
  unfolding slot_wipe_def by (rule slot_bytes_write_other) simp_all

lemma idle_wiped_advance: "idle_wiped (queue_advance n s) = idle_wiped s"
  by (simp add: idle_wiped_def queue_advance_def ring_def slot_bytes_at_def)

lemma idle_wiped_pop:
  assumes wf: "stream_wf s" and pos: "0 < st_queued s" and idle: "idle_wiped s"
  shows "idle_wiped (queue_pop s)"
  unfolding idle_wiped_def
proof (intro allI impI)
  fix j assume j: "j < st_slot_count (queue_pop s)" and free: "\<forall>i < st_queued (queue_pop s). ring (queue_pop s) i \<noteq> j"
  have h: "st_head s < st_slot_count s" "ring s 0 = st_head s" using wf pos by (auto simp: stream_wf_def ring_def)
  have j': "j < st_slot_count s" using j by (simp add: queue_pop_def slot_wipe_def)
  have b: "slot_bytes_at (queue_pop s) j = slot_bytes_at (slot_wipe s (st_head s)) j" "st_slot_bytes (queue_pop s) = st_slot_bytes s"
    by (simp_all add: queue_pop_def slot_bytes_at_def slot_wipe_def)
  show "slot_bytes_at (queue_pop s) j = replicate (st_slot_bytes (queue_pop s)) 0"
  proof (cases "j = st_head s")
    case True
    then show ?thesis using slot_wipe_zero [OF h(1) wf] b by simp
  next
    case False
    have "ring s i \<noteq> j" if "i < st_queued s" for i
    proof (cases i)
      case 0
      then show ?thesis using False h by simp
    next
      case (Suc k)
      have "ring (queue_pop s) k = ring s (Suc k)" by (simp add: queue_pop_def ring_def slot_wipe_def mod_simps)
      then show ?thesis using free that Suc by (auto simp: queue_pop_def slot_wipe_def)
    qed
    then show ?thesis using idle j' slot_wipe_other [OF False j' h(1) wf] b by (simp add: idle_wiped_def)
  qed
qed

lemma idle_wiped_push:
  assumes wf: "stream_wf s" and room: "st_queued s < st_slot_count s" and fits: "length data \<le> st_slot_bytes s" and idle: "idle_wiped s"
  shows "idle_wiped (queue_push data ident s)"
  unfolding idle_wiped_def
proof (intro allI impI)
  let ?s = "queue_push data ident s" and ?k = "ring s (st_queued s)"
  fix j assume j: "j < st_slot_count ?s" and free: "\<forall>i < st_queued ?s. ring ?s i \<noteq> j"
  have ring: "ring ?s i = ring s i" for i by (simp add: queue_push_def ring_def)
  have k: "?k < st_slot_count s" using room by (simp add: ring_def)
  have j': "j < st_slot_count s" "j \<noteq> ?k" "\<forall>i < st_queued s. ring s i \<noteq> j"
    using j free unfolding ring by (auto simp: queue_push_def)
  have "slot_bytes_at ?s j = slot_bytes_at s j"
    using slot_bytes_write_other [OF j'(2,1) k wf fits] by (simp add: slot_bytes_at_def queue_push_def)
  then show "slot_bytes_at ?s j = replicate (st_slot_bytes ?s) 0"
    using idle j' by (simp add: idle_wiped_def queue_push_def)
qed

text \<open>The descriptor behind a stream.\<close>

definition stream_fd :: "inkwell_stream \<Rightarrow> int" where
  "stream_fd s = (if st_kind s = STREAM_SOCKET then socket_fd (st_socket s) else st_fd s)"

text \<open>
  What the stream relies on. \<open>out fd w\<close> is what has been written to a descriptor: a write appends a part of
  what it was given, or nothing when it fails. \<open>intr\<close> bounds how often a call is still interrupted. A control call
  on the poll set writes nothing and, to change or remove a registered descriptor, succeeds; writing leaves the poll set alone.
\<close>

locale stream_host = epoll_kernel +
  fixes out :: "int \<Rightarrow> 'w \<Rightarrow> bytes"
    and intr :: "'w \<Rightarrow> nat"
  assumes write_out: "h_write h fd data w = (Inr n, w') \<or> h_send h fd data w = (Inr n, w') \<Longrightarrow>
      n \<le> length data \<and> out fd w' = out fd w @ take n data"
    and write_fail: "h_write h fd data w = (Inl e, w') \<or> h_send h fd data w = (Inl e, w') \<Longrightarrow>
      out fd w' = out fd w \<and> (e = EINTR \<longrightarrow> intr w' < intr w)"
    and write_quiet: "h_write h fd data w = (r, w') \<or> h_send h fd data w = (r, w') \<Longrightarrow> intr w' \<le> intr w \<and> reg p w' = reg p w"
    and ctl_quiet: "h_epoll_ctl h p op fd ev w = (r', w') \<Longrightarrow> out fd' w' = out fd' w"
    and ctl_registered: "reg p w fd \<noteq> None \<Longrightarrow> op \<noteq> EPOLL_CTL_ADD \<Longrightarrow> \<exists>w'. h_epoll_ctl h p op fd ev w = (Inr (), w')"
begin

lemma stream_write_cases:
  assumes "inkwell_stream_is_open s"
  obtains n w' where "stream_write h s data w = (Inr n, w')" "n \<le> length data" "out (stream_fd s) w' = out (stream_fd s) w @ take n data"
      "intr w' \<le> intr w" "\<And>p. reg p w' = reg p w"
    | e w' where "stream_write h s data w = (Inl e, w')" "out (stream_fd s) w' = out (stream_fd s) w" "intr w' \<le> intr w"
      "e = EINTR \<Longrightarrow> intr w' < intr w" "\<And>p. reg p w' = reg p w"
proof -
  let ?call = "if st_kind s = STREAM_SOCKET then h_send h (stream_fd s) (take int_max data) w else h_write h (stream_fd s) (take int_max data) w"
  have call: "stream_write h s data w = ?call"
    using assms by (simp add: stream_write_def inkwell_socket_send_def inkwell_fd_write_def inkwell_stream_is_open_def stream_fd_def split: if_splits)
  obtain r w' where r: "?call = (r, w')" by fastforce
  then have or: "h_write h (stream_fd s) (take int_max data) w = (r, w') \<or> h_send h (stream_fd s) (take int_max data) w = (r, w')"
    by (simp split: if_splits)
  note quiet = write_quiet [OF or]
  show thesis
  proof (cases r)
    case (Inl e)
    note f = write_fail [OF or [unfolded Inl]]
    show thesis using that(2) [of e w'] f quiet call r Inl by simp
  next
    case (Inr n)
    note f = write_out [OF or [unfolded Inr]]
    have "n \<le> length data" "take n (take int_max data) = take n data" using f by (simp_all add: min_def split: if_splits)
    then show thesis using that(1) [of n w'] f quiet call r Inr by simp
  qed
qed

end

text \<open>The flush in terms of the queue.\<close>

lemma queue_head:
  assumes "stream_wf s" "0 < st_queued s"
  obtains q where "stream_queue s = (slot_id (st_slots s ! st_head s), take (slot_length (st_slots s ! st_head s) - slot_sent (st_slots s ! st_head s))
      (drop (slot_sent (st_slots s ! st_head s)) (slot_bytes_at s (st_head s)))) # q"
    "length (snd (hd (stream_queue s))) = slot_length (st_slots s ! st_head s) - slot_sent (st_slots s ! st_head s)"
proof -
  let ?slot = "st_slots s ! st_head s"
  have h: "st_head s < st_slot_count s" "ring s 0 = st_head s" using assms by (auto simp: stream_wf_def ring_def)
  have slot: "slot_sent ?slot \<le> slot_length ?slot" "slot_length ?slot \<le> st_slot_bytes s"
    using assms h by (auto simp: stream_wf_def Let_def dest: spec [of _ 0])
  have "st_head s * st_slot_bytes s + st_slot_bytes s \<le> length (st_bytes s)"
    using h assms mult_le_mono1 [of "Suc (st_head s)" "st_slot_count s" "st_slot_bytes s"] by (simp add: stream_wf_def)
  then have "length (slot_bytes_at s (st_head s)) = st_slot_bytes s" by (simp add: slot_bytes_at_def)
  then show thesis using slot queue_split [OF assms(2,1)] by (intro that) (simp_all add: queue_entry_def Let_def)
qed

lemma flush_loop_step:
  assumes wf: "stream_wf s" and pos: "0 < st_queued s" and q: "stream_queue s = (ident, rest) # q"
  shows "flush_loop h s w =
    (case stream_write h s rest w of
       (Inl e, w) \<Rightarrow> if e = EAGAIN then Some (True, s, w) else if e = EINTR then flush_loop h s w else Some (False, s, w)
     | (Inr n, w) \<Rightarrow> if n < length rest then Some (True, queue_advance n s, w) else flush_loop h (queue_pop (queue_advance n s)) w)"
proof -
  let ?slot = "st_slots s ! st_head s"
  have rest: "rest = take (slot_length ?slot - slot_sent ?slot) (drop (slot_sent ?slot) (slot_bytes_at s (st_head s)))"
    "length rest = slot_length ?slot - slot_sent ?slot"
    by (rule queue_head [OF wf pos], simp add: q)+
  have nth: "st_slots (queue_advance n s) ! st_head s = ?slot\<lparr>slot_sent := slot_sent ?slot + n\<rparr>" for n
    using wf pos by (simp add: queue_advance_def stream_wf_def)
  have less: "slot_sent ?slot + n < slot_length ?slot \<longleftrightarrow> n < length rest" for n unfolding rest(2) by linarith
  have pop: "(slot_wipe t (st_head t))\<lparr>st_head := Suc (st_head (slot_wipe t (st_head t))) mod st_slot_count (slot_wipe t (st_head t)),
      st_queued := st_queued (slot_wipe t (st_head t)) - Suc 0\<rparr> = queue_pop t" for t
    by (simp add: queue_pop_def slot_wipe_def)
  show ?thesis
    using pos by (subst flush_loop.simps)
      (simp add: Let_def rest(1) [symmetric] less queue_advance_def [symmetric] pop split: prod.split sum.split)
qed

text \<open>What a flush keeps: everything but the queue, and the bytes, in order.\<close>

definition stream_frame :: "inkwell_stream \<Rightarrow> inkwell_stream" where
  "stream_frame s = s\<lparr>st_slots := [], st_bytes := [], st_head := 0, st_queued := 0\<rparr>"

text \<open>
  What a flush does to the queue: entries go out whole and in order, and perhaps a part of the entry that is then
  the first. \<open>o\<close> and \<open>o'\<close> are what was written before and after.
\<close>

fun prepend :: "bytes \<Rightarrow> (u32 \<times> bytes) list \<Rightarrow> (u32 \<times> bytes) list" where
  "prepend part [] = []"
| "prepend part ((i, b) # q) = (i, part @ b) # q"

definition drained :: "(u32 \<times> bytes) list \<Rightarrow> bytes \<Rightarrow> (u32 \<times> bytes) list \<Rightarrow> bytes \<Rightarrow> bool" where
  "drained q sent q' sent' \<longleftrightarrow>
     (\<exists>gone part. q = gone @ prepend part q' \<and> sent' = sent @ concat (map snd gone) @ part \<and> (q' = [] \<longrightarrow> part = []))"

lemma prepend_simps [simp]: "prepend [] q = q" "prepend p (prepend p' q) = prepend (p @ p') q" "prepend p q = [] \<longleftrightarrow> q = []"
  "q \<noteq> [] \<Longrightarrow> prepend p (q @ r) = prepend p q @ r"
  by (cases q; auto)+

lemma drained_refl [simp]: "drained q sent q sent"
  unfolding drained_def by (intro exI [of _ "[]"]) simp

lemma drained_first: "drained ((i, b) # q) sent q (sent @ b)"
  unfolding drained_def by (intro exI [of _ "[(i, b)]"] exI [of _ "[]"]) simp

lemma drained_part: "drained ((i, b) # q) sent ((i, drop n b) # q) (sent @ take n b)"
  unfolding drained_def by (intro exI [of _ "[]"] exI [of _ "take n b"]) simp

lemma drained_append:
  assumes "drained q sent q' sent'"
  shows "drained (q @ r) sent (q' @ r) sent'"
proof -
  obtain g p where "q = g @ prepend p q'" "sent' = sent @ concat (map snd g) @ p" "q' = [] \<longrightarrow> p = []"
    using assms unfolding drained_def by blast
  then show ?thesis unfolding drained_def by (intro exI [of _ g] exI [of _ p]) (cases "q' = []", simp_all)
qed

lemma drained_trans:
  assumes "drained q o1 q' o2" "drained q' o2 q'' o3"
  shows "drained q o1 q'' o3"
proof -
  obtain g p where 1: "q = g @ prepend p q'" "o2 = o1 @ concat (map snd g) @ p" "q' = [] \<longrightarrow> p = []"
    using assms(1) unfolding drained_def by blast
  obtain g' p' where 2: "q' = g' @ prepend p' q''" "o3 = o2 @ concat (map snd g') @ p'" "q'' = [] \<longrightarrow> p' = []"
    using assms(2) unfolding drained_def by blast
  show ?thesis
  proof (cases g')
    case Nil
    then show ?thesis unfolding drained_def by (intro exI [of _ g] exI [of _ "p @ p'"]) (use 1 2 in auto)
  next
    case (Cons x xs)
    obtain i b where x: "x = (i, b)" by fastforce
    show ?thesis unfolding drained_def by (intro exI [of _ "g @ (i, p @ b) # xs"] exI [of _ p']) (use 1 2 Cons x in auto)
  qed
qed

context stream_host
begin

lemma flush_loop_returns:
  assumes "stream_wf s" "inkwell_stream_is_open s"
  shows "\<exists>ok s' w'. flush_loop h s w = Some (ok, s', w') \<and> stream_wf s' \<and> stream_frame s' = stream_frame s
    \<and> drained (stream_queue s) (out (stream_fd s) w) (stream_queue s') (out (stream_fd s) w')
    \<and> intr w' \<le> intr w \<and> (\<forall>p. reg p w' = reg p w) \<and> (idle_wiped s \<longrightarrow> idle_wiped s')"
  using assms
proof (induction "st_queued s + intr w" arbitrary: s w rule: less_induct)
  case less
  note wf = less.prems(1)
  show ?case
  proof (cases "st_queued s = 0")
    case True
    then have "flush_loop h s w = Some (True, s, w)" by (simp add: flush_loop.simps)
    then show ?thesis by (intro exI [of _ True] exI [of _ s] exI [of _ w]) (use less.prems in simp)
  next
    case False
    then have pos: "0 < st_queued s" by simp
    obtain ident rest q where q: "stream_queue s = (ident, rest) # q" by (rule queue_head [OF wf pos])
    note step = flush_loop_step [OF wf pos q, of h w]
    from less.prems(2) show ?thesis
    proof (cases rule: stream_write_cases [of s rest w])
      case (1 n w')
      let ?a = "queue_advance n s"
      note a = queue_advance [OF wf pos q 1(2)]
      show ?thesis
      proof (cases "n < length rest")
        case True
        then have "flush_loop h s w = Some (True, ?a, w')" using step 1(1) by simp
        moreover have "stream_frame ?a = stream_frame s" by (simp add: stream_frame_def queue_advance_def)
        moreover have "drained (stream_queue s) (out (stream_fd s) w) (stream_queue ?a) (out (stream_fd s) w')"
          unfolding q a(2) 1(3) by (rule drained_part)
        ultimately show ?thesis using a(1) 1(4,5) idle_wiped_advance by blast
      next
        case False
        let ?p = "queue_pop ?a"
        have pos': "0 < st_queued ?a" using pos by (simp add: queue_advance_def)
        note p = queue_pop [OF a(1) pos']
        have same: "stream_frame ?p = stream_frame s" "inkwell_stream_is_open ?p" "stream_fd ?p = stream_fd s" "st_queued ?p + intr w' < st_queued s + intr w"
          using pos 1(4) less.prems(2)
          by (auto simp: stream_frame_def queue_pop_def queue_advance_def slot_wipe_def inkwell_stream_is_open_def stream_fd_def)
        obtain ok s' w'' where r: "flush_loop h ?p w' = Some (ok, s', w'')" "stream_wf s'" "stream_frame s' = stream_frame ?p"
          "drained (stream_queue ?p) (out (stream_fd s) w') (stream_queue s') (out (stream_fd s) w'')"
          "intr w'' \<le> intr w'" "\<And>p. reg p w'' = reg p w'" "idle_wiped ?p \<Longrightarrow> idle_wiped s'"
          using less.hyps [OF same(4) p(1) same(2)] unfolding same(3) by blast
        have "flush_loop h s w = Some (ok, s', w'')" using step 1(1) False r(1) by simp
        moreover have "drained (stream_queue s) (out (stream_fd s) w) (stream_queue s') (out (stream_fd s) w'')"
        proof (rule drained_trans [OF _ r(4)])
          have "take n rest = rest" "stream_queue ?p = q" using False 1(2) a(2) p(2) by simp_all
          then show "drained (stream_queue s) (out (stream_fd s) w) (stream_queue ?p) (out (stream_fd s) w')"
            unfolding q 1(3) by (simp add: drained_first)
        qed
        moreover have "idle_wiped s \<Longrightarrow> idle_wiped s'"
          using r(7) idle_wiped_pop [OF a(1) pos'] by (simp add: idle_wiped_advance)
        ultimately show ?thesis
          by (intro exI [of _ ok] exI [of _ s'] exI [of _ w'']) (use r(2,3,5,6) 1(4,5) same(1) in simp)
      qed
    next
      case (2 e w')
      show ?thesis
      proof (cases "e = EINTR")
        case True
        then have "st_queued s + intr w' < st_queued s + intr w" using 2(4) by simp
        from less.hyps [OF this less.prems] obtain ok s' w'' where
          r: "flush_loop h s w' = Some (ok, s', w'')" "stream_wf s'" "stream_frame s' = stream_frame s"
          "drained (stream_queue s) (out (stream_fd s) w') (stream_queue s') (out (stream_fd s) w'')"
          "intr w'' \<le> intr w'" "\<And>p. reg p w'' = reg p w'" "idle_wiped s \<Longrightarrow> idle_wiped s'" by blast
        have "flush_loop h s w = Some (ok, s', w'')" using step 2(1) True r(1) by simp
        then show ?thesis
          by (intro exI [of _ ok] exI [of _ s'] exI [of _ w'']) (use r(2-7) 2(2,3,5) in simp)
      next
        case False
        then have "flush_loop h s w = Some (e = EAGAIN, s, w')" using step 2(1) by simp
        then show ?thesis
          by (intro exI [of _ "e = EAGAIN"] exI [of _ s] exI [of _ w']) (use wf 2(2,3,5) in simp)
      qed
    qed
  qed
qed

end

section \<open>The stream and its registration\<close>

definition stream_watched :: "inkwell_stream \<Rightarrow> inkwell_loop \<Rightarrow> inkwell_loop_callback \<times> nat \<Rightarrow> bool" where
  "stream_watched s L c \<longleftrightarrow> (0 \<le> st_token s \<and> st_has_loop s \<longrightarrow>
     registered L (st_token s) = Some (if st_want_write s then loop_in OR loop_out else loop_in, c))"

definition stream_inv :: "(int \<Rightarrow> 'w \<Rightarrow> int \<Rightarrow> (u32 \<times> nat) option) \<Rightarrow> inkwell_loop_callback \<times> nat \<Rightarrow> inkwell_stream \<Rightarrow> inkwell_loop \<Rightarrow> 'w \<Rightarrow> bool" where
  "stream_inv reg c s L w \<longleftrightarrow> stream_wf s \<and> inkwell_stream_is_open s \<and> epoll_inv reg L w \<and> stream_watched s L c"

text \<open>\<open>INKWELL_LOOP_OUT\<close> is armed exactly while the queue has a remainder.\<close>

definition stream_armed :: "inkwell_stream \<Rightarrow> bool" where
  "stream_armed s \<longleftrightarrow> (0 \<le> st_token s \<and> st_has_loop s \<longrightarrow> st_want_write s = (0 < st_queued s))"

lemma stream_frame_simps:
  "stream_wf (s\<lparr>st_want_write := b\<rparr>) = stream_wf s" "stream_queue (s\<lparr>st_want_write := b\<rparr>) = stream_queue s"
  "inkwell_stream_is_open (s\<lparr>st_want_write := b\<rparr>) = inkwell_stream_is_open s" "stream_fd (s\<lparr>st_want_write := b\<rparr>) = stream_fd s"
  "idle_wiped (s\<lparr>st_want_write := b\<rparr>) = idle_wiped s"
  by (simp_all add: idle_wiped_def stream_wf_def ring_def [abs_def] stream_queue_def queue_entry_def [abs_def] slot_bytes_at_def inkwell_stream_is_open_def stream_fd_def)

lemma frame_eq:
  assumes "stream_frame s' = stream_frame s"
  shows "st_token s' = st_token s" "st_has_loop s' = st_has_loop s" "st_want_write s' = st_want_write s" "st_on_dropped s' = st_on_dropped s"
    "inkwell_stream_is_open s' = inkwell_stream_is_open s" "stream_fd s' = stream_fd s" "st_slot_count s' = st_slot_count s"
    "st_slot_bytes s' = st_slot_bytes s"
  using arg_cong [OF assms, of st_token] arg_cong [OF assms, of st_has_loop] arg_cong [OF assms, of st_want_write]
    arg_cong [OF assms, of st_on_dropped] arg_cong [OF assms, of st_kind] arg_cong [OF assms, of st_socket] arg_cong [OF assms, of st_fd]
    arg_cong [OF assms, of st_slot_count] arg_cong [OF assms, of st_slot_bytes]
  by (simp_all add: stream_frame_def inkwell_stream_is_open_def stream_fd_def)

context stream_host
begin

lemma interest_armed:
  assumes inv: "stream_inv reg c s L w" and eq: "stream_update_write_interest (epoll_backend h) s L w = (s', L', w')"
  shows "stream_inv reg c s' L' w'" "stream_armed s'" "\<exists>b. s' = s\<lparr>st_want_write := b\<rparr>" "out fd w' = out fd w"
proof -
  let ?ev = "if 0 < st_queued s then loop_in OR loop_out else loop_in"
  consider (quiet) "st_token s < 0 \<or> \<not> st_has_loop s \<or> (0 < st_queued s) = st_want_write s"
    | (change) "0 \<le> st_token s" "st_has_loop s" "(0 < st_queued s) \<noteq> st_want_write s" by linarith
  then have "stream_inv reg c s' L' w' \<and> stream_armed s' \<and> (\<exists>b. s' = s\<lparr>st_want_write := b\<rparr>) \<and> out fd w' = out fd w"
  proof cases
    case quiet
    then have "s' = s" "L' = L" "w' = w" using eq by (auto simp: stream_update_write_interest_def Let_def split: if_splits)
    then show ?thesis using inv quiet by (auto simp: stream_armed_def intro: exI [of _ "st_want_write s"])
  next
    case change
    have reg: "registered L (st_token s) = Some (if st_want_write s then loop_in OR loop_out else loop_in, c)"
      and L: "epoll_inv reg L w" using inv change by (auto simp: stream_inv_def stream_watched_def)
    then obtain i where i: "find_source_index L (st_token s) = Some i" by (auto simp: registered_def split: option.splits)
    obtain r L1 w1 where u: "inkwell_loop_update_fd (epoll_backend h) L (st_token s) ?ev w = (r, L1, w1)" by (metis prod_cases3)
    have fd: "src_fd (sources L ! i) = st_token s" using find_source_index_SomeD [OF i] by (simp add: occupies_def)
    have "reg (poll_fd L) w (st_token s) \<noteq> None"
      using L i by (auto simp: loop_inv_def loop_hears_def)
    then obtain w2 where w2: "h_epoll_ctl h (poll_fd L) EPOLL_CTL_MOD (st_token s) (?ev, i) w = (Inr (), w2)"
      using ctl_registered by blast
    then have r: "r = Inr ()" "w1 = w2" using u i fd by (auto simp: inkwell_loop_update_fd_def epoll_backend_def backend_ctl_def Let_def)
    have step: "table_step None epoll_entry reg L L1 w1 (\<lambda>m. m(st_token s := map_option (\<lambda>(_, c). (?ev, c)) (m (st_token s))))"
      using epoll.update_fd_step [OF L u] r by simp
    have s': "s' = s\<lparr>st_want_write := (0 < st_queued s)\<rparr>" "L' = L1" "w' = w1"
      using eq change u r by (auto simp: stream_update_write_interest_def Let_def)
    have "stream_inv reg c s' L' w'"
      using inv step reg unfolding s' by (auto simp: stream_inv_def stream_watched_def table_step_def stream_frame_simps)
    moreover have "out fd w' = out fd w" using ctl_quiet [OF w2] r s' by simp
    ultimately show ?thesis using s' by (auto simp: stream_armed_def)
  qed
  then show "stream_inv reg c s' L' w'" "stream_armed s'" "\<exists>b. s' = s\<lparr>st_want_write := b\<rparr>" "out fd w' = out fd w" by blast+
qed

lemma flush_spec:
  assumes inv: "stream_inv reg c s L w"
  shows "\<exists>r s' L' w'. inkwell_stream_flush (epoll_backend h) h s L w = Some (r, s', L', w') \<and> stream_inv reg c s' L' w'
    \<and> stream_frame (s'\<lparr>st_want_write := False\<rparr>) = stream_frame (s\<lparr>st_want_write := False\<rparr>)
    \<and> drained (stream_queue s) (out (stream_fd s) w) (stream_queue s') (out (stream_fd s) w')
    \<and> (r = Inr () \<and> stream_armed s' \<or> r = Inl EIO) \<and> (idle_wiped s \<longrightarrow> idle_wiped s')"
proof -
  have "stream_wf s" "inkwell_stream_is_open s" using inv by (auto simp: stream_inv_def)
  from flush_loop_returns [OF this, of w] obtain ok s1 w1 where f: "flush_loop h s w = Some (ok, s1, w1)" "stream_wf s1"
    "stream_frame s1 = stream_frame s" "drained (stream_queue s) (out (stream_fd s) w) (stream_queue s1) (out (stream_fd s) w1)"
    "\<And>p. reg p w1 = reg p w" "idle_wiped s \<Longrightarrow> idle_wiped s1" by blast
  have frame: "stream_frame (s1\<lparr>st_want_write := False\<rparr>) = stream_frame (s\<lparr>st_want_write := False\<rparr>)"
    using f(3) by (cases s1; cases s) (simp add: stream_frame_def)
  have "epoll_inv reg L w1" using inv f(5) by (subst loop_inv_cong [of _ L _ w1 w]) (simp_all add: stream_inv_def)
  then have inv1: "stream_inv reg c s1 L w1"
    using inv f(2) frame_eq [OF f(3)] by (simp add: stream_inv_def stream_watched_def)
  show ?thesis
  proof (cases ok)
    case False
    then have "inkwell_stream_flush (epoll_backend h) h s L w = Some (Inl EIO, s1, L, w1)"
      using inv f(1) by (simp add: inkwell_stream_flush_def stream_inv_def)
    then show ?thesis
      by (intro exI [of _ "Inl EIO"] exI [of _ s1] exI [of _ L] exI [of _ w1]) (use inv1 frame f(4,6) in simp)
  next
    case True
    obtain s' L' w' where i: "stream_update_write_interest (epoll_backend h) s1 L w1 = (s', L', w')" by (metis prod_cases3)
    note a = interest_armed [OF inv1 i]
    obtain b where b: "s' = s1\<lparr>st_want_write := b\<rparr>" using a(3) ..
    have "inkwell_stream_flush (epoll_backend h) h s L w = Some (Inr (), s', L', w')"
      using inv f(1) True i by (simp add: inkwell_stream_flush_def stream_inv_def)
    then show ?thesis
      by (intro exI [of _ "Inr ()"] exI [of _ s'] exI [of _ L'] exI [of _ w'])
        (use a(1,2,4) frame f(4,6) b in \<open>simp add: stream_frame_simps\<close>)
  qed
qed

lemma send_spec:
  assumes inv: "stream_inv reg c s L w"
  shows "\<exists>r s' L' w'. inkwell_stream_send (epoll_backend h) h s L data ident w = Some (r, s', L', w') \<and> stream_inv reg c s' L' w'
    \<and> stream_frame (s'\<lparr>st_want_write := False\<rparr>) = stream_frame (s\<lparr>st_want_write := False\<rparr>)
    \<and> (if st_queued s < st_slot_count s \<and> length data \<le> st_slot_bytes s
       then (r = Inr () \<and> stream_armed s' \<or> r = Inl EIO) 
            \<and> drained (stream_queue s @ [(ident, data)]) (out (stream_fd s) w) (stream_queue s') (out (stream_fd s) w') \<and> (idle_wiped s \<longrightarrow> idle_wiped s')
       else (r = Inl ENOSPC \<or> r = Inl EMSGSIZE) \<and> s' = s \<and> L' = L \<and> w' = w)"
proof (cases "st_queued s < st_slot_count s \<and> length data \<le> st_slot_bytes s")
  case False
  then show ?thesis using inv by (auto simp: inkwell_stream_send_def stream_inv_def stream_wf_def)
next
  case True
  let ?p = "queue_push data ident s"
  have wf: "stream_wf s" and op: "inkwell_stream_is_open s" using inv by (auto simp: stream_inv_def)
  have fr: "stream_frame ?p = stream_frame s" by (simp add: stream_frame_def queue_push_def)
  note push = queue_push [OF wf conjunct1 [OF True] conjunct2 [OF True], of ident]
  have inv1: "stream_inv reg c ?p L w"
    using inv push(1) frame_eq [OF fr] by (simp add: stream_inv_def stream_watched_def)
  obtain s1 L1 w1 where i: "stream_update_write_interest (epoll_backend h) ?p L w = (s1, L1, w1)" by (metis prod_cases3)
  note a = interest_armed [OF inv1 i]
  obtain b where b: "s1 = ?p\<lparr>st_want_write := b\<rparr>" using a(3) ..
  from flush_spec [OF a(1)] obtain r s' L' w' where f: "inkwell_stream_flush (epoll_backend h) h s1 L1 w1 = Some (r, s', L', w')"
    "stream_inv reg c s' L' w'" "stream_frame (s'\<lparr>st_want_write := False\<rparr>) = stream_frame (s1\<lparr>st_want_write := False\<rparr>)"
    "drained (stream_queue s1) (out (stream_fd s1) w1) (stream_queue s') (out (stream_fd s1) w')"
    "r = Inr () \<and> stream_armed s' \<or> r = Inl EIO" "idle_wiped s1 \<Longrightarrow> idle_wiped s'" by blast
  have "inkwell_stream_send (epoll_backend h) h s L data ident w = Some (r, s', L', w')"
    using op True i f(1) unfolding queue_push_def ring_def by (auto simp: inkwell_stream_send_def Let_def)
  moreover have "stream_frame (s'\<lparr>st_want_write := False\<rparr>) = stream_frame (s\<lparr>st_want_write := False\<rparr>)"
    using f(3) unfolding b by (simp add: stream_frame_def queue_push_def)
  moreover have "drained (stream_queue s @ [(ident, data)]) (out (stream_fd s) w) (stream_queue s') (out (stream_fd s) w')"
    using f(4) a(4) push(2) frame_eq(6) [OF fr] unfolding b by (simp add: stream_frame_simps)
  moreover have "idle_wiped s \<Longrightarrow> idle_wiped s'"
    using f(6) idle_wiped_push [OF wf conjunct1 [OF True] conjunct2 [OF True], of ident] unfolding b by (simp add: stream_frame_simps)
  ultimately show ?thesis using f(2,5) True
    by (intro exI [of _ r] exI [of _ s'] exI [of _ L'] exI [of _ w']) auto
qed

end

section \<open>Closing\<close>

lemma slot_wipe_simps [simp]:
  "st_slot_count (slot_wipe s k) = st_slot_count s" "st_slot_bytes (slot_wipe s k) = st_slot_bytes s" "st_slots (slot_wipe s k) = st_slots s"
  "st_head (slot_wipe s k) = st_head s" "st_queued (slot_wipe s k) = st_queued s" "st_on_dropped (slot_wipe s k) = st_on_dropped s"
  "ring (slot_wipe s k) = ring s" "stream_frame (slot_wipe s k) = stream_frame s"
  by (simp_all add: slot_wipe_def ring_def [abs_def] stream_frame_def)

lemma slot_wipe_wf: "stream_wf s \<Longrightarrow> k < st_slot_count s \<Longrightarrow> stream_wf (slot_wipe s k)"
proof -
  assume "stream_wf s" "k < st_slot_count s"
  moreover from this have "k * st_slot_bytes s + st_slot_bytes s \<le> st_slot_count s * st_slot_bytes s"
    using mult_le_mono1 [of "Suc k" "st_slot_count s" "st_slot_bytes s"] by simp
  ultimately show ?thesis unfolding stream_wf_def slot_wipe_simps by (simp add: slot_wipe_def)
qed

lemma drop_queue_loop_spec:
  assumes "stream_wf s" "\<forall>i \<in> set is. i < st_queued s" "drop_queue_loop is s = (dropped, s')"
  shows "stream_wf s' \<and> stream_frame s' = stream_frame s \<and> st_queued s' = st_queued s \<and> st_head s' = st_head s
    \<and> dropped = (if st_on_dropped s then filter (\<lambda>x. x \<noteq> 0) (map (\<lambda>i. slot_id (st_slots s ! ring s i)) is) else [])
    \<and> (\<forall>j < st_slot_count s. slot_bytes_at s' j = (if \<exists>i \<in> set is. ring s i = j then replicate (st_slot_bytes s) 0 else slot_bytes_at s j))"
  using assms
proof (induction "is" arbitrary: s dropped s')
  case (Cons i "is")
  let ?w = "slot_wipe s (ring s i)"
  obtain d1 where d: "drop_queue_loop is ?w = (d1, s')"
    "dropped = (if slot_id (st_slots s ! ring s i) \<noteq> 0 \<and> st_on_dropped s then slot_id (st_slots s ! ring s i) # d1 else d1)"
    using Cons.prems(3) by (auto simp: Let_def ring_def [symmetric] split: prod.splits)
  have k: "ring s i < st_slot_count s" using Cons.prems ring_less [of i s i] by simp
  have "stream_wf ?w" "\<forall>i \<in> set is. i < st_queued ?w" using slot_wipe_wf [OF Cons.prems(1) k] Cons.prems(2) by auto
  from Cons.IH [OF this d(1)] show ?case
    using d(2) k slot_wipe_zero [OF k Cons.prems(1)] slot_wipe_other [OF _ _ k Cons.prems(1)] by auto
qed auto

definition stream_zero :: "inkwell_stream \<Rightarrow> bool" where
  "stream_zero s \<longleftrightarrow> (\<forall>j < st_slot_count s. slot_bytes_at s j = replicate (st_slot_bytes s) 0)"

lemma drop_queue_spec:
  assumes "stream_wf s" "stream_drop_queue s = (dropped, s')"
  shows "stream_wf s' \<and> stream_frame s' = stream_frame s \<and> stream_queue s' = [] \<and> st_queued s' = 0
    \<and> dropped = (if st_on_dropped s then filter (\<lambda>x. x \<noteq> 0) (map fst (stream_queue s)) else []) \<and> (idle_wiped s \<longrightarrow> stream_zero s')"
proof -
  obtain s1 where l: "drop_queue_loop [0..<st_queued s] s = (dropped, s1)" "s' = s1\<lparr>st_head := 0, st_queued := 0\<rparr>"
    using assms(2) by (auto simp: stream_drop_queue_def split: prod.splits)
  note d = drop_queue_loop_spec [OF assms(1) _ l(1), simplified]
  have eq: "st_slot_count s1 = st_slot_count s" "st_slot_bytes s1 = st_slot_bytes s" using frame_eq d by blast+
  have ids: "map (\<lambda>i. slot_id (st_slots s ! ring s i)) [0..<st_queued s] = map fst (stream_queue s)"
    by (simp add: stream_queue_def queue_entry_def Let_def)
  have "stream_wf s'" using d unfolding l(2) by (auto simp: stream_wf_def)
  moreover have "stream_frame s' = stream_frame s" using d unfolding l(2) by (cases s1) (simp add: stream_frame_def)
  moreover have "stream_zero s'" if "idle_wiped s"
  proof -
    have "slot_bytes_at s1 j = replicate (st_slot_bytes s) 0" if "j < st_slot_count s" for j
    proof (cases "\<exists>i < st_queued s. ring s i = j")
      case True
      then show ?thesis using d that by auto
    next
      case False
      then show ?thesis using d that \<open>idle_wiped s\<close> by (auto simp: idle_wiped_def)
    qed
    then show ?thesis using eq unfolding l(2) by (simp add: stream_zero_def slot_bytes_at_def)
  qed
  moreover have "stream_queue s' = []" "st_queued s' = 0" unfolding l(2) by (simp_all add: stream_queue_def)
  ultimately show ?thesis using d unfolding ids by blast
qed

context stream_host
begin

lemma close_spec:
  assumes inv: "stream_inv reg c s L w" and eq: "inkwell_stream_close (epoll_backend h) h s L w = (dropped, s', L', w')"
  shows "dropped = (if st_on_dropped s then filter (\<lambda>x. x \<noteq> 0) (map fst (stream_queue s)) else [])"
    "\<not> inkwell_stream_is_open s'" "st_queued s' = 0" "stream_wf s'" "idle_wiped s \<Longrightarrow> stream_zero s'"
    "0 \<le> st_token s \<Longrightarrow> st_has_loop s \<Longrightarrow> registered L' = (registered L)(st_token s := None)"
    "st_slot_count s' = st_slot_count s" "st_slot_bytes s' = st_slot_bytes s"
proof -
  obtain s1 where d: "stream_drop_queue s = (dropped, s1)"
    and s': "s' = s1\<lparr>st_fd := -1, st_socket := socket_invalid, st_token := -1, st_want_write := False\<rparr>"
    and L': "L' = (if st_token s1 \<ge> 0 \<and> st_has_loop s1 then fst (snd (inkwell_loop_remove_fd (epoll_backend h) L (st_token s1) w)) else L)"
  proof -
    obtain dr s1 where ds: "stream_drop_queue s = (dr, s1)" by fastforce
    have "inkwell_stream_is_open s1"
      using inv drop_queue_spec [OF _ ds] frame_eq(5) [of s1 s] by (simp add: stream_inv_def)
    then show thesis using eq ds that by (auto simp: inkwell_stream_close_def Let_def split: prod.splits if_splits)
  qed
  have wf: "stream_wf s" and L: "epoll_inv reg L w" using inv by (auto simp: stream_inv_def)
  note ds = drop_queue_spec [OF wf d]
  note fr = frame_eq [OF conjunct1 [OF conjunct2 [OF ds]]]
  show "dropped = (if st_on_dropped s then filter (\<lambda>x. x \<noteq> 0) (map fst (stream_queue s)) else [])" using ds by blast
  show "\<not> inkwell_stream_is_open s'" unfolding s' by (simp add: inkwell_stream_is_open_def)
  show "st_queued s' = 0" unfolding s' using ds by simp
  show "st_slot_count s' = st_slot_count s" "st_slot_bytes s' = st_slot_bytes s" unfolding s' using fr by simp_all
  show "stream_wf s'" using ds unfolding s' by (simp add: stream_wf_def)
  show "stream_zero s'" if "idle_wiped s" using ds that unfolding s' by (simp add: stream_zero_def slot_bytes_at_def)
  show "registered L' = (registered L)(st_token s := None)" if t: "0 \<le> st_token s" "st_has_loop s"
  proof -
    have "registered L (st_token s) \<noteq> None" using inv t by (simp add: stream_inv_def stream_watched_def)
    then obtain i where i: "find_source_index L (st_token s) = Some i" by (auto simp: registered_iff_find)
    have fd: "src_fd (sources L ! i) = st_token s" using find_source_index_SomeD [OF i] by (simp add: occupies_def)
    have "reg (poll_fd L) w (st_token s) \<noteq> None" using L i by (auto simp: loop_inv_def loop_hears_def)
    then obtain w2 where w2: "h_epoll_ctl h (poll_fd L) EPOLL_CTL_DEL (st_token s) (0, 0) w = (Inr (), w2)"
      using ctl_registered [of _ _ _ EPOLL_CTL_DEL] by blast
    obtain r L1 w1 where u: "inkwell_loop_remove_fd (epoll_backend h) L (st_token s) w = (r, L1, w1)" by (metis prod_cases3)
    then have "r = Inr ()" using i fd w2 by (auto simp: inkwell_loop_remove_fd_def epoll_backend_def)
    then show ?thesis using epoll.remove_fd_step [OF L u] L' t fr u by (simp add: table_step_def)
  qed
qed

end

end
