(* ===== verification/Stream_Session.thy ===== *)
theory Stream_Session
  imports Stream_IO
begin

text \<open>
  A stream from \<open>init\<close> to \<open>close\<close>: the sends and flushes of its owner in any order (\<open>stream_run\<close>), what reaches
  the descriptor, what the owner is told, and what is left in the queue storage; and what one \<open>pump\<close> reads.
  \<open>pipe_host\<close> is a host on which the hypotheses hold, a descriptor that takes a limited number of bytes.
\<close>

section \<open>A sequence of calls\<close>









section \<open>Opening\<close>





section \<open>Reading\<close>

text \<open>
  What a pump relies on: \<open>inp fd w\<close> is what has arrived on a descriptor and was not read. A read takes a prefix of
  it, no longer than asked for.
\<close>

locale stream_source =
  fixes h :: "'w host"
    and inp :: "int \<Rightarrow> 'w \<Rightarrow> bytes"
  assumes read_prefix: "h_read h fd n w = (Inr got, w') \<or> h_recv h fd n w = (Inr got, w') \<Longrightarrow> length got \<le> n \<and> inp fd w = got @ inp fd w'"
    and read_fail: "h_read h fd n w = (Inl e, w') \<or> h_recv h fd n w = (Inl e, w') \<Longrightarrow> inp fd w' = inp fd w"
begin

lemma pump_loop_spec:
  assumes "inkwell_stream_is_open s" "pump_loop h turns n s w = (pieces, r, s', w')"
  shows "\<exists>data. inp (stream_fd s) w = data @ inp (stream_fd s) w' \<and> length data \<le> turns * stream_read_chunk
    \<and> concat pieces = (if st_on_bytes s then data else []) \<and> [] \<notin> set pieces \<and> s' = s\<lparr>st_received := st_received s + length data\<rparr>
    \<and> (r = Inr (n + length data) \<or> r = Inl ENOTCONN \<or> r = Inl EIO)"
  using assms
proof (induction turns arbitrary: n s w pieces)
  case 0
  then show ?case by simp
next
  case (Suc turns)
  let ?call = "if st_kind s = STREAM_SOCKET then h_recv h (stream_fd s) stream_read_chunk w else h_read h (stream_fd s) stream_read_chunk w"
  have "(if st_kind s = STREAM_SOCKET then inkwell_socket_recv h (st_socket s) stream_read_chunk w
            else inkwell_fd_read h (st_fd s) stream_read_chunk w) = ?call"
    using Suc.prems(1) by (simp add: inkwell_socket_recv_def inkwell_fd_read_def inkwell_stream_is_open_def stream_fd_def stream_read_chunk_def
        int_max_def split: if_splits)
  then have loop: "pump_loop h (Suc turns) n s w = (case ?call of
        (Inr got, w) \<Rightarrow>
          if got = [] then ([], Inl ENOTCONN, s, w)
          else (case pump_loop h turns (n + length got) (s\<lparr>st_received := st_received s + length got\<rparr>) w of
                  (pieces, r) \<Rightarrow> (if st_on_bytes s then got # pieces else pieces, r))
      | (Inl e, w) \<Rightarrow>
          if e = EAGAIN then ([], Inr n, s, w) else if e = EINTR then pump_loop h turns n s w else ([], Inl EIO, s, w))" by simp
  obtain v w1 where v: "?call = (v, w1)" by fastforce
  then have or: "h_read h (stream_fd s) stream_read_chunk w = (v, w1) \<or> h_recv h (stream_fd s) stream_read_chunk w = (v, w1)"
    by (simp split: if_splits)
  show ?case
  proof (cases v)
    case (Inl e)
    note f = read_fail [OF or [unfolded Inl]]
    show ?thesis
    proof (cases "e = EINTR")
      case True
      then have "pump_loop h turns n s w1 = (pieces, r, s', w')" using Suc.prems(2) loop v Inl by simp
      from Suc.IH [OF Suc.prems(1) this] obtain data where d: "inp (stream_fd s) w1 = data @ inp (stream_fd s) w'"
        "length data \<le> turns * stream_read_chunk" "concat pieces = (if st_on_bytes s then data else [])" "[] \<notin> set pieces"
        "s' = s\<lparr>st_received := st_received s + length data\<rparr>" "r = Inr (n + length data) \<or> r = Inl ENOTCONN \<or> r = Inl EIO" by blast
      show ?thesis by (rule exI [of _ data]) (use d f in simp)
    next
      case False
      have "pump_loop h (Suc turns) n s w = ([], if e = EAGAIN then Inr n else Inl EIO, s, w1)" unfolding loop v Inl using False by simp
      then have "pieces = []" "r = (if e = EAGAIN then Inr n else Inl EIO)" "s' = s" "w' = w1" unfolding Suc.prems(2) by simp_all
      then show ?thesis by (intro exI [of _ "[]"]) (simp add: f)
    qed
  next
    case (Inr got)
    note f = read_prefix [OF or [unfolded Inr]]
    let ?s = "s\<lparr>st_received := st_received s + length got\<rparr>"
    show ?thesis
    proof (cases "got = []")
      case True
      then show ?thesis using Suc.prems(2) loop v Inr f by auto
    next
      case False
      then obtain ps where p: "pump_loop h turns (n + length got) ?s w1 = (ps, r, s', w')" "pieces = (if st_on_bytes s then got # ps else ps)"
        using Suc.prems(2) loop v Inr by (auto split: prod.splits)
      have "inkwell_stream_is_open ?s" "stream_fd ?s = stream_fd s" "st_on_bytes ?s = st_on_bytes s"
        using Suc.prems(1) by (simp_all add: inkwell_stream_is_open_def stream_fd_def)
      with Suc.IH [OF _ p(1)] obtain data where d: "inp (stream_fd s) w1 = data @ inp (stream_fd s) w'" "length data \<le> turns * stream_read_chunk"
        "concat ps = (if st_on_bytes s then data else [])" "[] \<notin> set ps" "s' = ?s\<lparr>st_received := st_received ?s + length data\<rparr>"
        "r = Inr (n + length got + length data) \<or> r = Inl ENOTCONN \<or> r = Inl EIO" by (simp only:) blast
      show ?thesis by (rule exI [of _ "got @ data"]) (use d f p(2) False in \<open>simp add: add.assoc\<close>)
    qed
  qed
qed

end

section \<open>A reference descriptor\<close>

text \<open>A world with one kernel: the registrations, what was written to each descriptor and how many bytes are still taken, and what
  is there to read.\<close>

record pipe_world =
  pw_reg :: "int \<Rightarrow> int \<Rightarrow> (u32 \<times> nat) option"
  pw_out :: "int \<Rightarrow> bytes"
  pw_room :: nat
  pw_in :: "int \<Rightarrow> bytes"

definition pipe_ctl :: "int \<Rightarrow> epoll_op \<Rightarrow> int \<Rightarrow> u32 \<times> nat \<Rightarrow> pipe_world \<Rightarrow> (errno + unit) \<times> pipe_world" where
  "pipe_ctl p op fd ev w =
     (case op of
        EPOLL_CTL_ADD \<Rightarrow> if pw_reg w p fd \<noteq> None then (Inl EEXIST, w) else (Inr (), w\<lparr>pw_reg := (pw_reg w)(p := (pw_reg w p)(fd \<mapsto> ev))\<rparr>)
      | EPOLL_CTL_MOD \<Rightarrow> if pw_reg w p fd = None then (Inl ENOENT, w) else (Inr (), w\<lparr>pw_reg := (pw_reg w)(p := (pw_reg w p)(fd \<mapsto> ev))\<rparr>)
      | EPOLL_CTL_DEL \<Rightarrow> if pw_reg w p fd = None then (Inl ENOENT, w) else (Inr (), w\<lparr>pw_reg := (pw_reg w)(p := (pw_reg w p)(fd := None))\<rparr>))"

definition pipe_write :: "int \<Rightarrow> bytes \<Rightarrow> pipe_world \<Rightarrow> (errno + nat) \<times> pipe_world" where
  "pipe_write fd data w =
     (if pw_room w = 0 then (Inl EAGAIN, w)
      else let n = min (pw_room w) (length data)
           in (Inr n, w\<lparr>pw_out := (pw_out w)(fd := pw_out w fd @ take n data), pw_room := pw_room w - n\<rparr>))"

definition pipe_read :: "int \<Rightarrow> nat \<Rightarrow> pipe_world \<Rightarrow> (errno + bytes) \<times> pipe_world" where
  "pipe_read fd n w =
     (if pw_in w fd = [] then (Inl EAGAIN, w) else (Inr (take n (pw_in w fd)), w\<lparr>pw_in := (pw_in w)(fd := drop n (pw_in w fd))\<rparr>))"

definition pipe_host :: "pipe_world host" where
  "pipe_host = \<lparr>
     h_now = (\<lambda>w. (0, w)), h_read = pipe_read, h_write = pipe_write, h_recv = pipe_read, h_send = pipe_write,
     h_close = (\<lambda>fd w. (Inr (), w)), h_eventfd = (\<lambda>w. (Inr 4, w)),
     h_epoll_create = (\<lambda>w. (Inr 3, w\<lparr>pw_reg := (pw_reg w)(3 := (\<lambda>_. None))\<rparr>)),
     h_epoll_ctl = pipe_ctl, h_epoll_wait = (\<lambda>p n ms w. (Inr [], w)),
     h_kqueue = (\<lambda>w. (Inl ENOSYS, w)), h_kevent_change = (\<lambda>p fd d a i w. (Inl ENOSYS, w)), h_kevent_wait = (\<lambda>p n t w. (Inl ENOSYS, w))\<rparr>"


interpretation pipe_in: stream_source pipe_host "\<lambda>fd w. pw_in w fd"
  by unfold_locales (auto simp: pipe_host_def pipe_read_def split: if_splits)

section \<open>Properties\<close>





text \<open>
  C11. A pump hands over what arrived, in order and no more than a turn's worth. Whatever the outcome, what it read from the
  descriptor is the beginning of what was there, at most eight times 1024 bytes, all of it went to the sink where there is one and
  was counted, no piece is empty, and nothing else of the stream changed; the answer is the number of bytes, or one of the two errors.
\<close>

theorem stream_pump_delivers:
  assumes src: "stream_source h inp" and op: "inkwell_stream_is_open s" and pump: "inkwell_stream_pump h s w = (pieces, r, s', w')"
  shows "\<exists>data. inp (stream_fd s) w = data @ inp (stream_fd s) w' \<and> length data \<le> 8 * 1024
    \<and> concat pieces = (if st_on_bytes s then data else []) \<and> [] \<notin> set pieces \<and> s' = s\<lparr>st_received := st_received s + length data\<rparr>
    \<and> (r = Inr (length data) \<or> r = Inl ENOTCONN \<or> r = Inl EIO)"
  using stream_source.pump_loop_spec [OF src op, of stream_reads_per_turn 0 w pieces r s' w'] pump op
  by (simp add: inkwell_stream_pump_def stream_reads_per_turn_def stream_read_chunk_def)

section \<open>Witnesses\<close>

definition pipe_start :: pipe_world where
  "pipe_start = \<lparr>pw_reg = (\<lambda>_ _. None), pw_out = (\<lambda>_. []), pw_room = 3, pw_in = (\<lambda>_. [0x68, 0x69])\<rparr>"












theorem stream_pump_delivers_witness:
  "let s = (inkwell_stream_init None 0 0)\<lparr>st_fd := 7, st_on_bytes := True\<rparr> in
   inkwell_stream_pump pipe_host s pipe_start = ([[0x68, 0x69]], Inr 2, s\<lparr>st_received := 2\<rparr>, pipe_start\<lparr>pw_in := (pw_in pipe_start)(7 := [])\<rparr>)
   \<and> (\<exists>data. pw_in pipe_start 7 = data \<and> length data \<le> 8 * 1024 \<and> concat [[0x68, 0x69]] = data)"
proof -
  let ?s = "(inkwell_stream_init None 0 0)\<lparr>st_fd := 7, st_on_bytes := True\<rparr>"
  have op: "inkwell_stream_is_open ?s" "stream_fd ?s = 7" by (simp_all add: inkwell_stream_is_open_def stream_fd_def inkwell_stream_init_def)
  have pump: "inkwell_stream_pump pipe_host ?s pipe_start
      = ([[0x68, 0x69]], Inr 2, ?s\<lparr>st_received := 2\<rparr>, pipe_start\<lparr>pw_in := (pw_in pipe_start)(7 := [])\<rparr>)"
  proof -
    have turns: "stream_reads_per_turn = Suc (Suc 6)" by (simp add: stream_reads_per_turn_def)
    show ?thesis
      unfolding inkwell_stream_pump_def turns pump_loop.simps
      by (simp add: inkwell_stream_is_open_def inkwell_stream_init_def stream_read_chunk_def
          inkwell_fd_read_def int_max_def pipe_host_def pipe_read_def pipe_start_def)
  qed
  from stream_pump_delivers [OF pipe_in.stream_source_axioms op(1) pump] pump op(2) show ?thesis by auto
qed

end
