(* ===== verification/Record_File.thy ===== *)
theory Record_File
  imports Inkwell_Prelude
begin

text \<open>
  Line-record files (\<open>src/base/record_file.c\<close>): the reader, the escaping of values, and the replacement of a file.
  A stream that is read is the list of the bytes it still delivers; \<open>fgets\<close> and \<open>fgetc\<close> are written out, and
  whether a read error ended the stream is an argument. What the visitor is called with is the result of the
  reader, in order, with the C string the value pointer points at. The properties: a file written record by
  record reads back as its records, whatever was left behind by an append that was cut off; and a replacement
  leaves the old contents or the whole of the new ones.
\<close>

section \<open>Escaping\<close>

definition hex_digits :: bytes where
  "hex_digits = ascii ''0123456789abcdef''"

definition escape_byte :: "u8 \<Rightarrow> bytes" where
  "escape_byte c =
     (if c < 0x20 \<or> c = asc (CHR 0x5C) \<or> c = asc (CHR ''='')
      then [asc (CHR 0x5C), asc (CHR ''x''), hex_digits ! (unat c div 16), hex_digits ! (unat c mod 16)]
      else [c])"

definition inkwell_record_write_escaped :: "bytes \<Rightarrow> bytes" where
  "inkwell_record_write_escaped v = concat (map escape_byte v)"

definition xdigit :: "u8 \<Rightarrow> nat option" where
  "xdigit c =
     (if asc (CHR ''0'') \<le> c \<and> c \<le> asc (CHR ''9'') then Some (unat (c - asc (CHR ''0'')))
      else if asc (CHR ''a'') \<le> c \<and> c \<le> asc (CHR ''f'') then Some (unat (c - asc (CHR ''a'')) + 10)
      else if asc (CHR ''A'') \<le> c \<and> c \<le> asc (CHR ''F'') then Some (unat (c - asc (CHR ''A'')) + 10)
      else None)"

text \<open>\<open>(char)strtol(hex, NULL, 16)\<close> on a text of two characters.\<close>

definition strtol_pair :: "u8 \<Rightarrow> u8 \<Rightarrow> u8" where
  "strtol_pair h l =
     (let low = (case xdigit l of None \<Rightarrow> 0 | Some n \<Rightarrow> of_nat n) in
      case xdigit h of
        Some n \<Rightarrow> (case xdigit l of None \<Rightarrow> of_nat n | Some m \<Rightarrow> of_nat (16 * n + m))
      | None \<Rightarrow> if isspace h \<or> h = asc (CHR ''+'') then low else if h = asc (CHR ''-'') then - low else 0)"

fun unescape_loop :: "bytes \<Rightarrow> bytes" where
  "unescape_loop [] = []"
| "unescape_loop (c # t) =
     (if c = asc (CHR 0x5C) then
        (case t of
           x # h # l # t' \<Rightarrow> if x = asc (CHR ''x'') then strtol_pair h l # unescape_loop t' else unescape_loop t
         | _ \<Rightarrow> unescape_loop t)
      else c # unescape_loop t)"

text \<open>The C string the buffer holds afterwards.\<close>

definition inkwell_record_unescape :: "bytes \<Rightarrow> bytes" where
  "inkwell_record_unescape v = takeWhile (\<lambda>c. c \<noteq> NUL) (unescape_loop v)"

section \<open>Reading\<close>

text \<open>What \<open>fgets\<close> puts in a buffer with room for \<open>n\<close> characters, and the rest of the stream.\<close>

fun fgets :: "nat \<Rightarrow> bytes \<Rightarrow> bytes \<times> bytes" where
  "fgets 0 s = ([], s)"
| "fgets (Suc n) [] = ([], [])"
| "fgets (Suc n) (c # s) = (if c = LF then ([c], s) else case fgets n s of (line, s') \<Rightarrow> (c # line, s'))"

definition skip_line :: "bytes \<Rightarrow> bytes" where
  "skip_line s = drop 1 (dropWhile (\<lambda>c. c \<noteq> LF) s)"

text \<open>Whether the line in the buffer is complete, and the stream after the rest of it has been passed over.\<close>

definition record_finish_line :: "nat \<Rightarrow> bytes \<Rightarrow> bytes \<Rightarrow> bool \<times> bytes" where
  "record_finish_line cap line s =
     (let len = length line;
          complete = (len > 0 \<and> last line = LF)
      in if \<not> complete \<and> len = cap - 1 then
           (case s of
              [] \<Rightarrow> (False, [])
            | c # s' \<Rightarrow> if c = LF then (True, s') else (False, skip_line s'))
         else (complete, s))"

text \<open>The key and the value of a complete line, if the visitor is called for it.\<close>

definition record_of_line :: "bytes \<Rightarrow> (bytes \<times> bytes) option" where
  "record_of_line line =
     (let line = takeWhile (\<lambda>c. c \<noteq> CR \<and> c \<noteq> LF) line in
      if line = [] \<or> hd line = asc (CHR ''#'') then None
      else let key = takeWhile (\<lambda>c. c \<noteq> asc (CHR ''='')) line in
        if length key = length line then None
        else Some (key, inkwell_record_unescape (drop (length key + 1) line)))"

lemma fgets_length: "fgets n s = (line, s') \<Longrightarrow> length line + length s' = length s"
  by (induction n s arbitrary: line s' rule: fgets.induct) (auto split: if_splits prod.splits)

lemma skip_line_length: "length (skip_line s) \<le> length s"
  unfolding skip_line_def length_drop by (rule le_trans [OF diff_le_self length_dropWhile_le])

lemma record_finish_line_length: "record_finish_line cap line s = (complete, s') \<Longrightarrow> length s' \<le> length s"
  using skip_line_length [of "tl s"]
  by (auto simp: record_finish_line_def Let_def split: if_splits list.splits)

lemma record_line_less:
  "fgets n s = (line, s1) \<Longrightarrow> line \<noteq> [] \<Longrightarrow> record_finish_line cap l s1 = (complete, s2) \<Longrightarrow> length s2 < length s"
  using fgets_length [of n s line s1] record_finish_line_length [of cap l s1 complete s2] by (cases line) auto

function record_read_loop :: "nat \<Rightarrow> bytes \<Rightarrow> (bytes \<times> bytes) list" where
  "record_read_loop cap s =
     (case fgets (cap - 1) s of (line, s1) \<Rightarrow>
        if line = [] then []
        else case record_finish_line cap (takeWhile (\<lambda>c. c \<noteq> NUL) line) s1 of (complete, s2) \<Rightarrow>
          (case (if complete then record_of_line (takeWhile (\<lambda>c. c \<noteq> NUL) line) else None) of None \<Rightarrow> [] | Some r \<Rightarrow> [r])
            @ record_read_loop cap s2)"
  by auto
termination by (relation "measure (\<lambda>(_, s). length s)") (auto dest!: sym [of "(_, _)"] intro: record_line_less)

declare record_read_loop.simps [simp del]

definition inkwell_record_read :: "bytes option \<Rightarrow> bool \<Rightarrow> nat \<Rightarrow> (errno + unit) \<times> (bytes \<times> bytes) list" where
  "inkwell_record_read stream failed cap =
     (case stream of
        None \<Rightarrow> (Inl EINVAL, [])
      | Some s \<Rightarrow>
          if cap < 2 \<or> 2147483647 < cap then (Inl EINVAL, [])
          else (if failed then Inl EIO else Inr (), record_read_loop cap s))"

section \<open>Replacing a file\<close>

text \<open>
  The calls on files: \<open>fopen\<close> for writing (or appending), what the caller's writer does to the stream (whether
  \<open>ferror\<close> is set after it), \<open>fflush\<close>, \<open>fsync\<close>, \<open>fclose\<close>, \<open>rename\<close>, \<open>remove\<close>, and for the directory \<open>strdup\<close>,
  \<open>open\<close> and \<open>close\<close>.
\<close>

record 'w file_host =
  f_open :: "bytes \<Rightarrow> bool \<Rightarrow> 'w \<Rightarrow> (errno + int) \<times> 'w"
  f_write :: "int \<Rightarrow> bytes \<Rightarrow> 'w \<Rightarrow> bool \<times> 'w"
  f_flush :: "int \<Rightarrow> 'w \<Rightarrow> (errno + unit) \<times> 'w"
  f_sync :: "int \<Rightarrow> 'w \<Rightarrow> (errno + unit) \<times> 'w"
  f_close :: "int \<Rightarrow> 'w \<Rightarrow> (errno + unit) \<times> 'w"
  f_rename :: "bytes \<Rightarrow> bytes \<Rightarrow> 'w \<Rightarrow> (errno + unit) \<times> 'w"
  f_remove :: "bytes \<Rightarrow> 'w \<Rightarrow> 'w"
  f_strdup :: "bytes \<Rightarrow> 'w \<Rightarrow> bool \<times> 'w"
  f_open_dir :: "bytes \<Rightarrow> 'w \<Rightarrow> (errno + int) \<times> 'w"
  f_close_dir :: "int \<Rightarrow> 'w \<Rightarrow> (errno + unit) \<times> 'w"

definition parent_directory :: "bytes \<Rightarrow> bytes" where
  "parent_directory path =
     (if asc (CHR ''/'') \<notin> set path then ascii ''.''
      else let before = rev (drop 1 (dropWhile (\<lambda>c. c \<noteq> asc (CHR ''/'')) (rev path))) in
        if before = [] then ascii ''/'' else before)"

definition inkwell_platform_parent_sync :: "'w file_host \<Rightarrow> bytes \<Rightarrow> 'w \<Rightarrow> (errno + unit) \<times> 'w" where
  "inkwell_platform_parent_sync f path w =
     (case f_strdup f path w of
        (False, w) \<Rightarrow> (Inl ENOMEM, w)
      | (True, w) \<Rightarrow>
          (case f_open_dir f (parent_directory path) w of
             (Inl e, w) \<Rightarrow> (Inl e, w)
           | (Inr fd, w) \<Rightarrow>
               let (synced, w) = f_sync f fd w;
                   (closed, w) = f_close_dir f fd w
               in (if isl synced then synced else closed, w)))"

text \<open>A step that is only taken while nothing has failed.\<close>

definition record_then :: "errno + unit \<Rightarrow> bool \<Rightarrow> ('w \<Rightarrow> (errno + unit) \<times> 'w) \<Rightarrow> 'w \<Rightarrow> (errno + unit) \<times> 'w" where
  "record_then result wanted step w = (if \<not> isl result \<and> wanted then step w else (result, w))"

definition inkwell_record_replace :: "'w file_host \<Rightarrow> bytes option \<Rightarrow> nat \<Rightarrow> bytes \<Rightarrow> bool \<Rightarrow> 'w \<Rightarrow> (errno + unit) \<times> 'w" where
  "inkwell_record_replace f path temp_capacity records sync_data w =
     (case path of
        None \<Rightarrow> (Inl EINVAL, w)
      | Some path \<Rightarrow>
          if path = [] \<or> temp_capacity = 0 then (Inl EINVAL, w)
          else let temp = path @ ascii ''.tmp'' in
            if temp_capacity \<le> length temp then (Inl ENAMETOOLONG, w)
            else case f_open f temp False w of
              (Inl e, w) \<Rightarrow> (Inl e, w)
            | (Inr fd, w) \<Rightarrow>
                let (ferror, w) = f_write f fd records w;
                    (r1, w) = record_then (if ferror then Inl EIO else Inr ()) sync_data (f_flush f fd) w;
                    (r2, w) = record_then r1 sync_data (f_sync f fd) w;
                    (closed, w) = f_close f fd w;
                    (r3, w) = record_then (if isl r2 then r2 else closed) True (f_rename f temp path) w
                in if isl r3 then (r3, f_remove f temp w)
                   else if sync_data then inkwell_platform_parent_sync f path w else (Inr (), w))"

definition inkwell_record_append :: "'w file_host \<Rightarrow> bytes option \<Rightarrow> bytes \<Rightarrow> 'w \<Rightarrow> (errno + unit) \<times> 'w" where
  "inkwell_record_append f path records w =
     (case path of
        None \<Rightarrow> (Inl EINVAL, w)
      | Some path \<Rightarrow>
          if path = [] then (Inl EINVAL, w)
          else case f_open f path True w of
            (Inl e, w) \<Rightarrow> (Inl e, w)
          | (Inr fd, w) \<Rightarrow>
              let (ferror, w) = f_write f fd records w;
                  (closed, w) = f_close f fd w
              in (if ferror then Inl EIO else closed, w))"

section \<open>Values round-trip\<close>

lemma xdigit_hex: "n < 16 \<Longrightarrow> xdigit (hex_digits ! n) = Some n"
proof -
  assume "n < 16"
  then have "n \<in> set [0..<16]" by simp
  moreover have "list_all (\<lambda>n. xdigit (hex_digits ! n) = Some n) [0..<16]" by code_simp
  ultimately show ?thesis by (simp only: list_all_iff)
qed

lemma strtol_hex: "strtol_pair (hex_digits ! (unat c div 16)) (hex_digits ! (unat c mod 16)) = c"
proof -
  have "unat c div 16 < 16" "unat c mod 16 < 16" using unat_u8_lt [of c] by (simp_all add: less_mult_imp_div_less)
  note xdigit_hex [OF this(1)] xdigit_hex [OF this(2)]
  then show ?thesis by (simp add: strtol_pair_def Let_def mult.commute [of 16])
qed

lemma unescape_escape_byte: "unescape_loop (escape_byte c @ t) = c # unescape_loop t"
  using strtol_hex [of c] by (simp add: escape_byte_def)

lemma unescape_escape: "unescape_loop (inkwell_record_write_escaped v) = v"
  by (induction v) (simp_all add: inkwell_record_write_escaped_def unescape_escape_byte)

lemma hex_digits_plain: "n < 16 \<Longrightarrow> 0x20 \<le> hex_digits ! n \<and> hex_digits ! n \<noteq> asc (CHR ''='')"
proof -
  assume "n < 16"
  then have "n \<in> set [0..<16]" by simp
  moreover have "list_all (\<lambda>n. 0x20 \<le> hex_digits ! n \<and> hex_digits ! n \<noteq> asc (CHR ''='')) [0..<16]" by code_simp
  ultimately show ?thesis unfolding list_all_iff by blast
qed

lemma escaped_plain: "c \<in> set (inkwell_record_write_escaped v) \<Longrightarrow> 0x20 \<le> c \<and> c \<noteq> asc (CHR ''='')"
proof -
  assume "c \<in> set (inkwell_record_write_escaped v)"
  then obtain x where x: "c \<in> set (escape_byte x)" by (auto simp: inkwell_record_write_escaped_def)
  have "unat x div 16 < 16" "unat x mod 16 < 16" using unat_u8_lt [of x] by (simp_all add: less_mult_imp_div_less)
  note hex_digits_plain [OF this(1)] hex_digits_plain [OF this(2)]
  with x show ?thesis by (auto simp: escape_byte_def split: if_splits)
qed

lemma escaped_clean:
  "NUL \<notin> set (inkwell_record_write_escaped v)" "LF \<notin> set (inkwell_record_write_escaped v)" "CR \<notin> set (inkwell_record_write_escaped v)"
  using escaped_plain [of NUL v] escaped_plain [of LF v] escaped_plain [of CR v] by (auto simp: word_le_nat_alt)

section \<open>Lines\<close>

lemma fgets_split: "LF \<notin> set l \<Longrightarrow>
  fgets n (l @ s) = (if length l < n then (case fgets (n - length l) s of (line, s') \<Rightarrow> (l @ line, s')) else (take n l, drop n l @ s))"
proof (induction l arbitrary: n)
  case Nil
  then show ?case by (cases n) (auto split: prod.split)
next
  case (Cons c l)
  then show ?case by (cases n) (auto split: prod.split)
qed

lemma record_of_line_LF: "LF \<notin> set l \<Longrightarrow> record_of_line (l @ [LF]) = record_of_line l"
proof -
  assume "LF \<notin> set l"
  then have "takeWhile (\<lambda>c. c \<noteq> CR \<and> c \<noteq> LF) (l @ [LF]) = takeWhile (\<lambda>c. c \<noteq> CR \<and> c \<noteq> LF) l"
    by (induction l) auto
  then show ?thesis by (simp only: record_of_line_def)
qed

definition line_records :: "nat \<Rightarrow> bytes \<Rightarrow> (bytes \<times> bytes) list" where
  "line_records cap l = (if length l < cap then case record_of_line l of None \<Rightarrow> [] | Some r \<Rightarrow> [r] else [])"

lemma skip_line_LF: "LF \<notin> set l \<Longrightarrow> skip_line (l @ LF # s) = s"
  by (induction l) (simp_all add: skip_line_def)

lemma takeWhile_no_NUL: "NUL \<notin> set l \<Longrightarrow> takeWhile (\<lambda>c. c \<noteq> NUL) l = l"
  by (auto simp: takeWhile_eq_all_conv)

lemma last_not_LF: "LF \<notin> set l \<Longrightarrow> l \<noteq> [] \<Longrightarrow> last l \<noteq> LF"
  using last_in_set [of l] by metis

lemma record_read_step:
  assumes "fgets (cap - 1) s = (line, s1)" "line \<noteq> []" "NUL \<notin> set line" "record_finish_line cap line s1 = (complete, s2)"
  shows "record_read_loop cap s = (case (if complete then record_of_line line else None) of None \<Rightarrow> [] | Some r \<Rightarrow> [r]) @ record_read_loop cap s2"
  using assms(2) by (subst record_read_loop.simps) (simp only: assms(1,4) takeWhile_no_NUL [OF assms(3)] prod.case if_False)

text \<open>One line of the file, whatever its length.\<close>

lemma record_read_line:
  assumes "2 \<le> cap" "LF \<notin> set l" "NUL \<notin> set l"
  shows "record_read_loop cap (l @ LF # s) = line_records cap l @ record_read_loop cap s"
proof -
  consider "length l < cap - 1" | "length l = cap - 1" | "cap - 1 < length l" by linarith
  then show ?thesis
  proof cases
    case 1
    then obtain k where k: "cap - 1 - length l = Suc k" by (cases "cap - 1 - length l") auto
    have "fgets (cap - 1) (l @ LF # s) = (l @ [LF], s)" unfolding fgets_split [OF assms(2)] k using 1 by simp
    moreover have "record_finish_line cap (l @ [LF]) s = (True, s)" by (simp add: record_finish_line_def)
    moreover have "NUL \<notin> set (l @ [LF])" using assms(3) by simp
    ultimately have "record_read_loop cap (l @ LF # s) = (case record_of_line l of None \<Rightarrow> [] | Some r \<Rightarrow> [r]) @ record_read_loop cap s"
      using record_read_step [of cap "l @ LF # s" "l @ [LF]" s True s] record_of_line_LF [OF assms(2)] by simp
    moreover have "length l < cap" using 1 by simp
    ultimately show ?thesis by (simp add: line_records_def)
  next
    case 2
    then have "l \<noteq> []" using assms(1) by auto
    have "fgets (cap - 1) (l @ LF # s) = (l, LF # s)" unfolding fgets_split [OF assms(2)] using 2 by simp
    moreover have "record_finish_line cap l (LF # s) = (True, s)"
      using 2 last_not_LF [OF assms(2) \<open>l \<noteq> []\<close>] by (simp add: record_finish_line_def Let_def)
    ultimately have "record_read_loop cap (l @ LF # s) = (case record_of_line l of None \<Rightarrow> [] | Some r \<Rightarrow> [r]) @ record_read_loop cap s"
      using record_read_step [of cap "l @ LF # s" l "LF # s" True s] assms(3) \<open>l \<noteq> []\<close> by simp
    moreover have "length l < cap" using 2 assms(1) by simp
    ultimately show ?thesis by (simp add: line_records_def)
  next
    case 3
    let ?b = "take (cap - 1) l"
    obtain c r where d: "drop (cap - 1) l = c # r" using 3 by (cases "drop (cap - 1) l") auto
    have "set ?b \<subseteq> set l" "set (drop (cap - 1) l) \<subseteq> set l" by (rule set_take_subset, rule set_drop_subset)
    then have "c \<noteq> LF" "LF \<notin> set r" "NUL \<notin> set ?b" "LF \<notin> set ?b" using assms d by auto
    have "?b \<noteq> []" "length ?b = cap - 1" using 3 assms(1) by (auto simp: min_def)
    have "fgets (cap - 1) (l @ LF # s) = (?b, (c # r) @ LF # s)" unfolding fgets_split [OF assms(2)] d using 3 by simp
    moreover have "record_finish_line cap ?b ((c # r) @ LF # s) = (False, s)"
      using \<open>length ?b = cap - 1\<close> last_not_LF [OF \<open>LF \<notin> set ?b\<close> \<open>?b \<noteq> []\<close>] \<open>c \<noteq> LF\<close> skip_line_LF [OF \<open>LF \<notin> set r\<close>, of s]
      by (simp add: record_finish_line_def Let_def)
    ultimately have "record_read_loop cap (l @ LF # s) = record_read_loop cap s"
      using record_read_step [of cap "l @ LF # s" ?b "(c # r) @ LF # s" False s] \<open>NUL \<notin> set ?b\<close> \<open>?b \<noteq> []\<close> by simp
    moreover have "\<not> length l < cap" using 3 by simp
    ultimately show ?thesis by (simp add: line_records_def)
  qed
qed

text \<open>Bytes with no line end after them make no record.\<close>

lemma record_read_cut:
  assumes "LF \<notin> set l"
  shows "record_read_loop cap l = []"
  using assms
proof (induction "length l" arbitrary: l rule: less_induct)
  case less
  have f: "fgets (cap - 1) l = (take (cap - 1) l, drop (cap - 1) l)"
    using fgets_split [OF less.prems, of "cap - 1" "[]"] by (cases "cap - 1 - length l") auto
  obtain complete s2 where q: "record_finish_line cap (takeWhile (\<lambda>c. c \<noteq> NUL) (take (cap - 1) l)) (drop (cap - 1) l) = (complete, s2)"
    by (metis surj_pair)
  have sub: "LF \<notin> set (drop (cap - 1) l)" "LF \<notin> set (takeWhile (\<lambda>c. c \<noteq> NUL) (take (cap - 1) l))"
    using less.prems by (auto dest: in_set_dropD in_set_takeD set_takeWhileD)
  have skip: "LF \<notin> set t \<Longrightarrow> skip_line t = []" for t by (induction t) (simp_all add: skip_line_def)
  have "\<not> complete" "LF \<notin> set s2"
    using q sub last_not_LF [OF sub(2)] skip
    by (auto simp: record_finish_line_def Let_def split: if_splits list.splits)
  show ?case
  proof (cases "take (cap - 1) l = []")
    case False
    have "record_read_loop cap s2 = []"
      by (rule less.hyps [OF record_line_less [OF f False q] \<open>LF \<notin> set s2\<close>])
    then show ?thesis using f q \<open>\<not> complete\<close> by (subst record_read_loop.simps) simp
  qed (use f in \<open>subst record_read_loop.simps, simp\<close>)
qed

section \<open>Files of records\<close>

fun complete_lines :: "bytes \<Rightarrow> bytes \<Rightarrow> bytes list" where
  "complete_lines l [] = []"
| "complete_lines l (c # s) = (if c = LF then l # complete_lines [] s else complete_lines (l @ [c]) s)"

lemma record_read_lines:
  assumes "2 \<le> cap"
  shows "NUL \<notin> set (l @ s) \<Longrightarrow> LF \<notin> set l \<Longrightarrow>
    record_read_loop cap (l @ s) = concat (map (line_records cap) (complete_lines l s))"
proof (induction l s rule: complete_lines.induct)
  case (1 l)
  then show ?case by (simp add: record_read_cut)
next
  case (2 l c s)
  show ?case
  proof (cases "c = LF")
    case True
    then show ?thesis using 2(1) [OF True] 2(3,4) record_read_line [OF assms, of l s] by simp
  next
    case False
    then show ?thesis using 2(2) [OF False] 2(3,4) by simp
  qed
qed

definition record_line :: "bytes \<times> bytes \<Rightarrow> bytes" where
  "record_line = (\<lambda>(key, v). key @ asc (CHR ''='') # inkwell_record_write_escaped v)"

text \<open>A key the caller may use, with a value, in a line that fits the reader's buffer.\<close>

definition wf_record :: "nat \<Rightarrow> bytes \<times> bytes \<Rightarrow> bool" where
  "wf_record cap = (\<lambda>(key, v). list_all (\<lambda>c. c \<notin> {NUL, LF, CR, asc (CHR ''='')}) key
     \<and> (key = [] \<or> hd key \<noteq> asc (CHR ''#'')) \<and> NUL \<notin> set v \<and> length (record_line (key, v)) < cap)"

lemma record_line_clean:
  assumes "wf_record cap r"
  shows "NUL \<notin> set (record_line r)" "LF \<notin> set (record_line r)" "CR \<notin> set (record_line r)"
proof -
  obtain key v where r: "r = (key, v)" by (cases r)
  have "\<forall>c \<in> set key. c \<noteq> NUL \<and> c \<noteq> LF \<and> c \<noteq> CR" using assms by (simp add: r wf_record_def list_all_iff)
  then show "NUL \<notin> set (record_line r)" "LF \<notin> set (record_line r)" "CR \<notin> set (record_line r)"
    using escaped_clean [of v] by (auto simp: r record_line_def)
qed

lemma record_of_record_line:
  assumes "wf_record cap r"
  shows "line_records cap (record_line r) = [r]"
proof -
  obtain key v where r: "r = (key, v)" by (cases r)
  have clean: "takeWhile (\<lambda>c. c \<noteq> CR \<and> c \<noteq> LF) (record_line r) = record_line r"
    using record_line_clean [OF assms] by (auto simp: takeWhile_eq_all_conv)
  have key: "takeWhile (\<lambda>c. c \<noteq> asc (CHR ''='')) (record_line r) = key"
    using assms unfolding r record_line_def by (auto simp: wf_record_def list_all_iff intro!: takeWhile_eq_all_conv [THEN iffD2])
  have "takeWhile (\<lambda>c. c \<noteq> NUL) v = v" by (rule takeWhile_no_NUL) (use assms r in \<open>auto simp: wf_record_def\<close>)
  then have "inkwell_record_unescape (drop (length key + 1) (record_line r)) = v"
    by (simp add: r record_line_def inkwell_record_unescape_def unescape_escape)
  moreover have "hd (record_line r) \<noteq> asc (CHR ''#'')" using assms by (cases key) (auto simp: r record_line_def wf_record_def)
  moreover have "length key < length (record_line r)" "record_line r \<noteq> []" by (auto simp: r record_line_def)
  moreover have "length (record_line r) < cap" using assms by (simp add: wf_record_def r)
  ultimately show ?thesis unfolding line_records_def record_of_line_def clean Let_def key by (simp add: r)
qed

lemma record_read_records:
  assumes "2 \<le> cap" "list_all (wf_record cap) rs"
  shows "record_read_loop cap (concat (map (\<lambda>r. record_line r @ [LF]) rs) @ rest) = rs @ record_read_loop cap rest"
  using assms(2)
proof (induction rs)
  case (Cons r rs)
  then have "wf_record cap r" by simp
  note record_line_clean [OF this] record_of_record_line [OF this]
  then show ?case using Cons record_read_line [OF assms(1), of "record_line r"] by simp
qed simp

text \<open>
  C14. A file of records reads back. For every list of records whose lines fit the buffer, the file that holds one
  line per record, followed by whatever an interrupted append left of a last line, makes the visitor see exactly
  the records, in order and with their values decoded. And on every file without NUL bytes the reader sees
  exactly the records of the lines that are complete and fit: no part of an overlong line becomes a record.
\<close>

theorem record_file_roundtrip:
  assumes "2 \<le> cap" "cap \<le> 2147483647" "list_all (wf_record cap) rs" "LF \<notin> set cut_off" "NUL \<notin> set contents"
  shows "inkwell_record_read (Some (concat (map (\<lambda>r. record_line r @ [LF]) rs) @ cut_off)) failed cap = (if failed then Inl EIO else Inr (), rs)
    \<and> snd (inkwell_record_read (Some contents) failed cap) = concat (map (line_records cap) (complete_lines [] contents))"
  using assms record_read_records [OF assms(1,3), of cut_off] record_read_cut [of cut_off cap] record_read_lines [OF assms(1), of "[]" contents]
  by (simp add: inkwell_record_read_def)

theorem record_file_roundtrip_witness:
  "inkwell_record_read (Some (ascii ''name=a'' @ ascii [CHR 0x5C] @ ascii ''x3db'' @ [LF] @ ascii ''nam'')) False 12
     = (Inr (), [(ascii ''name'', ascii ''a=b'')])
   \<and> snd (inkwell_record_read (Some (ascii ''k=0123456789abc=d'' @ [LF] @ ascii ''e=f'' @ [LF])) False 12) = [(ascii ''e'', ascii ''f'')]"
proof -
  have "list_all (wf_record 12) [(ascii ''name'', ascii ''a=b'')]" by code_simp
  moreover have "concat (map (line_records 12) (complete_lines [] (ascii ''k=0123456789abc=d'' @ [LF] @ ascii ''e=f'' @ [LF]))) = [(ascii ''e'', ascii ''f'')]"
    by code_simp
  ultimately show ?thesis
    using record_file_roundtrip [of 12 "[(ascii ''name'', ascii ''a=b'')]" "ascii ''nam''" "ascii ''k=0123456789abc=d'' @ [LF] @ ascii ''e=f'' @ [LF]" False]
    by (simp add: record_line_def inkwell_record_write_escaped_def escape_byte_def hex_digits_def)
qed

text \<open>An overlong line with a NUL in its beginning is not passed over: its tail is read as a line of its own.\<close>

lemma record_nul_forges: "record_read_loop 4 ([asc (CHR ''#''), NUL, asc (CHR ''a'')] @ ascii ''k=v'' @ [LF]) = [(ascii ''k'', ascii ''v'')]"
  by code_simp

section \<open>Replacement is whole\<close>

text \<open>
  What a file system promises: \<open>content\<close> is what a reader of a path finds, \<open>stream\<close> the path of an open stream and what
  has been written to it. A call on a stream changes no other path; a stream that is closed without an error has
  put everything written to it in the file, unless a call on it has failed; \<open>rename\<close> replaces or does nothing.
\<close>

lemma not_isl_unit: "\<not> isl (r :: errno + unit) \<longleftrightarrow> r = Inr ()"
  by (cases r) auto

locale file_kernel =
  fixes f :: "'w file_host" and content :: "'w \<Rightarrow> bytes \<Rightarrow> bytes option" and stream :: "'w \<Rightarrow> int \<Rightarrow> (bytes \<times> bytes) option"
  assumes open_frame: "f_open f p False w = (opened, w') \<Longrightarrow> q \<noteq> p \<Longrightarrow> content w' q = content w q"
    and open_stream: "f_open f p False w = (Inr fd, w') \<Longrightarrow> stream w' fd = Some (p, [])"
    and write_frame: "f_write f fd d w = (err, w') \<Longrightarrow> stream w fd = Some (p, b) \<Longrightarrow> q \<noteq> p \<Longrightarrow> content w' q = content w q"
    and write_stream: "f_write f fd d w = (err, w') \<Longrightarrow> stream w fd = Some (p, b) \<Longrightarrow>
      \<exists>b'. stream w' fd = Some (p, b') \<and> (\<not> err \<longrightarrow> b' = b @ d)"
    and flush_frame: "f_flush f fd w = (r, w') \<Longrightarrow> stream w fd = Some (p, b) \<Longrightarrow> q \<noteq> p \<Longrightarrow> content w' q = content w q"
    and flush_stream: "f_flush f fd w = (r, w') \<Longrightarrow> stream w fd = Some (p, b) \<Longrightarrow> \<exists>b'. stream w' fd = Some (p, b') \<and> (r = Inr () \<longrightarrow> b' = b)"
    and sync: "f_sync f fd w = (r, w') \<Longrightarrow> content w' = content w \<and> stream w' = stream w"
    and close_frame: "f_close f fd w = (r, w') \<Longrightarrow> stream w fd = Some (p, b) \<Longrightarrow> q \<noteq> p \<Longrightarrow> content w' q = content w q"
    and close_whole: "f_close f fd w = (Inr (), w') \<Longrightarrow> stream w fd = Some (p, b) \<Longrightarrow> content w' p = Some b"
    and rename_ok: "f_rename f p q w = (Inr (), w') \<Longrightarrow> content w' q = content w p \<and> (\<forall>x. x \<noteq> p \<longrightarrow> x \<noteq> q \<longrightarrow> content w' x = content w x)"
    and rename_failed: "f_rename f p q w = (Inl e, w') \<Longrightarrow> content w' = content w"
    and remove_frame: "q \<noteq> p \<Longrightarrow> content (f_remove f p w) q = content w q"
    and strdup: "f_strdup f p w = (ok, w') \<Longrightarrow> content w' = content w"
    and open_dir: "f_open_dir f p w = (opened, w') \<Longrightarrow> content w' = content w"
    and close_dir: "f_close_dir f fd w = (r, w') \<Longrightarrow> content w' = content w"
begin

lemma parent_sync_content: "inkwell_platform_parent_sync f path w = (r, w') \<Longrightarrow> content w' = content w"
  by (auto simp: inkwell_platform_parent_sync_def dest!: strdup open_dir sync close_dir split: prod.splits bool.splits sum.splits)

lemma write_out:
  assumes st: "stream w fd = Some (p, [])"
    and w1: "f_write f fd records w = (err, w1)"
    and w2: "record_then (if err then Inl EIO else Inr ()) sync_data (f_flush f fd) w1 = (r1, w2)"
    and w3: "record_then r1 sync_data (f_sync f fd) w2 = (r2, w3)"
    and w4: "f_close f fd w3 = (closed, w4)"
  shows "q \<noteq> p \<Longrightarrow> content w4 q = content w q" "\<not> isl r2 \<Longrightarrow> closed = Inr () \<Longrightarrow> content w4 p = Some records"
proof -
  obtain b1 where b1: "stream w1 fd = Some (p, b1)" "\<not> err \<longrightarrow> b1 = records" using write_stream [OF w1 st] by auto
  have "\<exists>b2. stream w2 fd = Some (p, b2) \<and> (\<not> isl r1 \<longrightarrow> b2 = records)" and c2: "q \<noteq> p \<Longrightarrow> content w2 q = content w1 q" for q
    using w2 b1 flush_stream [of fd w1 r1 w2 p b1] flush_frame [of fd w1 r1 w2 p b1 q]
    by (auto simp: record_then_def not_isl_unit split: if_splits)
  then obtain b2 where b2: "stream w2 fd = Some (p, b2)" "\<not> isl r1 \<longrightarrow> b2 = records" by blast
  have w3': "stream w3 fd = Some (p, b2)" "content w3 = content w2" "\<not> isl r2 \<Longrightarrow> \<not> isl r1"
    using w3 b2 sync [of fd w2 r2 w3] by (auto simp: record_then_def split: if_splits)
  show "q \<noteq> p \<Longrightarrow> content w4 q = content w q"
    using close_frame [OF w4 w3'(1)] c2 write_frame [OF w1 st] w3'(2) by simp
  show "\<not> isl r2 \<Longrightarrow> closed = Inr () \<Longrightarrow> content w4 p = Some records"
    using close_whole [of fd w3 w4 p b2] w4 w3' b2(2) by simp
qed

lemma replace_whole:
  assumes "inkwell_record_replace f (Some path) temp_capacity records sync_data w = (r, w')"
  shows "(content w' path = content w path \<or> content w' path = Some records)
    \<and> (r = Inr () \<longrightarrow> content w' path = Some records)
    \<and> (\<forall>q. q \<noteq> path \<longrightarrow> q \<noteq> path @ ascii ''.tmp'' \<longrightarrow> content w' q = content w q)"
proof -
  let ?temp = "path @ ascii ''.tmp''"
  have temp: "path \<noteq> ?temp" by simp
  consider (refused) e where "r = Inl e" "w' = w" | (unopened) e where "f_open f ?temp False w = (Inl e, w')" "r = Inl e"
    | (opened) fd w0 err w1 r1 w2 r2 w3 closed w4 r3 w5 where "f_open f ?temp False w = (Inr fd, w0)" "f_write f fd records w0 = (err, w1)"
        "record_then (if err then Inl EIO else Inr ()) sync_data (f_flush f fd) w1 = (r1, w2)"
        "record_then r1 sync_data (f_sync f fd) w2 = (r2, w3)" "f_close f fd w3 = (closed, w4)"
        "record_then (if isl r2 then r2 else closed) True (f_rename f ?temp path) w4 = (r3, w5)"
        "(r, w') = (if isl r3 then (r3, f_remove f ?temp w5) else if sync_data then inkwell_platform_parent_sync f path w5 else (Inr (), w5))"
    using assms by (auto simp: inkwell_record_replace_def Let_def split: prod.splits sum.splits if_splits)
  then show ?thesis
  proof cases
    case (unopened e)
    then show ?thesis using open_frame [OF unopened(1)] temp by auto
  next
    case (opened fd w0 err w1 r1 w2 r2 w3 closed w4 r3 w5)
    note wr = write_out [OF open_stream [OF opened(1)] opened(2-5)]
    have frame: "content w4 q = content w q" if "q \<noteq> ?temp" for q using wr(1) [OF that] open_frame [OF opened(1) that] by simp
    show ?thesis
    proof (cases "isl r3")
      case True
      then have "content w5 = content w4" "w' = f_remove f ?temp w5" "r = r3"
        using opened(6,7) rename_failed [of ?temp path w4 _ w5] by (auto simp: record_then_def isl_def split: if_splits)
      then show ?thesis using True frame temp remove_frame [of _ ?temp w5] by auto
    next
      case False
      then have ok: "\<not> isl r2" "closed = Inr ()" "f_rename f ?temp path w4 = (Inr (), w5)"
        using opened(6) by (auto simp: record_then_def not_isl_unit split: if_splits)
      have "content w' = content w5" using False opened(7) parent_sync_content [of path w5 r w'] by (auto split: if_splits)
      then show ?thesis using rename_ok [OF ok(3)] wr(2) [OF ok(1,2)] frame by auto
    qed
  qed simp
qed

end

text \<open>A file system where the calls fail as a script says; a stream whose call failed may lose what it holds.\<close>

record fs_world =
  fw_files :: "bytes \<Rightarrow> bytes option"
  fw_stream :: "(bytes \<times> bytes) option"
  fw_script :: "errno option list"

definition fs_fails :: "fs_world \<Rightarrow> errno option \<times> fs_world" where
  "fs_fails w = (case fw_script w of [] \<Rightarrow> (None, w) | e # es \<Rightarrow> (e, w\<lparr>fw_script := es\<rparr>))"

definition fs_open :: "bytes \<Rightarrow> bool \<Rightarrow> fs_world \<Rightarrow> (errno + int) \<times> fs_world" where
  "fs_open p keep w =
     (case fs_fails w of
        (Some e, w) \<Rightarrow> (Inl e, w)
      | (None, w) \<Rightarrow>
          let b = (case fw_files w p of Some b \<Rightarrow> if keep then b else [] | None \<Rightarrow> [])
          in (Inr 5, w\<lparr>fw_files := (fw_files w)(p := Some b), fw_stream := Some (p, b)\<rparr>))"

definition fs_write :: "int \<Rightarrow> bytes \<Rightarrow> fs_world \<Rightarrow> bool \<times> fs_world" where
  "fs_write fd d w =
     (case fs_fails w of
        (Some e, w) \<Rightarrow> (True, w)
      | (None, w) \<Rightarrow> (False, w\<lparr>fw_stream := map_option (\<lambda>(p, b). (p, b @ d)) (fw_stream w)\<rparr>))"

definition fs_result :: "fs_world \<Rightarrow> (errno + unit) \<times> fs_world" where
  "fs_result w = (case fs_fails w of (Some e, w) \<Rightarrow> (Inl e, w) | (None, w) \<Rightarrow> (Inr (), w))"

definition fs_close :: "int \<Rightarrow> fs_world \<Rightarrow> (errno + unit) \<times> fs_world" where
  "fs_close fd w =
     (case fs_result w of
        (Inl e, w) \<Rightarrow> (Inl e, w\<lparr>fw_stream := None\<rparr>)
      | (Inr _, w) \<Rightarrow>
          (Inr (), case fw_stream w of None \<Rightarrow> w | Some (p, b) \<Rightarrow> w\<lparr>fw_files := (fw_files w)(p := Some b), fw_stream := None\<rparr>))"

definition fs_rename :: "bytes \<Rightarrow> bytes \<Rightarrow> fs_world \<Rightarrow> (errno + unit) \<times> fs_world" where
  "fs_rename p q w =
     (case fs_result w of
        (Inl e, w) \<Rightarrow> (Inl e, w)
      | (Inr _, w) \<Rightarrow> (Inr (), w\<lparr>fw_files := (fw_files w)(p := None, q := fw_files w p)\<rparr>))"

definition ref_fs :: "fs_world file_host" where
  "ref_fs = \<lparr>f_open = fs_open, f_write = fs_write, f_flush = (\<lambda>_. fs_result), f_sync = (\<lambda>_. fs_result), f_close = fs_close,
     f_rename = fs_rename, f_remove = (\<lambda>p w. w\<lparr>fw_files := (fw_files w)(p := None)\<rparr>), f_strdup = (\<lambda>_ w. (True, w)),
     f_open_dir = (\<lambda>_ w. (Inr 6, w)), f_close_dir = (\<lambda>_. fs_result)\<rparr>"

lemma fs_fails_keeps: "fs_fails w = (e, w') \<Longrightarrow> fw_files w' = fw_files w \<and> fw_stream w' = fw_stream w"
  by (auto simp: fs_fails_def split: list.splits)

lemma fs_result_keeps: "fs_result w = (r, w') \<Longrightarrow> fw_files w' = fw_files w \<and> fw_stream w' = fw_stream w"
  by (auto simp: fs_result_def dest: fs_fails_keeps split: prod.splits option.splits)

interpretation ref_fs: file_kernel ref_fs fw_files "\<lambda>w _. fw_stream w"
  by unfold_locales
    (auto simp: ref_fs_def fs_open_def fs_write_def fs_close_def fs_rename_def Let_def
       dest!: fs_fails_keeps fs_result_keeps split: prod.splits option.splits sum.splits)

text \<open>
  C13. Replacing a file is whole or nothing. On any file system that keeps the promises of \<open>file_kernel\<close>, whichever call fails
  and with or without syncing: afterwards the path holds what it held before or exactly the new records, exactly the new
  records where the call succeeded, and no path but this one and its temporary neighbour has changed.
\<close>

theorem record_replace_whole:
  assumes "file_kernel f content stream" "inkwell_record_replace f (Some path) temp_capacity records sync_data w = (r, w')"
  shows "(content w' path = content w path \<or> content w' path = Some records)
    \<and> (r = Inr () \<longrightarrow> content w' path = Some records)
    \<and> (\<forall>q. q \<noteq> path \<longrightarrow> q \<noteq> path @ ascii ''.tmp'' \<longrightarrow> content w' q = content w q)"
  using file_kernel.replace_whole [OF assms] .

definition fs_sample :: "errno option list \<Rightarrow> fs_world" where
  "fs_sample script = \<lparr>fw_files = (\<lambda>p. if p = ascii ''a'' then Some (ascii ''old'') else None), fw_stream = None, fw_script = script\<rparr>"

theorem record_replace_whole_witness:
  "fw_files (snd (inkwell_record_replace ref_fs (Some (ascii ''a'')) 64 (ascii ''k=v'') True (fs_sample []))) (ascii ''a'') = Some (ascii ''k=v'')
   \<and> fw_files (snd (inkwell_record_replace ref_fs (Some (ascii ''a'')) 64 (ascii ''k=v'') True (fs_sample [None, None, None, Some ENOSPC]))) (ascii ''b'') = None"
proof -
  have "fst (inkwell_record_replace ref_fs (Some (ascii ''a'')) 64 (ascii ''k=v'') True (fs_sample [])) = Inr ()" by code_simp
  moreover have "fw_files (fs_sample s) (ascii ''b'') = None" for s by (simp add: fs_sample_def)
  ultimately show ?thesis
    using record_replace_whole [OF ref_fs.file_kernel_axioms surjective_pairing, of "ascii ''a''" 64 "ascii ''k=v''" True "fs_sample []"]
      record_replace_whole [OF ref_fs.file_kernel_axioms surjective_pairing, of "ascii ''a''" 64 "ascii ''k=v''" True "fs_sample [None, None, None, Some ENOSPC]"]
    by simp
qed

end
