(* ===== verification/Net_Reason.thy ===== *)
theory Net_Reason
  imports Inkwell_Decimal
begin

text \<open>
  Why a connection failed (\<open>src/net/reason.c\<close>), and the target of an MQTT connection (\<open>src/net/mqtt_address.c\<close>). The
  numbers of errno are those of Linux. A target is split into a host and a port by the caller's text alone; the
  property says which texts it takes and what they mean.
\<close>

section \<open>Reasons\<close>

datatype inkwell_net_reason = NET_OK | NET_BAD_ADDRESS | NET_UNKNOWN_HOST | NET_LOOKUP_FAILED | NET_LOOKUP_TIMED_OUT
  | NET_UNREACHABLE | NET_TIMED_OUT | NET_CLOSED | NET_TLS | NET_CLOCK

datatype inkwell_resolve_outcome = RESOLVE_OK | RESOLVE_NOT_FOUND | RESOLVE_FAILED | RESOLVE_TIMED_OUT

record inkwell_net_failure =
  nf_reason :: inkwell_net_reason
  nf_detail :: int

definition no_failure :: inkwell_net_failure where
  "no_failure = \<lparr>nf_reason = NET_OK, nf_detail = 0\<rparr>"

definition inkwell_net_failed :: "inkwell_net_failure \<Rightarrow> bool" where
  "inkwell_net_failed failure \<longleftrightarrow> nf_reason failure \<noteq> NET_OK"

fun errno_number :: "errno \<Rightarrow> int" where
  "errno_number ENOENT = 2"
| "errno_number EINTR = 4"
| "errno_number EIO = 5"
| "errno_number EBADF = 9"
| "errno_number EAGAIN = 11"
| "errno_number ENOMEM = 12"
| "errno_number EACCES = 13"
| "errno_number EBUSY = 16"
| "errno_number EEXIST = 17"
| "errno_number EINVAL = 22"
| "errno_number ENOSPC = 28"
| "errno_number EPIPE = 32"
| "errno_number ENAMETOOLONG = 36"
| "errno_number ENOSYS = 38"
| "errno_number EPROTO = 71"
| "errno_number EBADMSG = 74"
| "errno_number EILSEQ = 84"
| "errno_number EMSGSIZE = 90"
| "errno_number ENOPROTOOPT = 92"
| "errno_number ENOTSUP = 95"
| "errno_number EOPNOTSUPP = 95"
| "errno_number ENETUNREACH = 101"
| "errno_number ECONNABORTED = 103"
| "errno_number ECONNRESET = 104"
| "errno_number ENOBUFS = 105"
| "errno_number ENOTCONN = 107"
| "errno_number ETIMEDOUT = 110"
| "errno_number ECONNREFUSED = 111"
| "errno_number EHOSTUNREACH = 113"
| "errno_number EINPROGRESS = 115"
| "errno_number (EOTHER n) = int n + 1"

definition inkwell_net_reason_from_errno :: "int \<Rightarrow> inkwell_net_reason" where
  "inkwell_net_reason_from_errno err =
     (let err = (if err < 0 then - err else err) in
      if err = 0 then NET_OK
      else if err = errno_number ETIMEDOUT then NET_TIMED_OUT
      else if err = errno_number ECONNRESET \<or> err = errno_number EPIPE then NET_CLOSED
      else NET_UNREACHABLE)"

fun inkwell_net_reason_from_resolve :: "inkwell_resolve_outcome \<Rightarrow> inkwell_net_reason" where
  "inkwell_net_reason_from_resolve RESOLVE_OK = NET_OK"
| "inkwell_net_reason_from_resolve RESOLVE_NOT_FOUND = NET_UNKNOWN_HOST"
| "inkwell_net_reason_from_resolve RESOLVE_TIMED_OUT = NET_LOOKUP_TIMED_OUT"
| "inkwell_net_reason_from_resolve RESOLVE_FAILED = NET_LOOKUP_FAILED"

fun inkwell_net_reason_name :: "inkwell_net_reason \<Rightarrow> bytes" where
  "inkwell_net_reason_name NET_OK = ascii ''ok''"
| "inkwell_net_reason_name NET_BAD_ADDRESS = ascii ''bad-address''"
| "inkwell_net_reason_name NET_UNKNOWN_HOST = ascii ''unknown-host''"
| "inkwell_net_reason_name NET_LOOKUP_FAILED = ascii ''lookup-failed''"
| "inkwell_net_reason_name NET_LOOKUP_TIMED_OUT = ascii ''lookup-timed-out''"
| "inkwell_net_reason_name NET_UNREACHABLE = ascii ''unreachable''"
| "inkwell_net_reason_name NET_TIMED_OUT = ascii ''timed-out''"
| "inkwell_net_reason_name NET_CLOSED = ascii ''closed''"
| "inkwell_net_reason_name NET_TLS = ascii ''tls''"
| "inkwell_net_reason_name NET_CLOCK = ascii ''clock''"

lemma errno_number_pos: "0 < errno_number e"
  by (cases e) auto

lemma reason_from_errno_failed: "err \<noteq> 0 \<Longrightarrow> inkwell_net_reason_from_errno err \<noteq> NET_OK"
  by (auto simp: inkwell_net_reason_from_errno_def Let_def)

lemma reason_from_resolve_failed: "r \<noteq> RESOLVE_OK \<Longrightarrow> inkwell_net_reason_from_resolve r \<noteq> NET_OK"
  by (cases r) auto

section \<open>Targets\<close>

definition ulong_max :: nat where "ulong_max = 18446744073709551615"

text \<open>\<open>strtoul(t, &end, 10)\<close>: the number, and the text from \<open>end\<close> on.\<close>

definition strtoul :: "bytes \<Rightarrow> nat \<times> bytes" where
  "strtoul t =
     (let u = dropWhile isspace t;
          negative = (u \<noteq> [] \<and> hd u = asc (CHR ''-''));
          u = (if u \<noteq> [] \<and> (hd u = asc (CHR ''-'') \<or> hd u = asc (CHR ''+'')) then tl u else u);
          ds = takeWhile is_digit u;
          n = digits_value ds
      in if ds = [] then (0, t)
         else (if ulong_max < n then ulong_max else if negative then (ulong_max + 1 - n) mod (ulong_max + 1) else n,
               drop (length ds) u))"

definition mqtt_address_max :: nat where "mqtt_address_max = 256"

text \<open>The host and the text of the port of a target.\<close>

definition target_parts :: "bytes \<Rightarrow> errno + bytes \<times> bytes option" where
  "target_parts target =
     (if hd target = asc (CHR ''['') then
        (let host = takeWhile (\<lambda>c. c \<noteq> asc (CHR '']'')) (tl target); rest = drop (length host) (tl target) in
         if rest = [] \<or> host = [] then Inl EINVAL
         else case tl rest of
           [] \<Rightarrow> Inr (host, None)
         | c # port_text \<Rightarrow> if c = asc (CHR '':'') then Inr (host, Some port_text) else Inl EINVAL)
      else
        (let host = takeWhile (\<lambda>c. c \<noteq> asc (CHR '':'')) target; rest = drop (length host) target in
         if rest \<noteq> [] \<and> asc (CHR '':'') \<notin> set (tl rest) then Inr (host, Some (tl rest)) else Inr (target, None)))"

definition inkwell_mqtt_target_split :: "bytes option \<Rightarrow> nat \<Rightarrow> errno + bytes \<times> u16" where
  "inkwell_mqtt_target_split target host_len =
     (case target of
        None \<Rightarrow> Inl EINVAL
      | Some target \<Rightarrow>
          if host_len = 0 then Inl EINVAL
          else if target = [] \<or> mqtt_address_max \<le> length target then Inl EINVAL
          else case target_parts target of
            Inl e \<Rightarrow> Inl e
          | Inr (host, port_text) \<Rightarrow>
              if host = [] \<or> host_len \<le> length host then Inl EINVAL
              else case port_text of
                None \<Rightarrow> Inr (host, 0)
              | Some t \<Rightarrow>
                  if t = [] then Inl EINVAL
                  else case strtoul t of (v, rest) \<Rightarrow>
                    if rest \<noteq> [] \<or> v = 0 \<or> 65535 < v then Inl EINVAL else Inr (host, of_nat v))"

lemma strtoul_decimal: "n \<le> ulong_max \<Longrightarrow> strtoul (decimal n) = (n, [])"
proof -
  assume n: "n \<le> ulong_max"
  have d: "decimal n \<noteq> []" "list_all is_digit (decimal n)" by (simp_all add: decimal_digits)
  then obtain c t where c: "decimal n = c # t" "is_digit c" by (cases "decimal n") auto
  have "\<not> isspace c" "c \<noteq> asc (CHR ''-'')" "c \<noteq> asc (CHR ''+'')"
    using c(2) by (auto simp: is_digit_unat isspace_def word_le_nat_alt)
  then have "dropWhile isspace (decimal n) = decimal n" "hd (decimal n) \<noteq> asc (CHR ''-'')" "hd (decimal n) \<noteq> asc (CHR ''+'')"
    using c(1) by simp_all
  moreover have "takeWhile is_digit (decimal n) = decimal n" using d(2) by (auto simp: takeWhile_eq_all_conv list_all_iff)
  ultimately show ?thesis using n d(1) by (simp add: strtoul_def Let_def del: takeWhile_eq_all_conv)
qed

text \<open>A target as it is written: a host, in brackets or not, and a port unless it is 0.\<close>

definition print_target :: "bool \<Rightarrow> bytes \<Rightarrow> u16 \<Rightarrow> bytes" where
  "print_target brackets host port =
     (if brackets then asc (CHR ''['') # host @ [asc (CHR '']'')] else host) @ (if port = 0 then [] else asc (CHR '':'') # decimal (unat port))"

definition wf_target :: "bool \<Rightarrow> bytes \<Rightarrow> u16 \<Rightarrow> bool" where
  "wf_target brackets host port \<longleftrightarrow> host \<noteq> []
     \<and> (if brackets then asc (CHR '']'') \<notin> set host
        else hd host \<noteq> asc (CHR ''['') \<and> (asc (CHR '':'') \<notin> set host \<or> port = 0 \<and> 2 \<le> count_list host (asc (CHR '':''))))"

lemma decimal_no_colon: "asc (CHR '':'') \<notin> set (decimal n)"
proof
  assume "asc (CHR '':'') \<in> set (decimal n)"
  then have "is_digit (asc (CHR '':''))" using decimal_digits [of n] by (auto simp: list_all_iff)
  then show False by (simp add: is_digit_unat)
qed

lemma takeWhile_until: "x \<notin> set h \<Longrightarrow> takeWhile (\<lambda>c. c \<noteq> x) (h @ x # t) = h"
  by (induction h) auto

lemma target_parts_print:
  assumes "wf_target brackets host port"
  shows "target_parts (print_target brackets host port) = Inr (host, if port = 0 then None else Some (decimal (unat port)))"
proof (cases brackets)
  case True
  then have h: "host \<noteq> []" "takeWhile (\<lambda>c. c \<noteq> asc (CHR '']'')) (host @ asc (CHR '']'') # t) = host" for t
    using assms takeWhile_until [of "asc (CHR '']'')" host] by (simp_all add: wf_target_def)
  then show ?thesis using True by (auto simp: target_parts_def print_target_def Let_def)
next
  case False
  then have h: "host \<noteq> []" "hd host \<noteq> asc (CHR ''['')" using assms by (simp_all add: wf_target_def)
  show ?thesis
  proof (cases "asc (CHR '':'') \<in> set host")
    case True
    then have p: "port = 0" "2 \<le> count_list host (asc (CHR '':''))" using assms False by (auto simp: wf_target_def)
    obtain a b where ab: "host = a @ asc (CHR '':'') # b" "asc (CHR '':'') \<notin> set a" using True split_list_first by fastforce
    have "asc (CHR '':'') \<in> set b"
    proof (rule ccontr)
      assume "asc (CHR '':'') \<notin> set b"
      then show False using p(2) count_notin [OF ab(2)] count_notin [of "asc (CHR '':'')" b] by (simp add: ab(1))
    qed
    then show ?thesis using False h p(1) takeWhile_until [OF ab(2), of b] ab(1) by (simp add: target_parts_def print_target_def Let_def)
  next
    case no_colon: False
    show ?thesis
    proof (cases "port = 0")
      case True
      have "takeWhile (\<lambda>c. c \<noteq> asc (CHR '':'')) host = host" using no_colon by (auto simp: takeWhile_eq_all_conv)
      then show ?thesis unfolding target_parts_def print_target_def Let_def using False h True by (simp del: takeWhile_eq_all_conv)
    next
      case named: False
      then show ?thesis
        using False h takeWhile_until [OF no_colon, of "decimal (unat port)"] decimal_no_colon [of "unat port"]
        by (simp add: target_parts_def print_target_def Let_def)
    qed
  qed
qed

text \<open>
  C36. A target means what it says. A host that is written with or without brackets, and with or without a port, is split into that
  host and that port, 0 where none is named; a bare IPv6 address is a host of its own. Whatever the text, an accepted target names
  a host that is part of it and fits the caller's buffer.
\<close>

theorem mqtt_target_split_correct:
  assumes "wf_target brackets host port" "length (print_target brackets host port) < mqtt_address_max" "length host < host_len"
  shows "inkwell_mqtt_target_split (Some (print_target brackets host port)) host_len = Inr (host, port)
    \<and> (\<forall>target h p. inkwell_mqtt_target_split (Some target) host_len = Inr (h, p) \<longrightarrow> h \<noteq> [] \<and> length h < host_len \<and> (\<exists>a b. target = a @ h @ b))"
proof
  have "print_target brackets host port \<noteq> []" "host \<noteq> []" using assms(1) by (auto simp: print_target_def wf_target_def)
  moreover have "strtoul (decimal (unat port)) = (unat port, [])"
    by (rule strtoul_decimal [unfolded ulong_max_def]) (use unat_u16_lt [of port] in linarith)
  moreover have "\<not> 65535 < unat port" using unat_u16_lt [of port] by linarith
  moreover have "unat port = 0 \<longleftrightarrow> port = 0" by (rule unat_eq_0)
  ultimately show "inkwell_mqtt_target_split (Some (print_target brackets host port)) host_len = Inr (host, port)"
    unfolding inkwell_mqtt_target_split_def option.case target_parts_print [OF assms(1)] sum.case prod.case
    using assms(2,3) by (cases "port = 0") simp_all
  have parts: "\<exists>a b. target = a @ h @ b" if "target \<noteq> []" "target_parts target = Inr (h, t)" for target h t
  proof (cases "hd target = asc (CHR ''['')")
    case True
    let ?h = "takeWhile (\<lambda>c. c \<noteq> asc (CHR '']'')) (tl target)"
    have "h = ?h" using that True by (auto simp: target_parts_def Let_def split: if_splits list.splits)
    moreover have "target = [hd target] @ ?h @ dropWhile (\<lambda>c. c \<noteq> asc (CHR '']'')) (tl target)" using that(1) by simp
    ultimately show ?thesis by metis
  next
    case False
    then have "h = target \<or> h = takeWhile (\<lambda>c. c \<noteq> asc (CHR '':'')) target"
      using that by (auto simp: target_parts_def Let_def split: if_splits)
    then show ?thesis using takeWhile_dropWhile_id [of "\<lambda>c. c \<noteq> asc (CHR '':'')" target] by (metis append_Nil append_Nil2)
  qed
  show "\<forall>target h p. inkwell_mqtt_target_split (Some target) host_len = Inr (h, p) \<longrightarrow> h \<noteq> [] \<and> length h < host_len \<and> (\<exists>a b. target = a @ h @ b)"
  proof (intro allI impI)
    fix target h and p :: u16
    assume split: "inkwell_mqtt_target_split (Some target) host_len = Inr (h, p)"
    then obtain t where "target \<noteq> []" "target_parts target = Inr (h, t)" "h \<noteq> []" "length h < host_len"
      by (auto simp: inkwell_mqtt_target_split_def simp del: unat_u16_lt split: if_splits sum.splits option.splits prod.splits)
    then show "h \<noteq> [] \<and> length h < host_len \<and> (\<exists>a b. target = a @ h @ b)" using parts [of target h t] by simp
  qed
qed

theorem mqtt_target_split_correct_witness:
  "inkwell_mqtt_target_split (Some (ascii ''[fd00::1]:8883'')) 256 = Inr (ascii ''fd00::1'', 8883)"
proof -
  have "wf_target True (ascii ''fd00::1'') 8883" by (simp add: wf_target_def)
  moreover have "print_target True (ascii ''fd00::1'') 8883 = ascii ''[fd00::1]:8883''" by (simp add: print_target_def decimal.simps)
  ultimately show ?thesis
    using mqtt_target_split_correct [of True "ascii ''fd00::1''" 8883 256] by (simp add: mqtt_address_max_def)
qed

end
