(* ===== verification/Net_Services.thy ===== *)
theory Net_Services
  imports Net_Reason Loop
begin

text \<open>
  What the clients of the network layer stand on. The socket calls of \<open>src/base/fd.c\<close> that the stream does not make, over
  a record of system calls \<open>net_host\<close>; \<open>inet_pton\<close> is a field of it. And the two services that are chosen when the
  library is built, as records of functions: a resolver (\<open>resolver_ops\<close>, one of \<open>resolve.c\<close>, \<open>resolve_apple.c\<close>,
  \<open>resolve_windows.c\<close>, \<open>resolve_unavailable.c\<close>) and a TLS session (\<open>tls_ops\<close>, either half of \<open>tls.c\<close>). A resolver reports a
  finished lookup in the result of the call that finished it, and the caller runs the completion function before it
  goes on.
\<close>

section \<open>Socket calls\<close>

record 'w net_host =
  n_socket :: "int \<Rightarrow> int \<Rightarrow> int \<Rightarrow> 'w \<Rightarrow> (errno + int) \<times> 'w"
  n_connect :: "int \<Rightarrow> bytes \<Rightarrow> 'w \<Rightarrow> (errno + unit) \<times> 'w"
  n_so_error :: "int \<Rightarrow> 'w \<Rightarrow> (errno + errno option) \<times> 'w"
  n_setsockopt :: "int \<Rightarrow> int \<Rightarrow> int \<Rightarrow> int \<Rightarrow> 'w \<Rightarrow> (errno + unit) \<times> 'w"
  n_pton4 :: "bytes \<Rightarrow> bytes option"
  n_pton6 :: "bytes \<Rightarrow> bytes option"

definition af_inet :: int where "af_inet = 2"
definition af_inet6 :: int where "af_inet6 = 10"
definition sock_stream :: int where "sock_stream = 1"
definition sock_flags :: int where "sock_flags = 0x80800"
definition sockaddr_size :: nat where "sockaddr_size = 128"

definition inkwell_fd_socket :: "'w net_host \<Rightarrow> int \<Rightarrow> int \<Rightarrow> int \<Rightarrow> 'w \<Rightarrow> (errno + int) \<times> 'w" where
  "inkwell_fd_socket n domain type protocol w = n_socket n domain (type OR sock_flags) protocol w"

definition inkwell_socket_open :: "'w net_host \<Rightarrow> int \<Rightarrow> int \<Rightarrow> int \<Rightarrow> 'w \<Rightarrow> (errno + u64) \<times> 'w" where
  "inkwell_socket_open n domain type protocol w =
     (case inkwell_fd_socket n domain type protocol w of
        (Inl e, w) \<Rightarrow> (Inl e, w)
      | (Inr fd, w) \<Rightarrow> (Inr (of_int fd), w))"

definition inkwell_socket_connect :: "'w net_host \<Rightarrow> u64 \<Rightarrow> bytes \<Rightarrow> 'w \<Rightarrow> (errno + unit) \<times> 'w" where
  "inkwell_socket_connect n s address w =
     (if s = socket_invalid \<or> int_max < length address then (Inl EINVAL, w) else n_connect n (socket_fd s) address w)"

definition inkwell_socket_pending_error :: "'w net_host \<Rightarrow> u64 \<Rightarrow> 'w \<Rightarrow> (errno + unit) \<times> 'w" where
  "inkwell_socket_pending_error n s w =
     (if s = socket_invalid then (Inl EINVAL, w)
      else case n_so_error n (socket_fd s) w of
        (Inl e, w) \<Rightarrow> (Inl e, w)
      | (Inr None, w) \<Rightarrow> (Inr (), w)
      | (Inr (Some e), w) \<Rightarrow> (Inl e, w))"

datatype inkwell_socket_option = SOCKET_NO_DELAY | SOCKET_KEEPALIVE | SOCKET_KEEPALIVE_IDLE_S | SOCKET_KEEPALIVE_INTERVAL_S
  | SOCKET_KEEPALIVE_COUNT

text \<open>The level and the name of an option, with the numbers of Linux.\<close>

fun socket_option_name :: "inkwell_socket_option \<Rightarrow> int \<times> int" where
  "socket_option_name SOCKET_NO_DELAY = (6, 1)"
| "socket_option_name SOCKET_KEEPALIVE = (1, 9)"
| "socket_option_name SOCKET_KEEPALIVE_IDLE_S = (6, 4)"
| "socket_option_name SOCKET_KEEPALIVE_INTERVAL_S = (6, 5)"
| "socket_option_name SOCKET_KEEPALIVE_COUNT = (6, 6)"

definition inkwell_socket_set_option :: "'w net_host \<Rightarrow> u64 \<Rightarrow> inkwell_socket_option \<Rightarrow> u32 \<Rightarrow> 'w \<Rightarrow> (errno + unit) \<times> 'w" where
  "inkwell_socket_set_option n s opt v w =
     (if s = socket_invalid \<or> int_max < unat v then (Inl EINVAL, w)
      else case socket_option_name opt of (level, name) \<Rightarrow>
        (case n_setsockopt n (socket_fd s) level name (uint v) w of
           (Inl e, w) \<Rightarrow> (Inl (if e = ENOPROTOOPT \<or> e = EOPNOTSUPP then ENOTSUP else e), w)
         | (Inr _, w) \<Rightarrow> (Inr (), w)))"

section \<open>Addresses\<close>

text \<open>A \<open>struct sockaddr_storage\<close> is its bytes up to the length that goes with it; the family comes first, low byte first.\<close>

definition be16_bytes :: "u16 \<Rightarrow> bytes" where
  "be16_bytes v = [ucast (drop_bit 8 v), ucast v]"

definition ss_family :: "bytes \<Rightarrow> int" where
  "ss_family address = (if length address < 2 then 0 else uint (le16 (address ! 0) (address ! 1)))"

definition inkwell_socket_parse_literal :: "'w net_host \<Rightarrow> bytes \<Rightarrow> u16 \<Rightarrow> bytes option" where
  "inkwell_socket_parse_literal n host port =
     (if host = [] then None
      else case n_pton4 n host of
        Some v4 \<Rightarrow> Some ([2, 0] @ be16_bytes port @ v4 @ replicate 8 0)
      | None \<Rightarrow>
          (case n_pton6 n host of
             Some v6 \<Rightarrow> Some ([10, 0] @ be16_bytes port @ replicate 4 0 @ v6 @ replicate 4 0)
           | None \<Rightarrow> None))"

section \<open>The resolver\<close>

definition resolve_addresses_max :: nat where "resolve_addresses_max = 4"
definition resolve_timeout_ms :: u64 where "resolve_timeout_ms = 5000"

record inkwell_resolve_result =
  rr_outcome :: inkwell_resolve_outcome
  rr_gai_error :: int
  rr_addresses :: "bytes list"

text \<open>The address a link connects to: the first one, none of length 0 where there is none.\<close>

definition rr_address :: "inkwell_resolve_result \<Rightarrow> bytes" where
  "rr_address r = (case rr_addresses r of [] \<Rightarrow> [] | a # _ \<Rightarrow> a)"

record inkwell_resolve =
  rs_has_loop :: bool
  rs_child :: int
  rs_child_fd :: int
  rs_deadline_ms :: u64
  rs_record :: bytes
  rs_failure :: inkwell_resolve_outcome
  rs_on_done :: bool

text \<open>\<open>r_on_output\<close> is the callback the resolver has on the loop; \<open>r_tick\<close> and \<open>r_tick_deadline\<close> are the two halves of a tick, between which the completion of the first runs.\<close>

record 'w resolver_ops =
  r_start :: "inkwell_resolve \<Rightarrow> inkwell_loop \<Rightarrow> bytes \<Rightarrow> u16 \<Rightarrow> u64 \<Rightarrow> 'w \<Rightarrow> (errno + unit) \<times> inkwell_resolve \<times> inkwell_loop \<times> 'w"
  r_cancel :: "inkwell_resolve \<Rightarrow> inkwell_loop \<Rightarrow> 'w \<Rightarrow> inkwell_resolve \<times> inkwell_loop \<times> 'w"
  r_on_output :: "inkwell_resolve \<Rightarrow> inkwell_loop \<Rightarrow> u32 \<Rightarrow> 'w \<Rightarrow> (inkwell_resolve_result option \<times> inkwell_resolve \<times> inkwell_loop \<times> 'w) option"
  r_tick :: "inkwell_resolve \<Rightarrow> inkwell_loop \<Rightarrow> 'w \<Rightarrow> (inkwell_resolve_result option \<times> inkwell_resolve \<times> inkwell_loop \<times> 'w) option"
  r_tick_deadline :: "inkwell_resolve \<Rightarrow> inkwell_loop \<Rightarrow> u64 \<Rightarrow> 'w \<Rightarrow> inkwell_resolve_result option \<times> inkwell_resolve \<times> inkwell_loop \<times> 'w"

definition inkwell_resolve_init :: "bool \<Rightarrow> inkwell_resolve" where
  "inkwell_resolve_init has_loop = \<lparr>rs_has_loop = has_loop, rs_child = -1, rs_child_fd = -1, rs_deadline_ms = 0, rs_record = [],
     rs_failure = RESOLVE_OK, rs_on_done = False\<rparr>"

section \<open>The TLS session\<close>

text \<open>\<open>tls_state\<close> is the heap-held state of a session: its handle and whether the handshake is over.\<close>

record inkwell_tls_client =
  tls_socket :: u64
  tls_state :: "(nat \<times> bool) option"
  tls_wants_write :: bool
  tls_more_to_read :: bool
  tls_error :: bytes
  tls_error_code :: int
  tls_clock_behind :: bool

record 'w tls_ops =
  t_start :: "inkwell_tls_client \<Rightarrow> u64 \<Rightarrow> bytes \<Rightarrow> bytes \<Rightarrow> 'w \<Rightarrow> (errno + unit) \<times> inkwell_tls_client \<times> 'w"
  t_handshake :: "inkwell_tls_client \<Rightarrow> 'w \<Rightarrow> (errno + unit) \<times> inkwell_tls_client \<times> 'w"
  t_read :: "inkwell_tls_client \<Rightarrow> nat \<Rightarrow> 'w \<Rightarrow> (errno + bytes) \<times> inkwell_tls_client \<times> 'w"
  t_write :: "inkwell_tls_client \<Rightarrow> bytes \<Rightarrow> 'w \<Rightarrow> (errno + nat) \<times> inkwell_tls_client \<times> 'w"
  t_stop :: "inkwell_tls_client \<Rightarrow> 'w \<Rightarrow> inkwell_tls_client \<times> 'w"

definition no_tls_client :: inkwell_tls_client where
  "no_tls_client = \<lparr>tls_socket = 0, tls_state = None, tls_wants_write = False, tls_more_to_read = False, tls_error = [],
     tls_error_code = 0, tls_clock_behind = False\<rparr>"

definition inkwell_tls_client_reason :: "inkwell_tls_client \<Rightarrow> inkwell_net_reason" where
  "inkwell_tls_client_reason tls = (if tls_clock_behind tls then NET_CLOCK else NET_TLS)"

text \<open>What a client of a session relies on.\<close>

locale tls_service =
  fixes T :: "'w tls_ops"
  assumes tls_read_len: "t_read T t n w = (Inr got, t', w') \<Longrightarrow> length got \<le> n"
    and tls_write_len: "t_write T t data w = (Inr k, t', w') \<Longrightarrow> k \<le> length data"
    and tls_stop: "t_stop T t w = (t', w') \<Longrightarrow> tls_state t' = None"
    and tls_no_session: "t_handshake T t w = (r, t', w') \<Longrightarrow> tls_state t = None \<Longrightarrow> isl r \<and> r \<noteq> Inl EAGAIN"

end
