(* ===== verification/Mqtt_Client.thy ===== *)
theory Mqtt_Client
  imports Net_Services Text Mqtt_Codec
begin

text \<open>
  The MQTT client (\<open>src/net/mqtt.c\<close>): the record of a client and one definition per function, in the order of the
  source. An operation takes and returns the client, the loop it is registered with (\<open>mc_has_loop\<close> is that the pointer
  is not NULL) and the world. \<open>in\<close> and \<open>out\<close> are the bytes the two buffers hold, so that \<open>in_len\<close> and \<open>out_len\<close> are
  their lengths, and \<open>filters\<close> is the list of the \<open>filter_count\<close> filters. The callbacks of the application are functions of the whole
  state, named by the pointers the client was started with: they may call the client again, which is why the
  generation is compared after each. An operation is \<open>None\<close> when a write loop or a callback does not return, or when a
  table is read outside its bounds. The log lines are not modelled, but what they read of the table is.
\<close>

section \<open>State\<close>

datatype mqtt_client_state = CLIENT_OFF | CLIENT_RESOLVING | CLIENT_CONNECTING | CLIENT_SECURING | CLIENT_GREETING | CLIENT_READY
  | CLIENT_WAITING

datatype mqtt_refusal = REFUSAL_NONE | REFUSAL_BAD_ADDRESS | REFUSAL_NO_TLS | REFUSAL_PROTOCOL | REFUSAL_BAD_LOGIN
  | REFUSAL_NOT_ALLOWED | REFUSAL_BROKER_BUSY | REFUSAL_OTHER

record mqtt_client_failure =
  mf_net :: inkwell_net_failure
  mf_refusal :: mqtt_refusal
  mf_code :: u8

record mqtt_client_config =
  cfg_address :: bytes
  cfg_username :: bytes
  cfg_password :: bytes
  cfg_client_id :: bytes
  cfg_tls_enabled :: bool

record mqtt_client_stats =
  ms_published :: u32
  ms_received :: u32
  ms_dropped :: u32
  ms_skipped :: u32
  ms_connections :: u32

record mqtt_client =
  mc_has_loop :: bool
  mc_state :: mqtt_client_state
  mc_config :: mqtt_client_config
  mc_host :: bytes
  mc_port :: u16
  mc_resolve :: inkwell_resolve
  mc_socket :: u64
  mc_token :: int
  mc_want_write :: bool
  mc_generation :: u64
  mc_tls :: inkwell_tls_client
  mc_ca_bundle :: bytes
  mc_in :: bytes
  mc_more_to_read :: bool
  mc_read_wants_write :: bool
  mc_skip_remaining :: nat
  mc_out :: bytes
  mc_out_sent :: nat
  mc_out_pending :: nat
  mc_filters :: "bytes list"
  mc_filter_sent :: nat
  mc_subscribe_id :: u16
  mc_now_ms :: u64
  mc_deadline_ms :: u64
  mc_next_ping_ms :: u64
  mc_last_heard_ms :: u64
  mc_retry_at_ms :: u64
  mc_failures :: u32
  mc_stats :: mqtt_client_stats
  mc_failure :: mqtt_client_failure
  mc_on_message :: "nat option"
  mc_on_state :: "nat option"
  mc_userdata :: nat

definition mqtt_username_max :: nat where "mqtt_username_max = 128"
definition mqtt_password_max :: nat where "mqtt_password_max = 128"
definition mqtt_client_id_max :: nat where "mqtt_client_id_max = 128"
definition mqtt_filters_max :: nat where "mqtt_filters_max = 16"
definition mqtt_filter_max :: nat where "mqtt_filter_max = 256"
definition mqtt_packet_max :: nat where "mqtt_packet_max = 1024"
definition mqtt_outbound_max :: nat where "mqtt_outbound_max = 4096"
definition mqtt_topic_max :: nat where "mqtt_topic_max = 256"
definition mqtt_port :: u16 where "mqtt_port = 1883"
definition mqtt_port_tls :: u16 where "mqtt_port_tls = 8883"
definition mqtt_keepalive_s :: u16 where "mqtt_keepalive_s = 60"
definition mqtt_ping_interval_ms :: u64 where "mqtt_ping_interval_ms = 30000"
definition mqtt_silence_timeout_ms :: u64 where "mqtt_silence_timeout_ms = 90000"
definition mqtt_connect_timeout_ms :: u64 where "mqtt_connect_timeout_ms = 10000"
definition mqtt_handshake_timeout_ms :: u64 where "mqtt_handshake_timeout_ms = 15000"
definition mqtt_backoff_base_ms :: u64 where "mqtt_backoff_base_ms = 5000"
definition mqtt_backoff_max_ms :: u64 where "mqtt_backoff_max_ms = 300000"
definition mqtt_reads_per_turn :: nat where "mqtt_reads_per_turn = 8"
definition mqtt_backoff_shift_max :: u32 where "mqtt_backoff_shift_max = 6"

type_synonym 'w mqtt = "mqtt_client \<times> inkwell_loop \<times> 'w"

text \<open>What a client runs on: the system, the two services, the application's callbacks, and how the loop names the client's own.\<close>

record 'w mqtt_env =
  me_host :: "'w host"
  me_backend :: "'w loop_backend"
  me_net :: "'w net_host"
  me_resolver :: "'w resolver_ops"
  me_tls :: "'w tls_ops"
  me_on_state :: "nat \<Rightarrow> nat \<Rightarrow> mqtt_client_state \<Rightarrow> 'w mqtt \<Rightarrow> 'w mqtt option"
  me_on_message :: "nat \<Rightarrow> nat \<Rightarrow> bytes \<Rightarrow> bytes \<Rightarrow> 'w mqtt \<Rightarrow> 'w mqtt option"
  me_callback :: "inkwell_loop_callback \<times> nat"

definition no_mqtt_failure :: mqtt_client_failure where
  "no_mqtt_failure = \<lparr>mf_net = no_failure, mf_refusal = REFUSAL_NONE, mf_code = 0\<rparr>"

section \<open>Failing\<close>

definition mqtt_set_state :: "'w mqtt_env \<Rightarrow> mqtt_client_state \<Rightarrow> 'w mqtt \<Rightarrow> (bool \<times> 'w mqtt) option" where
  "mqtt_set_state E state = (\<lambda>(c, L, w).
     if mc_state c = state then Some (True, c, L, w)
     else let c = c\<lparr>mc_state := state\<rparr> in
       case mc_on_state c of
         None \<Rightarrow> Some (True, c, L, w)
       | Some f \<Rightarrow> do { (c', L, w) \<leftarrow> me_on_state E f (mc_userdata c) state (c, L, w);
                        Some (mc_generation c' = mc_generation c, c', L, w) })"

definition mqtt_close :: "'w mqtt_env \<Rightarrow> 'w mqtt \<Rightarrow> 'w mqtt" where
  "mqtt_close E = (\<lambda>(c, L, w).
     let (resolve, L, w) = r_cancel (me_resolver E) (mc_resolve c) L w;
         (tls, w) = t_stop (me_tls E) (mc_tls c) w;
         (L, w) = (if mc_socket c \<noteq> socket_invalid \<and> mc_token c \<ge> 0 \<and> mc_has_loop c
                   then snd (inkwell_loop_remove_fd (me_backend E) L (mc_token c) w) else (L, w));
         w = (if mc_socket c \<noteq> socket_invalid then snd (inkwell_socket_close (me_host E) (mc_socket c) w) else w)
     in (c\<lparr>mc_resolve := resolve, mc_tls := tls, mc_socket := socket_invalid, mc_token := -1, mc_want_write := False, mc_in := [],
           mc_skip_remaining := 0, mc_more_to_read := False, mc_read_wants_write := False, mc_out := [], mc_out_sent := 0,
           mc_out_pending := 0, mc_filter_sent := 0, mc_subscribe_id := 0, mc_deadline_ms := 0, mc_next_ping_ms := 0,
           mc_last_heard_ms := 0\<rparr>, L, w))"

definition mqtt_has_failure :: "mqtt_client \<Rightarrow> bool" where
  "mqtt_has_failure c \<longleftrightarrow> inkwell_net_failed (mf_net (mc_failure c)) \<or> mf_refusal (mc_failure c) \<noteq> REFUSAL_NONE"

fun mqtt_refusal_name :: "mqtt_refusal \<Rightarrow> bytes" where
  "mqtt_refusal_name REFUSAL_BAD_ADDRESS = ascii ''bad-address''"
| "mqtt_refusal_name REFUSAL_NO_TLS = ascii ''no-tls''"
| "mqtt_refusal_name REFUSAL_PROTOCOL = ascii ''not-mqtt''"
| "mqtt_refusal_name REFUSAL_BAD_LOGIN = ascii ''bad-login''"
| "mqtt_refusal_name REFUSAL_NOT_ALLOWED = ascii ''not-allowed''"
| "mqtt_refusal_name REFUSAL_BROKER_BUSY = ascii ''broker-busy''"
| "mqtt_refusal_name REFUSAL_OTHER = ascii ''refused''"
| "mqtt_refusal_name REFUSAL_NONE = ascii ''unknown''"

definition mqtt_backoff_delay :: "u32 \<Rightarrow> u64" where
  "mqtt_backoff_delay failures =
     (let shift = (if 1 < failures then (if mqtt_backoff_shift_max < failures - 1 then mqtt_backoff_shift_max else failures - 1) else 0);
          delay = push_bit (unat shift) mqtt_backoff_base_ms
      in if mqtt_backoff_max_ms < delay then mqtt_backoff_max_ms else delay)"

definition mqtt_back_off :: "'w mqtt_env \<Rightarrow> 'w mqtt \<Rightarrow> 'w mqtt option" where
  "mqtt_back_off E s =
     (let (c, L, w) = mqtt_close E s;
          c = (if mc_failures c < - 1 then c\<lparr>mc_failures := mc_failures c + 1\<rparr> else c);
          c = c\<lparr>mc_retry_at_ms := mc_now_ms c + mqtt_backoff_delay (mc_failures c)\<rparr>
      in do { (_, s) \<leftarrow> mqtt_set_state E CLIENT_WAITING (c, L, w); Some s })"

definition mqtt_fail_net :: "'w mqtt_env \<Rightarrow> inkwell_net_reason \<Rightarrow> int \<Rightarrow> 'w mqtt \<Rightarrow> 'w mqtt option" where
  "mqtt_fail_net E reason detail = (\<lambda>(c, L, w).
     let c = (if \<not> mqtt_has_failure c
              then c\<lparr>mc_failure := (mc_failure c)\<lparr>mf_net := \<lparr>nf_reason = reason, nf_detail = detail\<rparr>\<rparr>\<rparr> else c)
     in mqtt_back_off E (c, L, w))"

definition mqtt_fail_own :: "'w mqtt_env \<Rightarrow> mqtt_refusal \<Rightarrow> u8 \<Rightarrow> 'w mqtt \<Rightarrow> 'w mqtt option" where
  "mqtt_fail_own E refusal code = (\<lambda>(c, L, w).
     let c = (if \<not> mqtt_has_failure c then c\<lparr>mc_failure := (mc_failure c)\<lparr>mf_refusal := refusal, mf_code := code\<rparr>\<rparr> else c)
     in mqtt_back_off E (c, L, w))"

definition mqtt_fail_tls :: "'w mqtt_env \<Rightarrow> 'w mqtt \<Rightarrow> 'w mqtt option" where
  "mqtt_fail_tls E = (\<lambda>(c, L, w).
     let c = (if \<not> mqtt_has_failure c
              then c\<lparr>mc_failure := (mc_failure c)\<lparr>mf_net := \<lparr>nf_reason = inkwell_tls_client_reason (mc_tls c),
                                                          nf_detail = tls_error_code (mc_tls c)\<rparr>\<rparr>\<rparr> else c)
     in mqtt_back_off E (c, L, w))"

section \<open>The descriptor\<close>

definition mqtt_arm :: "'w mqtt_env \<Rightarrow> 'w mqtt \<Rightarrow> 'w mqtt" where
  "mqtt_arm E = (\<lambda>(c, L, w).
     if mc_socket c = socket_invalid \<or> mc_token c < 0 \<or> \<not> mc_has_loop c then (c, L, w)
     else let want_write = (mc_state c = CLIENT_CONNECTING \<or> mc_out_sent c < length (mc_out c)
                 \<or> tls_state (mc_tls c) \<noteq> None \<and> (tls_wants_write (mc_tls c) \<or> mc_read_wants_write c))
       in if want_write = mc_want_write c then (c, L, w)
          else let (_, L, w) = inkwell_loop_update_fd (me_backend E) L (mc_token c) (loop_in OR (if want_write then loop_out else 0)) w
               in (c\<lparr>mc_want_write := want_write\<rparr>, L, w))"

definition mqtt_socket_result :: "errno \<Rightarrow> errno" where
  "mqtt_socket_result e = (if e = EINTR then EAGAIN else e)"

definition mqtt_raw_read :: "'w mqtt_env \<Rightarrow> mqtt_client \<Rightarrow> nat \<Rightarrow> 'w \<Rightarrow> (errno + bytes) \<times> mqtt_client \<times> 'w" where
  "mqtt_raw_read E c cap w =
     (if tls_state (mc_tls c) \<noteq> None then
        (case t_read (me_tls E) (mc_tls c) cap w of (r, tls, w) \<Rightarrow> (r, c\<lparr>mc_tls := tls\<rparr>, w))
      else case inkwell_socket_recv (me_host E) (mc_socket c) cap w of
        (Inr got, w) \<Rightarrow> (if got = [] then Inl ENOTCONN else Inr got, c, w)
      | (Inl e, w) \<Rightarrow> (Inl (mqtt_socket_result e), c, w))"

definition mqtt_raw_write :: "'w mqtt_env \<Rightarrow> mqtt_client \<Rightarrow> bytes \<Rightarrow> 'w \<Rightarrow> (errno + nat) \<times> mqtt_client \<times> 'w" where
  "mqtt_raw_write E c data w =
     (if tls_state (mc_tls c) \<noteq> None then
        (case t_write (me_tls E) (mc_tls c) data w of (r, tls, w) \<Rightarrow> (r, c\<lparr>mc_tls := tls\<rparr>, w))
      else case inkwell_socket_send (me_host E) (mc_socket c) data w of
        (Inr n, w) \<Rightarrow> (Inr n, c, w)
      | (Inl e, w) \<Rightarrow> (Inl (mqtt_socket_result e), c, w))"

section \<open>The write queue\<close>

definition mqtt_compact_out :: "mqtt_client \<Rightarrow> mqtt_client" where
  "mqtt_compact_out c =
     (if mc_out_sent c = 0 \<or> mc_out_pending c > 0 then c else c\<lparr>mc_out := drop (mc_out_sent c) (mc_out c), mc_out_sent := 0\<rparr>)"

text \<open>The loop of a flush: the error that ended it, or whether something was sent.\<close>

partial_function (option) mqtt_flush_loop :: "'w mqtt_env \<Rightarrow> bool \<Rightarrow> mqtt_client \<Rightarrow> 'w \<Rightarrow> ((errno + bool) \<times> mqtt_client \<times> 'w) option" where
  "mqtt_flush_loop E sent c w =
     (if mc_out_sent c < length (mc_out c) then
        (let chunk = (if mc_out_pending c > 0 then mc_out_pending c else length (mc_out c) - mc_out_sent c) in
         case mqtt_raw_write E c (take chunk (drop (mc_out_sent c) (mc_out c))) w of
           (Inl e, c, w) \<Rightarrow> if e = EAGAIN then Some (Inr sent, c\<lparr>mc_out_pending := chunk\<rparr>, w) else Some (Inl e, c, w)
         | (Inr written, c, w) \<Rightarrow> mqtt_flush_loop E True (c\<lparr>mc_out_pending := 0, mc_out_sent := mc_out_sent c + written\<rparr>) w)
      else Some (Inr sent, c, w))"

text \<open>After the loop: an empty queue starts over, and bytes that went out put off the next ping.\<close>

definition mqtt_flushed :: "bool \<Rightarrow> mqtt_client \<Rightarrow> mqtt_client" where
  "mqtt_flushed sent c =
     (let c = (if length (mc_out c) \<le> mc_out_sent c then c\<lparr>mc_out := [], mc_out_sent := 0, mc_out_pending := 0\<rparr> else c)
      in if sent then c\<lparr>mc_next_ping_ms := mc_now_ms c + mqtt_ping_interval_ms\<rparr> else c)"

definition mqtt_flush :: "'w mqtt_env \<Rightarrow> 'w mqtt \<Rightarrow> ((errno + unit) \<times> 'w mqtt) option" where
  "mqtt_flush E = (\<lambda>(c, L, w). do {
     (r, c, w) \<leftarrow> mqtt_flush_loop E False c w;
     case r of
       Inl e \<Rightarrow> Some (Inl e, c, L, w)
     | Inr sent \<Rightarrow> Some (Inr (), mqtt_arm E (mqtt_flushed sent c, L, w)) })"

definition mqtt_queue :: "'w mqtt_env \<Rightarrow> bytes \<Rightarrow> 'w mqtt \<Rightarrow> ((errno + unit) \<times> 'w mqtt) option" where
  "mqtt_queue E data = (\<lambda>(c, L, w).
     let c = (if mqtt_outbound_max < length (mc_out c) + length data then mqtt_compact_out c else c) in
     if mqtt_outbound_max < length (mc_out c) + length data then Some (Inl ENOSPC, c, L, w)
     else mqtt_flush E (c\<lparr>mc_out := mc_out c @ data\<rparr>, L, w))"

section \<open>Subscriptions\<close>

function mqtt_pump_subscribes :: "'w mqtt_env \<Rightarrow> mqtt_client \<Rightarrow> inkwell_loop \<Rightarrow> 'w \<Rightarrow> 'w mqtt option" where
  "mqtt_pump_subscribes E c L w =
     (if mc_state c \<noteq> CLIENT_READY \<or> mc_subscribe_id c \<noteq> 0 then Some (c, L, w)
      else if length (mc_filters c) \<le> mc_filter_sent c then Some (c, L, w)
      else let ident = of_nat (mc_filter_sent c + 1) in
        case inkwell_mqtt_encode_subscribe (mqtt_filter_max + 16) ident (Some (mc_filters c ! mc_filter_sent c)) of
          Inl _ \<Rightarrow> mqtt_pump_subscribes E (c\<lparr>mc_filter_sent := mc_filter_sent c + 1\<rparr>) L w
        | Inr (_, packet) \<Rightarrow> do {
            (queued, c, L, w) \<leftarrow> mqtt_queue E packet (c, L, w);
            case queued of
              Inl e \<Rightarrow> if e = ENOSPC then Some (c, L, w) else mqtt_fail_net E NET_CLOSED 0 (c, L, w)
            | Inr _ \<Rightarrow> Some (c\<lparr>mc_subscribe_id := ident\<rparr>, L, w) })"
  by auto
termination by (relation "measure (\<lambda>(_, c, _, _). length (mc_filters c) - mc_filter_sent c)") auto

declare mqtt_pump_subscribes.simps [simp del]

section \<open>Inbound packets\<close>

definition connack_accepted :: u8 where "connack_accepted = 0"
definition connack_unavailable :: u8 where "connack_unavailable = 3"
definition connack_bad_credentials :: u8 where "connack_bad_credentials = 4"
definition connack_not_authorised :: u8 where "connack_not_authorised = 5"
definition suback_failure :: u8 where "suback_failure = 0x80"

definition mqtt_protocol_error :: "'w mqtt_env \<Rightarrow> 'w mqtt \<Rightarrow> (bool \<times> 'w mqtt) option" where
  "mqtt_protocol_error E s = do { s \<leftarrow> mqtt_fail_own E REFUSAL_PROTOCOL 0 s; Some (False, s) }"

definition connack_refusal :: "u8 \<Rightarrow> mqtt_refusal" where
  "connack_refusal code =
     (if code = connack_bad_credentials then REFUSAL_BAD_LOGIN
      else if code = connack_not_authorised then REFUSAL_NOT_ALLOWED
      else if code = connack_unavailable then REFUSAL_BROKER_BUSY
      else REFUSAL_OTHER)"

definition mqtt_on_connack :: "'w mqtt_env \<Rightarrow> bytes \<Rightarrow> 'w mqtt \<Rightarrow> (bool \<times> 'w mqtt) option" where
  "mqtt_on_connack E body = (\<lambda>(c, L, w).
     if mc_state c \<noteq> CLIENT_GREETING then mqtt_protocol_error E (c, L, w)
     else case inkwell_mqtt_decode_connack (Some body) of
       Inl _ \<Rightarrow> mqtt_protocol_error E (c, L, w)
     | Inr (_, code) \<Rightarrow>
         if code \<noteq> connack_accepted then do { s \<leftarrow> mqtt_fail_own E (connack_refusal code) code (c, L, w); Some (False, s) }
         else let c = c\<lparr>mc_failures := 0, mc_deadline_ms := 0,
                        mc_stats := (mc_stats c)\<lparr>ms_connections := ms_connections (mc_stats c) + 1\<rparr>, mc_failure := no_mqtt_failure\<rparr>
           in do { (same, c, L, w) \<leftarrow> mqtt_set_state E CLIENT_READY (c, L, w);
                   if \<not> same then Some (False, c, L, w)
                   else do { s \<leftarrow> mqtt_pump_subscribes E (c\<lparr>mc_filter_sent := 0, mc_subscribe_id := 0\<rparr>) L w; Some (True, s) } })"

text \<open>The log line of a refused subscription reads the table at \<open>filter_sent\<close>.\<close>

definition mqtt_on_suback :: "'w mqtt_env \<Rightarrow> bytes \<Rightarrow> 'w mqtt \<Rightarrow> (bool \<times> 'w mqtt) option" where
  "mqtt_on_suback E body = (\<lambda>(c, L, w).
     case inkwell_mqtt_decode_suback (Some body) of
       Inl _ \<Rightarrow> mqtt_protocol_error E (c, L, w)
     | Inr (ident, code) \<Rightarrow>
         if ident \<noteq> mc_subscribe_id c then Some (True, c, L, w)
         else if code = suback_failure \<and> mqtt_filters_max \<le> mc_filter_sent c then None
         else do { s \<leftarrow> mqtt_pump_subscribes E (c\<lparr>mc_filter_sent := mc_filter_sent c + 1, mc_subscribe_id := 0\<rparr>) L w; Some (True, s) })"

definition mqtt_on_publish :: "'w mqtt_env \<Rightarrow> u8 \<Rightarrow> bytes \<Rightarrow> 'w mqtt \<Rightarrow> (bool \<times> 'w mqtt) option" where
  "mqtt_on_publish E flags body = (\<lambda>(c, L, w).
     case inkwell_mqtt_decode_publish flags (Some body) of
       Inl _ \<Rightarrow> mqtt_protocol_error E (c, L, w)
     | Inr m \<Rightarrow>
         (case mc_on_message c of
            None \<Rightarrow> Some (True, c, L, w)
          | Some f \<Rightarrow>
              if mqtt_topic_max \<le> length (in_topic m)
              then Some (True, c\<lparr>mc_stats := (mc_stats c)\<lparr>ms_skipped := ms_skipped (mc_stats c) + 1\<rparr>\<rparr>, L, w)
              else do { s \<leftarrow> me_on_message E f (mc_userdata c) (takeWhile (\<lambda>b. b \<noteq> NUL) (in_topic m)) (in_payload m)
                               (c\<lparr>mc_stats := (mc_stats c)\<lparr>ms_received := ms_received (mc_stats c) + 1\<rparr>\<rparr>, L, w);
                        Some (True, s) }))"

definition mqtt_handle :: "'w mqtt_env \<Rightarrow> mqtt_header \<Rightarrow> bytes \<Rightarrow> 'w mqtt \<Rightarrow> (bool \<times> 'w mqtt) option" where
  "mqtt_handle E header body s =
     (let type = hdr_type header in
      if type = MQTT_CONNACK then mqtt_on_connack E body s
      else if type = MQTT_SUBACK then mqtt_on_suback E body s
      else if type = MQTT_PUBLISH then mqtt_on_publish E (hdr_flags header) body s
      else if type \<in> {MQTT_PINGRESP, MQTT_PUBACK, MQTT_PUBREC, MQTT_PUBREL, MQTT_PUBCOMP, MQTT_UNSUBACK} then Some (True, s)
      else mqtt_protocol_error E s)"

partial_function (option) mqtt_consume_loop :: "'w mqtt_env \<Rightarrow> nat \<Rightarrow> mqtt_client \<Rightarrow> inkwell_loop \<Rightarrow> 'w \<Rightarrow> (bool \<times> 'w mqtt) option" where
  "mqtt_consume_loop E at c L w =
     (if mc_skip_remaining c > 0 then
        (let chunk = min (length (mc_in c) - at) (mc_skip_remaining c);
             at = at + chunk;
             c = c\<lparr>mc_skip_remaining := mc_skip_remaining c - chunk\<rparr>
         in if mc_skip_remaining c > 0 then Some (True, c\<lparr>mc_in := drop at (mc_in c)\<rparr>, L, w) else mqtt_consume_loop E at c L w)
      else case inkwell_mqtt_decode_header (Some (drop at (mc_in c))) of
        Inl _ \<Rightarrow> mqtt_protocol_error E (c, L, w)
      | Inr None \<Rightarrow> Some (True, c\<lparr>mc_in := drop at (mc_in c)\<rparr>, L, w)
      | Inr (Some header) \<Rightarrow>
          if mqtt_packet_max - hdr_len header < hdr_remaining header then
            mqtt_consume_loop E (at + hdr_len header)
              (c\<lparr>mc_skip_remaining := hdr_remaining header, mc_stats := (mc_stats c)\<lparr>ms_skipped := ms_skipped (mc_stats c) + 1\<rparr>\<rparr>) L w
          else if length (mc_in c) - at < hdr_len header + hdr_remaining header then Some (True, c\<lparr>mc_in := drop at (mc_in c)\<rparr>, L, w)
          else do {
            (ok, c', L, w) \<leftarrow> mqtt_handle E header (take (hdr_remaining header) (drop (at + hdr_len header) (mc_in c))) (c, L, w);
            if \<not> ok \<or> mc_generation c' \<noteq> mc_generation c \<or> mc_socket c' = socket_invalid then Some (False, c', L, w)
            else mqtt_consume_loop E (at + hdr_len header + hdr_remaining header) c' L w })"

definition mqtt_consume :: "'w mqtt_env \<Rightarrow> 'w mqtt \<Rightarrow> (bool \<times> 'w mqtt) option" where
  "mqtt_consume E = (\<lambda>(c, L, w). mqtt_consume_loop E 0 c L w)"

text \<open>The turns that are left.\<close>

fun mqtt_read_loop :: "'w mqtt_env \<Rightarrow> nat \<Rightarrow> 'w mqtt \<Rightarrow> 'w mqtt option" where
  "mqtt_read_loop E 0 (c, L, w) = Some (c\<lparr>mc_more_to_read := True\<rparr>, L, w)"
| "mqtt_read_loop E (Suc turns) (c, L, w) =
     (if mqtt_packet_max \<le> length (mc_in c) then Some (c\<lparr>mc_more_to_read := True\<rparr>, L, w)
      else case mqtt_raw_read E c (mqtt_packet_max - length (mc_in c)) w of
        (Inl e, c, w) \<Rightarrow>
          if e = EAGAIN then
            (if tls_state (mc_tls c) \<noteq> None \<and> tls_more_to_read (mc_tls c) then Some (c\<lparr>mc_more_to_read := True\<rparr>, L, w)
             else Some (mqtt_arm E (c\<lparr>mc_read_wants_write := (tls_state (mc_tls c) \<noteq> None \<and> tls_wants_write (mc_tls c))\<rparr>, L, w)))
          else if e = ENOTCONN \<or> e = ECONNRESET then mqtt_fail_net E NET_CLOSED 0 (c, L, w)
          else if tls_state (mc_tls c) \<noteq> None then mqtt_fail_tls E (c, L, w)
          else mqtt_fail_net E (inkwell_net_reason_from_errno (- errno_number e)) (- errno_number e) (c, L, w)
      | (Inr got, c, w) \<Rightarrow> do {
          (ok, s) \<leftarrow> mqtt_consume E (c\<lparr>mc_in := mc_in c @ got, mc_last_heard_ms := mc_now_ms c\<rparr>, L, w);
          if \<not> ok then Some s else mqtt_read_loop E turns s })"

definition mqtt_read_ready :: "'w mqtt_env \<Rightarrow> 'w mqtt \<Rightarrow> 'w mqtt option" where
  "mqtt_read_ready E = (\<lambda>(c, L, w).
     mqtt_read_loop E mqtt_reads_per_turn (c\<lparr>mc_more_to_read := False, mc_read_wants_write := False\<rparr>, L, w))"

section \<open>Getting connected\<close>

definition mqtt_send_connect :: "'w mqtt_env \<Rightarrow> 'w mqtt \<Rightarrow> 'w mqtt option" where
  "mqtt_send_connect E = (\<lambda>(c, L, w).
     let cfg = mc_config c;
         params = \<lparr>con_client_id = Some (cfg_client_id cfg),
                   con_username = (if cfg_username cfg \<noteq> [] then Some (cfg_username cfg) else None),
                   con_password = (if cfg_password cfg \<noteq> [] then Some (cfg_password cfg) else None),
                   con_keepalive_s = mqtt_keepalive_s, con_clean_session = True\<rparr>
     in case inkwell_mqtt_encode_connect (mqtt_client_id_max + mqtt_username_max + mqtt_password_max + 32) (Some params) of
          Inl _ \<Rightarrow> mqtt_fail_own E REFUSAL_BAD_ADDRESS 0 (c, L, w)
        | Inr (_, packet) \<Rightarrow> do {
            (queued, c, L, w) \<leftarrow> mqtt_queue E packet (c, L, w);
            if isl queued then mqtt_fail_net E (inkwell_net_reason_from_errno (errno_number ENOBUFS)) (- errno_number ENOBUFS) (c, L, w)
            else do { (_, s) \<leftarrow> mqtt_set_state E CLIENT_GREETING
                        (c\<lparr>mc_deadline_ms := mc_now_ms c + mqtt_handshake_timeout_ms, mc_last_heard_ms := mc_now_ms c\<rparr>, L, w);
                      Some s } })"

definition mqtt_secure :: "'w mqtt_env \<Rightarrow> 'w mqtt \<Rightarrow> 'w mqtt option" where
  "mqtt_secure E = (\<lambda>(c, L, w).
     case t_handshake (me_tls E) (mc_tls c) w of
       (Inl e, tls, w) \<Rightarrow>
         if e = EAGAIN then Some (mqtt_arm E (c\<lparr>mc_tls := tls\<rparr>, L, w)) else mqtt_fail_tls E (c\<lparr>mc_tls := tls\<rparr>, L, w)
     | (Inr _, tls, w) \<Rightarrow> mqtt_send_connect E (c\<lparr>mc_tls := tls\<rparr>, L, w))"

definition mqtt_finish_connect :: "'w mqtt_env \<Rightarrow> 'w mqtt \<Rightarrow> 'w mqtt option" where
  "mqtt_finish_connect E = (\<lambda>(c, L, w).
     case inkwell_socket_pending_error (me_net E) (mc_socket c) w of
       (Inl e, w) \<Rightarrow> mqtt_fail_net E (inkwell_net_reason_from_errno (errno_number e)) (- errno_number e) (c, L, w)
     | (Inr _, w) \<Rightarrow>
         if \<not> cfg_tls_enabled (mc_config c) then mqtt_send_connect E (c, L, w)
         else case t_start (me_tls E) (mc_tls c) (mc_socket c) (mc_host c) (mc_ca_bundle c) w of
           (Inl e, tls, w) \<Rightarrow>
             if e = ENOTSUP then mqtt_fail_own E REFUSAL_NO_TLS 0 (c\<lparr>mc_tls := tls\<rparr>, L, w) else mqtt_fail_tls E (c\<lparr>mc_tls := tls\<rparr>, L, w)
         | (Inr _, tls, w) \<Rightarrow> do {
             (same, s) \<leftarrow> mqtt_set_state E CLIENT_SECURING
                (c\<lparr>mc_tls := tls, mc_deadline_ms := mc_now_ms c + mqtt_handshake_timeout_ms\<rparr>, L, w);
             if \<not> same then Some s else mqtt_secure E s })"

definition mqtt_fd_callback :: "'w mqtt_env \<Rightarrow> u32 \<Rightarrow> 'w mqtt \<Rightarrow> 'w mqtt option" where
  "mqtt_fd_callback E events = (\<lambda>(c, L, w).
     if mc_socket c = socket_invalid then Some (c, L, w)
     else if mc_state c = CLIENT_CONNECTING then
       (if events AND (loop_out OR loop_err OR loop_hup) \<noteq> 0 then mqtt_finish_connect E (c, L, w) else Some (c, L, w))
     else if events AND (loop_err OR loop_hup) \<noteq> 0 then mqtt_fail_net E NET_CLOSED 0 (c, L, w)
     else if mc_state c = CLIENT_SECURING then mqtt_secure E (c, L, w)
     else
       let writable = (events AND loop_out \<noteq> 0);
           read_now = (events AND loop_in \<noteq> 0 \<or> writable \<and> mc_read_wants_write c)
       in do {
         (flushed, c, L, w) \<leftarrow> (if writable then mqtt_flush E (c, L, w) else Some (Inr (), c, L, w));
         if isl flushed then mqtt_fail_net E NET_CLOSED 0 (c, L, w)
         else if read_now \<and> mc_socket c \<noteq> socket_invalid then mqtt_read_ready E (c, L, w)
         else Some (c, L, w) })"

definition mqtt_open :: "'w mqtt_env \<Rightarrow> bytes \<Rightarrow> 'w mqtt \<Rightarrow> 'w mqtt option" where
  "mqtt_open E address = (\<lambda>(c, L, w).
     case inkwell_socket_open (me_net E) (ss_family address) sock_stream 0 w of
       (Inl e, w) \<Rightarrow> mqtt_fail_net E (inkwell_net_reason_from_errno (errno_number e)) (- errno_number e) (c, L, w)
     | (Inr sock, w) \<Rightarrow>
         let w = snd (inkwell_socket_set_option (me_net E) sock SOCKET_NO_DELAY 1 w) in
         case inkwell_loop_watch_socket (me_backend E) L sock (loop_in OR loop_out) (fst (me_callback E)) (snd (me_callback E)) w of
           (Inl e, L, w) \<Rightarrow>
             let w = snd (inkwell_socket_close (me_host E) sock w)
             in mqtt_fail_net E (inkwell_net_reason_from_errno (errno_number e)) (- errno_number e) (c, L, w)
         | (Inr token, L, w) \<Rightarrow>
             let c = c\<lparr>mc_socket := sock, mc_token := token, mc_want_write := True\<rparr> in
             case inkwell_socket_connect (me_net E) sock address w of
               (r, w) \<Rightarrow>
                 if r \<noteq> Inr () \<and> r \<noteq> Inl EINPROGRESS then
                   (let e = projl r in
                    mqtt_fail_net E (inkwell_net_reason_from_errno (errno_number e)) (- errno_number e) (c, L, w))
                 else do { (_, s) \<leftarrow> mqtt_set_state E CLIENT_CONNECTING
                             (c\<lparr>mc_deadline_ms := mc_now_ms c + mqtt_connect_timeout_ms\<rparr>, L, w);
                           Some s })"

definition mqtt_on_resolved :: "'w mqtt_env \<Rightarrow> inkwell_resolve_result \<Rightarrow> 'w mqtt \<Rightarrow> 'w mqtt option" where
  "mqtt_on_resolved E result = (\<lambda>(c, L, w).
     if mc_state c \<noteq> CLIENT_RESOLVING then Some (c, L, w)
     else if rr_outcome result = RESOLVE_OK then mqtt_open E (rr_address result) (c, L, w)
     else mqtt_fail_net E (inkwell_net_reason_from_resolve (rr_outcome result)) (rr_gai_error result) (c, L, w))"

definition mqtt_attempt :: "'w mqtt_env \<Rightarrow> 'w mqtt \<Rightarrow> 'w mqtt option" where
  "mqtt_attempt E = (\<lambda>(c, L, w).
     let c = c\<lparr>mc_failure := no_mqtt_failure\<rparr> in
     case inkwell_socket_parse_literal (me_net E) (mc_host c) (mc_port c) of
       Some address \<Rightarrow> mqtt_open E address (c, L, w)
     | None \<Rightarrow>
         (case r_start (me_resolver E) (mc_resolve c) L (mc_host c) (mc_port c) (mc_now_ms c) w of
            (Inl e, resolve, L, w) \<Rightarrow> mqtt_fail_net E NET_LOOKUP_FAILED (- errno_number e) (c\<lparr>mc_resolve := resolve\<rparr>, L, w)
          | (Inr _, resolve, L, w) \<Rightarrow> do {
              (_, s) \<leftarrow> mqtt_set_state E CLIENT_RESOLVING (c\<lparr>mc_resolve := resolve, mc_deadline_ms := 0\<rparr>, L, w); Some s }))"

section \<open>The public face\<close>

definition no_config :: mqtt_client_config where
  "no_config = \<lparr>cfg_address = [], cfg_username = [], cfg_password = [], cfg_client_id = [], cfg_tls_enabled = False\<rparr>"

definition no_stats :: mqtt_client_stats where
  "no_stats = \<lparr>ms_published = 0, ms_received = 0, ms_dropped = 0, ms_skipped = 0, ms_connections = 0\<rparr>"

definition inkwell_mqtt_client_init :: "bool \<Rightarrow> mqtt_client" where
  "inkwell_mqtt_client_init has_loop =
     \<lparr>mc_has_loop = has_loop, mc_state = CLIENT_OFF, mc_config = no_config, mc_host = [], mc_port = 0,
      mc_resolve = inkwell_resolve_init has_loop, mc_socket = socket_invalid, mc_token = -1, mc_want_write = False, mc_generation = 0,
      mc_tls = no_tls_client, mc_ca_bundle = [], mc_in = [], mc_more_to_read = False, mc_read_wants_write = False,
      mc_skip_remaining = 0, mc_out = [], mc_out_sent = 0, mc_out_pending = 0, mc_filters = [], mc_filter_sent = 0,
      mc_subscribe_id = 0, mc_now_ms = 0, mc_deadline_ms = 0, mc_next_ping_ms = 0, mc_last_heard_ms = 0, mc_retry_at_ms = 0,
      mc_failures = 0, mc_stats = no_stats, mc_failure = no_mqtt_failure, mc_on_message = None, mc_on_state = None, mc_userdata = 0\<rparr>"

definition inkwell_mqtt_client_shutdown :: "'w mqtt_env \<Rightarrow> 'w mqtt \<Rightarrow> 'w mqtt" where
  "inkwell_mqtt_client_shutdown E = (\<lambda>(c, L, w).
     let (c, L, w) = mqtt_close E (c\<lparr>mc_generation := mc_generation c + 1\<rparr>, L, w);
         (resolve, L, w) = r_cancel (me_resolver E) (mc_resolve c) L w
     in (c\<lparr>mc_resolve := resolve, mc_state := CLIENT_OFF\<rparr>, L, w))"

definition inkwell_mqtt_client_set_ca_bundle :: "bytes option \<Rightarrow> mqtt_client \<Rightarrow> mqtt_client" where
  "inkwell_mqtt_client_set_ca_bundle path c =
     c\<lparr>mc_ca_bundle := (case path of None \<Rightarrow> [] | Some p \<Rightarrow> the (snd (inkwell_str_copy 256 (Some p))))\<rparr>"

definition inkwell_mqtt_client_start ::
  "'w mqtt_env \<Rightarrow> mqtt_client_config option \<Rightarrow> nat option \<Rightarrow> nat option \<Rightarrow> nat \<Rightarrow> u64 \<Rightarrow> 'w mqtt \<Rightarrow> ((errno + unit) \<times> 'w mqtt) option" where
  "inkwell_mqtt_client_start E config on_message on_state userdata now_ms = (\<lambda>(c, L, w).
     case config of
       None \<Rightarrow> Some (Inl EINVAL, c, L, w)
     | Some config \<Rightarrow>
         if \<not> mc_has_loop c then Some (Inl ENOTSUP, c, L, w)
         else if cfg_address config = [] \<or> cfg_client_id config = [] then Some (Inl EINVAL, c, L, w)
         else case inkwell_mqtt_target_split (Some (cfg_address config)) mqtt_address_max of
           Inl _ \<Rightarrow> Some (Inl EINVAL, c, L, w)
         | Inr (host, port) \<Rightarrow>
             let (c, L, w) = mqtt_close E (c\<lparr>mc_generation := mc_generation c + 1\<rparr>, L, w);
                 c = c\<lparr>mc_now_ms := now_ms, mc_config := config, mc_on_message := on_message, mc_on_state := on_state,
                       mc_userdata := userdata, mc_failures := 0, mc_retry_at_ms := 0, mc_failure := no_mqtt_failure,
                       mc_host := the (snd (inkwell_str_copy mqtt_address_max (Some host))),
                       mc_port := (if port = 0 then (if cfg_tls_enabled config then mqtt_port_tls else mqtt_port) else port)\<rparr>
             in do { s \<leftarrow> mqtt_attempt E (c, L, w); Some (Inr (), s) })"

definition inkwell_mqtt_client_stop :: "'w mqtt_env \<Rightarrow> 'w mqtt \<Rightarrow> 'w mqtt option" where
  "inkwell_mqtt_client_stop E = (\<lambda>(c, L, w).
     if mc_state c = CLIENT_OFF then Some (c, L, w)
     else let (c, w) = (if mc_state c = CLIENT_READY then
                          (case inkwell_mqtt_encode_empty 2 MQTT_DISCONNECT of
                             Inl _ \<Rightarrow> (c, w)
                           | Inr (_, packet) \<Rightarrow> snd (mqtt_raw_write E c packet w))
                        else (c, w));
              (c, L, w) = mqtt_close E (c\<lparr>mc_generation := mc_generation c + 1\<rparr>, L, w)
          in do { (_, s) \<leftarrow> mqtt_set_state E CLIENT_OFF (c\<lparr>mc_failure := no_mqtt_failure, mc_failures := 0, mc_retry_at_ms := 0\<rparr>, L, w);
                  Some s })"

definition inkwell_mqtt_client_subscribe :: "'w mqtt_env \<Rightarrow> bytes option \<Rightarrow> 'w mqtt \<Rightarrow> ((errno + unit) \<times> 'w mqtt) option" where
  "inkwell_mqtt_client_subscribe E topic_filter = (\<lambda>(c, L, w).
     case topic_filter of
       None \<Rightarrow> Some (Inl EINVAL, c, L, w)
     | Some f \<Rightarrow>
         if f = [] \<or> mqtt_filter_max \<le> length f then Some (Inl EINVAL, c, L, w)
         else if f \<in> set (mc_filters c) then Some (Inl EEXIST, c, L, w)
         else if mqtt_filters_max \<le> length (mc_filters c) then Some (Inl ENOSPC, c, L, w)
         else do { s \<leftarrow> mqtt_pump_subscribes E (c\<lparr>mc_filters := mc_filters c @ [f]\<rparr>) L w; Some (Inr (), s) })"

definition inkwell_mqtt_client_clear_filters :: "mqtt_client \<Rightarrow> mqtt_client" where
  "inkwell_mqtt_client_clear_filters c = c\<lparr>mc_filters := [], mc_filter_sent := 0, mc_subscribe_id := 0\<rparr>"

definition mqtt_drop :: "mqtt_client \<Rightarrow> mqtt_client" where
  "mqtt_drop c = c\<lparr>mc_stats := (mc_stats c)\<lparr>ms_dropped := ms_dropped (mc_stats c) + 1\<rparr>\<rparr>"

definition inkwell_mqtt_client_publish ::
  "'w mqtt_env \<Rightarrow> bytes option \<Rightarrow> bytes option \<Rightarrow> bool \<Rightarrow> 'w mqtt \<Rightarrow> ((errno + unit) \<times> 'w mqtt) option" where
  "inkwell_mqtt_client_publish E topic payload retained = (\<lambda>(c, L, w).
     if topic = None then Some (Inl EINVAL, c, L, w)
     else if mc_state c \<noteq> CLIENT_READY then Some (Inl ENOTCONN, mqtt_drop c, L, w)
     else if \<not> inkwell_mqtt_topic_is_publishable topic then Some (Inl EINVAL, mqtt_drop c, L, w)
     else case inkwell_mqtt_encode_publish mqtt_packet_max topic payload retained of
       Inl e \<Rightarrow> Some (Inl (if e = ENOSPC then EMSGSIZE else e), mqtt_drop c, L, w)
     | Inr (_, packet) \<Rightarrow> do {
         (queued, c, L, w) \<leftarrow> mqtt_queue E packet (c, L, w);
         case queued of
           Inl e \<Rightarrow>
             if e = ENOSPC then Some (Inl e, mqtt_drop c, L, w)
             else do { s \<leftarrow> mqtt_fail_net E NET_CLOSED 0 (mqtt_drop c, L, w); Some (Inl e, s) }
         | Inr _ \<Rightarrow> Some (Inr (), c\<lparr>mc_stats := (mc_stats c)\<lparr>ms_published := ms_published (mc_stats c) + 1\<rparr>\<rparr>, L, w) })"

text \<open>The completion of a lookup that a call of the resolver finished, if it did.\<close>

definition mqtt_resolved :: "'w mqtt_env \<Rightarrow> inkwell_resolve_result option \<Rightarrow> 'w mqtt \<Rightarrow> 'w mqtt option" where
  "mqtt_resolved E result s = (case result of None \<Rightarrow> Some s | Some r \<Rightarrow> mqtt_on_resolved E r s)"

definition mqtt_resolve_output :: "'w mqtt_env \<Rightarrow> u32 \<Rightarrow> 'w mqtt \<Rightarrow> 'w mqtt option" where
  "mqtt_resolve_output E events = (\<lambda>(c, L, w). do {
     (result, resolve, L, w) \<leftarrow> r_on_output (me_resolver E) (mc_resolve c) L events w;
     mqtt_resolved E result (c\<lparr>mc_resolve := resolve\<rparr>, L, w) })"

definition mqtt_resolve_tick :: "'w mqtt_env \<Rightarrow> u64 \<Rightarrow> 'w mqtt \<Rightarrow> 'w mqtt option" where
  "mqtt_resolve_tick E now_ms = (\<lambda>(c, L, w). do {
     (result, resolve, L, w) \<leftarrow> r_tick (me_resolver E) (mc_resolve c) L w;
     (c, L, w) \<leftarrow> mqtt_resolved E result (c\<lparr>mc_resolve := resolve\<rparr>, L, w);
     let (result, resolve, L, w) = r_tick_deadline (me_resolver E) (mc_resolve c) L now_ms w;
     mqtt_resolved E result (c\<lparr>mc_resolve := resolve\<rparr>, L, w) })"

text \<open>A tick of a client that is ready: the silence of the broker, then the keepalive.\<close>

definition mqtt_tick_ready :: "'w mqtt_env \<Rightarrow> u64 \<Rightarrow> 'w mqtt \<Rightarrow> 'w mqtt option" where
  "mqtt_tick_ready E now_ms = (\<lambda>(c, L, w).
     if mc_last_heard_ms c \<noteq> 0 \<and> mc_last_heard_ms c < now_ms \<and> mqtt_silence_timeout_ms < now_ms - mc_last_heard_ms c
     then mqtt_fail_net E NET_TIMED_OUT 0 (c, L, w)
     else if mc_next_ping_ms c \<noteq> 0 \<and> mc_next_ping_ms c \<le> now_ms then
       (case inkwell_mqtt_encode_empty 2 MQTT_PINGREQ of
          Inl _ \<Rightarrow> Some (c, L, w)
        | Inr (_, packet) \<Rightarrow> do {
            (queued, c, L, w) \<leftarrow> mqtt_queue E packet (c, L, w);
            if isl queued then mqtt_fail_net E NET_CLOSED 0 (c, L, w)
            else Some (c\<lparr>mc_next_ping_ms := now_ms + mqtt_ping_interval_ms\<rparr>, L, w) })
     else Some (c, L, w))"

definition inkwell_mqtt_client_tick :: "'w mqtt_env \<Rightarrow> u64 \<Rightarrow> 'w mqtt \<Rightarrow> 'w mqtt option" where
  "inkwell_mqtt_client_tick E now_ms = (\<lambda>(c, L, w). do {
     (c, L, w) \<leftarrow> mqtt_resolve_tick E now_ms (c\<lparr>mc_now_ms := now_ms\<rparr>, L, w);
     if mc_state c = CLIENT_OFF then Some (c, L, w)
     else if mc_state c = CLIENT_WAITING then (if mc_retry_at_ms c \<le> now_ms then mqtt_attempt E (c, L, w) else Some (c, L, w))
     else if mc_deadline_ms c \<noteq> 0 \<and> mc_deadline_ms c \<le> now_ms then mqtt_fail_net E NET_TIMED_OUT 0 (c, L, w)
     else do {
       (c, L, w) \<leftarrow> (if mc_more_to_read c \<and> (mc_state c = CLIENT_GREETING \<or> mc_state c = CLIENT_READY)
                     then mqtt_read_ready E (c, L, w) else Some (c, L, w));
       if mc_state c \<noteq> CLIENT_READY then Some (c, L, w) else mqtt_tick_ready E now_ms (c, L, w) } })"

definition inkwell_mqtt_client_is_ready :: "mqtt_client \<Rightarrow> bool" where
  "inkwell_mqtt_client_is_ready c \<longleftrightarrow> mc_state c = CLIENT_READY"

definition inkwell_mqtt_client_failure_name :: "mqtt_client_failure option \<Rightarrow> bytes" where
  "inkwell_mqtt_client_failure_name failure =
     (case failure of
        None \<Rightarrow> ascii ''none''
      | Some f \<Rightarrow>
          if mf_refusal f \<noteq> REFUSAL_NONE then mqtt_refusal_name (mf_refusal f)
          else if nf_reason (mf_net f) = NET_OK then ascii ''none''
          else inkwell_net_reason_name (nf_reason (mf_net f)))"

end
