(* ===== verification/Mqtt_Inv.thy ===== *)
theory Mqtt_Inv
  imports Mqtt_Client
begin

text \<open>
  What is true of an MQTT client at every moment a caller or a callback can look at it (\<open>mqtt_inv\<close>). The interface
  \<open>mqtt_services\<close> is what the client relies on: counts of the transport that fit the request, a TLS session that is gone after
  \<open>stop\<close>, and callbacks that leave the client in a state of this kind and do not touch the inbound buffer of a
  connection that survives them (\<open>mqtt_rely\<close>). Then what writing and failing do to a client: writing changes only the
  outbound queue (\<open>io_step\<close>), and a failure leaves no connection of this generation (\<open>mqtt_gone\<close>).
\<close>

section \<open>The invariant\<close>

definition mqtt_conn :: "mqtt_client \<Rightarrow> bool" where
  "mqtt_conn c \<longleftrightarrow> mc_socket c \<noteq> socket_invalid \<and> 0 \<le> mc_token c \<and> mc_has_loop c"

definition mqtt_closed :: "mqtt_client \<Rightarrow> bool" where
  "mqtt_closed c \<longleftrightarrow> mc_socket c = socket_invalid \<and> mc_token c = -1 \<and> \<not> mc_want_write c \<and> mc_in c = [] \<and> mc_skip_remaining c = 0
     \<and> \<not> mc_more_to_read c \<and> \<not> mc_read_wants_write c \<and> mc_out c = [] \<and> mc_out_sent c = 0 \<and> mc_out_pending c = 0
     \<and> mc_filter_sent c = 0 \<and> mc_subscribe_id c = 0 \<and> mc_deadline_ms c = 0 \<and> mc_next_ping_ms c = 0 \<and> mc_last_heard_ms c = 0
     \<and> tls_state (mc_tls c) = None"

definition out_wf :: "mqtt_client \<Rightarrow> bool" where
  "out_wf c \<longleftrightarrow> length (mc_out c) \<le> mqtt_outbound_max \<and> mc_out_sent c \<le> length (mc_out c)
     \<and> mc_out_pending c \<le> length (mc_out c) - mc_out_sent c"

definition filters_wf :: "mqtt_client \<Rightarrow> bool" where
  "filters_wf c \<longleftrightarrow> length (mc_filters c) \<le> mqtt_filters_max \<and> distinct (mc_filters c)
     \<and> (\<forall>f \<in> set (mc_filters c). f \<noteq> [] \<and> length f < mqtt_filter_max)"

text \<open>Of the two halves of a failure at most one is set.\<close>

definition failure_wf :: "mqtt_client \<Rightarrow> bool" where
  "failure_wf c \<longleftrightarrow> \<not> (inkwell_net_failed (mf_net (mc_failure c)) \<and> mf_refusal (mc_failure c) \<noteq> REFUSAL_NONE)"

text \<open>Times below this bound have deadlines that do not wrap.\<close>

definition time_max :: u64 where "time_max = 0x8000000000000000"

definition mqtt_wf :: "mqtt_client \<Rightarrow> bool" where
  "mqtt_wf c \<longleftrightarrow> length (mc_in c) \<le> mqtt_packet_max \<and> out_wf c \<and> filters_wf c \<and> failure_wf c \<and> mc_now_ms c \<le> time_max"

definition mqtt_inv :: "mqtt_client \<Rightarrow> bool" where
  "mqtt_inv c \<longleftrightarrow> mqtt_wf c
     \<and> (case mc_state c of
          CLIENT_OFF \<Rightarrow> mqtt_closed c
        | CLIENT_RESOLVING \<Rightarrow> mqtt_closed c \<and> mc_has_loop c
        | CLIENT_WAITING \<Rightarrow> mqtt_closed c \<and> mc_has_loop c \<and> mqtt_has_failure c \<and> 0 < mc_failures c
        | CLIENT_READY \<Rightarrow> mqtt_conn c \<and> mc_deadline_ms c = 0
        | _ \<Rightarrow> mqtt_conn c \<and> 0 < mc_deadline_ms c)"

text \<open>What a callback may have done to a client.\<close>

definition mqtt_rely :: "mqtt_client \<Rightarrow> mqtt_client \<Rightarrow> bool" where
  "mqtt_rely c c' \<longleftrightarrow> mqtt_inv c' \<and> mc_has_loop c' = mc_has_loop c
     \<and> (mc_generation c' = mc_generation c \<longrightarrow> mc_socket c' \<noteq> socket_invalid \<longrightarrow>
          mc_socket c' = mc_socket c \<and> mc_in c' = mc_in c \<and> mc_skip_remaining c' = mc_skip_remaining c \<and> mc_more_to_read c' = mc_more_to_read c)
     \<and> (mc_generation c' \<noteq> mc_generation c \<longrightarrow> length (mc_in c') < mqtt_packet_max)"

locale mqtt_services = tls_service "me_tls E" for E :: "'w mqtt_env" +
  assumes recv_len: "h_recv (me_host E) fd n w = (Inr got, w') \<Longrightarrow> length got \<le> n"
    and send_len: "h_send (me_host E) fd data w = (Inr k, w') \<Longrightarrow> k \<le> length data"
    and on_state: "me_on_state E f u st (c, L, w) = Some (c', L', w') \<Longrightarrow> mqtt_inv c \<Longrightarrow> mqtt_rely c c'"
    and on_message: "me_on_message E f u topic payload (c, L, w) = Some (c', L', w') \<Longrightarrow> mqtt_inv c \<Longrightarrow> mqtt_rely c c'"

lemma mqtt_inv_wf: "mqtt_inv c \<Longrightarrow> mqtt_wf c"
  by (simp add: mqtt_inv_def)

lemma mqtt_inv_conn: "mqtt_inv c \<Longrightarrow> mc_socket c \<noteq> socket_invalid \<Longrightarrow> mqtt_conn c"
  by (auto simp: mqtt_inv_def mqtt_closed_def split: mqtt_client_state.splits)

lemma mqtt_inv_closed: "mqtt_inv c \<Longrightarrow> mc_socket c = socket_invalid \<Longrightarrow> mqtt_closed c"
  by (auto simp: mqtt_inv_def mqtt_conn_def split: mqtt_client_state.splits)

lemma mqtt_rely_refl: "mqtt_inv c \<Longrightarrow> mqtt_rely c c"
  by (simp add: mqtt_rely_def)

lemma mqtt_rely_trans: "mqtt_rely c1 c2 \<Longrightarrow> mc_generation c2 = mc_generation c1 \<Longrightarrow> mqtt_rely c2 c3 \<Longrightarrow> mqtt_rely c1 c3"
  by (auto simp: mqtt_rely_def)

lemma mqtt_rely_quiet:
  assumes "mqtt_rely c c'" "length (mc_in c) < mqtt_packet_max"
  shows "length (mc_in c') < mqtt_packet_max"
proof (cases "mc_generation c' = mc_generation c \<and> mc_socket c' \<noteq> socket_invalid")
  case True
  then show ?thesis using assms by (simp add: mqtt_rely_def)
next
  case False
  then show ?thesis using assms mqtt_inv_closed [of c'] by (auto simp: mqtt_rely_def mqtt_closed_def mqtt_packet_max_def)
qed

text \<open>Two clients that differ only in what writing changes.\<close>

definition io_strip :: "mqtt_client \<Rightarrow> mqtt_client" where
  "io_strip c = c\<lparr>mc_out := [], mc_out_sent := 0, mc_out_pending := 0, mc_tls := no_tls_client, mc_want_write := False, mc_next_ping_ms := 0\<rparr>"

definition io_step :: "mqtt_client \<Rightarrow> mqtt_client \<Rightarrow> bool" where
  "io_step c c' \<longleftrightarrow> out_wf c' \<and> io_strip c' = io_strip c"

lemma io_step_refl: "out_wf c \<Longrightarrow> io_step c c"
  by (simp add: io_step_def)

lemma io_step_trans: "io_step c1 c2 \<Longrightarrow> io_step c2 c3 \<Longrightarrow> io_step c1 c3"
  by (simp add: io_step_def)

lemma io_step_keeps:
  assumes "io_step c c'"
  shows "mc_state c' = mc_state c" "mc_socket c' = mc_socket c" "mc_token c' = mc_token c" "mc_has_loop c' = mc_has_loop c"
    "mc_in c' = mc_in c" "mc_skip_remaining c' = mc_skip_remaining c" "mc_more_to_read c' = mc_more_to_read c"
    "mc_generation c' = mc_generation c" "mc_filters c' = mc_filters c" "mc_failure c' = mc_failure c" "mc_now_ms c' = mc_now_ms c"
    "mc_deadline_ms c' = mc_deadline_ms c" "mc_failures c' = mc_failures c" "mc_filter_sent c' = mc_filter_sent c"
    "mc_subscribe_id c' = mc_subscribe_id c" "mc_config c' = mc_config c" "mc_stats c' = mc_stats c" "out_wf c'"
proof -
  have strip: "f (io_strip c') = f (io_strip c)" for f :: "mqtt_client \<Rightarrow> 'a" using assms by (simp add: io_step_def)
  show "mc_state c' = mc_state c" "mc_socket c' = mc_socket c" "mc_token c' = mc_token c" "mc_has_loop c' = mc_has_loop c"
    "mc_in c' = mc_in c" "mc_skip_remaining c' = mc_skip_remaining c" "mc_more_to_read c' = mc_more_to_read c"
    "mc_generation c' = mc_generation c" "mc_filters c' = mc_filters c" "mc_failure c' = mc_failure c" "mc_now_ms c' = mc_now_ms c"
    "mc_deadline_ms c' = mc_deadline_ms c" "mc_failures c' = mc_failures c" "mc_filter_sent c' = mc_filter_sent c"
    "mc_subscribe_id c' = mc_subscribe_id c" "mc_config c' = mc_config c" "mc_stats c' = mc_stats c"
    using strip [of mc_state] strip [of mc_socket] strip [of mc_token] strip [of mc_has_loop] strip [of mc_in] strip [of mc_skip_remaining]
      strip [of mc_more_to_read] strip [of mc_generation] strip [of mc_filters] strip [of mc_failure] strip [of mc_now_ms]
      strip [of mc_deadline_ms] strip [of mc_failures] strip [of mc_filter_sent] strip [of mc_subscribe_id] strip [of mc_config]
      strip [of mc_stats]
    by (simp_all add: io_strip_def)
  show "out_wf c'" using assms by (simp add: io_step_def)
qed

lemma io_step_wf: "io_step c c' \<Longrightarrow> mqtt_wf c \<Longrightarrow> mqtt_wf c'"
  by (simp add: mqtt_wf_def filters_wf_def failure_wf_def io_step_keeps)

lemma io_step_inv:
  assumes "io_step c c'" "mqtt_inv c" "mc_socket c \<noteq> socket_invalid"
  shows "mqtt_inv c'"
proof -
  have "mqtt_conn c" "mqtt_wf c'" "mqtt_conn c'"
    using assms mqtt_inv_conn [OF assms(2,3)] io_step_wf [OF assms(1)] by (simp_all add: mqtt_inv_wf mqtt_conn_def io_step_keeps)
  then show ?thesis
    using assms(2) by (cases "mc_state c") (simp_all add: mqtt_inv_def mqtt_conn_def mqtt_closed_def io_step_keeps [OF assms(1)])
qed

lemma io_step_rely: "io_step c c' \<Longrightarrow> mqtt_inv c \<Longrightarrow> mc_socket c \<noteq> socket_invalid \<Longrightarrow> mqtt_rely c c'"
  by (simp add: mqtt_rely_def io_step_inv io_step_keeps)

section \<open>Writing\<close>

lemma mqtt_arm_step: "mqtt_arm E (c, L, w) = (c', L', w') \<Longrightarrow> out_wf c \<Longrightarrow> io_step c c'"
  by (auto simp: mqtt_arm_def Let_def out_wf_def io_step_def io_strip_def split: if_splits prod.splits)

context mqtt_services
begin

lemma raw_write_step:
  assumes "mqtt_raw_write E c data w = (r, c', w')"
  shows "\<exists>t. c' = c\<lparr>mc_tls := t\<rparr>" "r = Inr k \<Longrightarrow> k \<le> length data"
proof -
  show "\<exists>t. c' = c\<lparr>mc_tls := t\<rparr>"
    using assms by (auto simp: mqtt_raw_write_def split: if_splits prod.splits sum.splits intro: exI [of _ "mc_tls c"])
  have "min (length data) int_max \<le> length data" by simp
  then show "r = Inr k \<Longrightarrow> k \<le> length data"
    using assms tls_write_len send_len [of _ "take int_max data"]
    by (fastforce simp: mqtt_raw_write_def inkwell_socket_send_def split: if_splits prod.splits sum.splits)
qed

lemma mqtt_flush_loop_step:
  assumes "mqtt_flush_loop E sent c w = Some (r, c', w')" "out_wf c"
  shows "io_step c c'"
proof -
  have "E = E \<longrightarrow> out_wf c \<longrightarrow> io_step c (fst (snd (r, c', w')))"
    using assms(1)
  proof (rule mqtt_flush_loop.raw_induct [where P = "\<lambda>E' sent c w y. E' = E \<longrightarrow> out_wf c \<longrightarrow> io_step c (fst (snd y))", rotated], intro impI)
    fix flush E' sent c w y
    assume hyp: "\<And>E' sent c w y. flush E' sent c w = Some y \<Longrightarrow> E' = E \<longrightarrow> out_wf c \<longrightarrow> io_step c (fst (snd y))"
      and body: "(if mc_out_sent c < length (mc_out c) then
          (let chunk = (if mc_out_pending c > 0 then mc_out_pending c else length (mc_out c) - mc_out_sent c) in
           case mqtt_raw_write E' c (take chunk (drop (mc_out_sent c) (mc_out c))) w of
             (Inl e, c, w) \<Rightarrow> if e = EAGAIN then Some (Inr sent, c\<lparr>mc_out_pending := chunk\<rparr>, w) else Some (Inl e, c, w)
           | (Inr written, c, w) \<Rightarrow> flush E' True (c\<lparr>mc_out_pending := 0, mc_out_sent := mc_out_sent c + written\<rparr>) w)
        else Some (Inr sent, c, w)) = Some y"
      and E: "E' = E" and wf: "out_wf c"
    show "io_step c (fst (snd y))"
    proof (cases "mc_out_sent c < length (mc_out c)")
      case False
      then show ?thesis using body wf by (auto simp: io_step_refl)
    next
      case True
      define chunk where "chunk = (if mc_out_pending c > 0 then mc_out_pending c else length (mc_out c) - mc_out_sent c)"
      obtain r c1 w1 where rw: "mqtt_raw_write E c (take chunk (drop (mc_out_sent c) (mc_out c))) w = (r, c1, w1)" by (metis prod_cases3)
      obtain t where c1: "c1 = c\<lparr>mc_tls := t\<rparr>" using raw_write_step(1) [OF rw] by blast
      note body = body [unfolded E Let_def chunk_def [symmetric] rw if_P [OF True]]
      show ?thesis
      proof (cases r)
        case (Inl e)
        then have "fst (snd y) = c1 \<or> fst (snd y) = c1\<lparr>mc_out_pending := chunk\<rparr>" using body by (auto split: if_splits)
        then show ?thesis using wf c1 True by (auto simp: out_wf_def io_step_def io_strip_def chunk_def)
      next
        case (Inr k)
        let ?c2 = "c1\<lparr>mc_out_pending := 0, mc_out_sent := mc_out_sent c1 + k\<rparr>"
        have "k \<le> length (mc_out c) - mc_out_sent c" using raw_write_step(2) [OF rw Inr] by simp
        then have wf2: "out_wf ?c2" using wf True c1 by (simp add: out_wf_def)
        have "flush E True ?c2 w1 = Some y" using body Inr by simp
        then have "io_step ?c2 (fst (snd y))" using hyp wf2 by blast
        moreover have "io_step c ?c2" using wf2 c1 by (simp add: io_step_def io_strip_def)
        ultimately show ?thesis using io_step_trans by blast
      qed
    qed
  qed
  then show ?thesis using assms(2) by simp
qed

lemma flush_step:
  assumes "mqtt_flush E (c, L, w) = Some (r, c', L', w')" "out_wf c"
  shows "io_step c c'"
proof -
  obtain r1 c1 w1 where f: "mqtt_flush_loop E False c w = Some (r1, c1, w1)"
    using assms(1) by (auto simp: mqtt_flush_def bind_eq_Some_conv)
  note step = mqtt_flush_loop_step [OF f assms(2)]
  show ?thesis
  proof (cases r1)
    case (Inl e)
    then show ?thesis using assms(1) f step by (simp add: mqtt_flush_def)
  next
    case (Inr sent)
    then have arm: "mqtt_arm E (mqtt_flushed sent c1, L, w1) = (c', L', w')" using assms(1) f by (simp add: mqtt_flush_def)
    have "io_step c1 (mqtt_flushed sent c1)"
      using io_step_keeps(18) [OF step] by (auto simp: mqtt_flushed_def Let_def io_step_def io_strip_def out_wf_def)
    then show ?thesis using mqtt_arm_step [OF arm] io_step_trans [OF step] by (meson io_step_def io_step_trans)
  qed
qed

lemma queue_step:
  assumes "mqtt_queue E data (c, L, w) = Some (r, c', L', w')" "out_wf c"
  shows "io_step c c'"
proof -
  define c1 where "c1 = (if mqtt_outbound_max < length (mc_out c) + length data then mqtt_compact_out c else c)"
  have c1: "io_step c c1" using assms(2) by (auto simp: c1_def mqtt_compact_out_def io_step_def io_strip_def out_wf_def)
  note q = assms(1) [unfolded mqtt_queue_def prod.case c1_def [symmetric] Let_def]
  show ?thesis
  proof (cases "mqtt_outbound_max < length (mc_out c1) + length data")
    case True
    then show ?thesis using q c1 by simp
  next
    case False
    then have f: "mqtt_flush E (c1\<lparr>mc_out := mc_out c1 @ data\<rparr>, L, w) = Some (r, c', L', w')" using q by simp
    have "out_wf c1" using c1 by (simp add: io_step_def)
    then have "out_wf (c1\<lparr>mc_out := mc_out c1 @ data\<rparr>)" using False by (auto simp: out_wf_def)
    then have "io_step c (c1\<lparr>mc_out := mc_out c1 @ data\<rparr>)" using c1 by (simp add: io_step_def io_strip_def)
    then show ?thesis using flush_step [OF f] by (meson io_step_def io_step_trans)
  qed
qed


end

section \<open>Failing\<close>

text \<open>A client whose connection has been released.\<close>

definition mqtt_reset :: "inkwell_resolve \<Rightarrow> inkwell_tls_client \<Rightarrow> mqtt_client \<Rightarrow> mqtt_client" where
  "mqtt_reset r t c = c\<lparr>mc_resolve := r, mc_tls := t, mc_socket := socket_invalid, mc_token := -1, mc_want_write := False, mc_in := [],
     mc_skip_remaining := 0, mc_more_to_read := False, mc_read_wants_write := False, mc_out := [], mc_out_sent := 0,
     mc_out_pending := 0, mc_filter_sent := 0, mc_subscribe_id := 0, mc_deadline_ms := 0, mc_next_ping_ms := 0, mc_last_heard_ms := 0\<rparr>"

lemma mqtt_reset_keeps [simp]:
  "mc_state (mqtt_reset r t c) = mc_state c" "mc_filters (mqtt_reset r t c) = mc_filters c" "mc_failure (mqtt_reset r t c) = mc_failure c"
  "mc_now_ms (mqtt_reset r t c) = mc_now_ms c" "mc_has_loop (mqtt_reset r t c) = mc_has_loop c" "mc_failures (mqtt_reset r t c) = mc_failures c"
  "mc_generation (mqtt_reset r t c) = mc_generation c" "mc_on_state (mqtt_reset r t c) = mc_on_state c" "mc_userdata (mqtt_reset r t c) = mc_userdata c"
  "mc_host (mqtt_reset r t c) = mc_host c" "mc_port (mqtt_reset r t c) = mc_port c" "mc_config (mqtt_reset r t c) = mc_config c"
  "mc_stats (mqtt_reset r t c) = mc_stats c" "mc_socket (mqtt_reset r t c) = socket_invalid"
  by (simp_all add: mqtt_reset_def)

lemma mqtt_reset_closed: "tls_state t = None \<Longrightarrow> mqtt_closed (mqtt_reset r t c)"
  by (simp add: mqtt_reset_def mqtt_closed_def)

lemma mqtt_reset_wf: "mqtt_wf c \<Longrightarrow> mqtt_wf (mqtt_reset r t c)"
  by (simp add: mqtt_wf_def out_wf_def filters_wf_def failure_wf_def) (simp add: mqtt_reset_def)

text \<open>The result of an operation that left the client with a connection of its own, or with none.\<close>

definition mqtt_gone :: "mqtt_client \<Rightarrow> mqtt_client \<Rightarrow> bool" where
  "mqtt_gone c c' \<longleftrightarrow> mqtt_inv c' \<and> mc_has_loop c' = mc_has_loop c \<and> (mc_generation c' = mc_generation c \<longrightarrow> mc_socket c' = socket_invalid)
     \<and> length (mc_in c') < mqtt_packet_max"

lemma mqtt_gone_rely: "mqtt_gone c c' \<Longrightarrow> mqtt_rely c c'"
  by (auto simp: mqtt_gone_def mqtt_rely_def)

lemma mqtt_rely_gone: "mqtt_rely c c' \<Longrightarrow> mc_generation c' \<noteq> mc_generation c \<or> mc_socket c' = socket_invalid \<Longrightarrow> mqtt_gone c c'"
  using mqtt_inv_closed [of c'] by (auto simp: mqtt_gone_def mqtt_rely_def mqtt_closed_def mqtt_packet_max_def)

lemma mqtt_gone_cong: "mqtt_gone c c' \<Longrightarrow> mc_generation d = mc_generation c \<Longrightarrow> mc_has_loop d = mc_has_loop c \<Longrightarrow> mqtt_gone d c'"
  by (simp add: mqtt_gone_def)

context mqtt_services
begin

lemma close_reset:
  assumes "mqtt_close E (c, L, w) = (c', L', w')"
  obtains r t where "c' = mqtt_reset r t c" "tls_state t = None"
proof -
  obtain r L1 w1 where r: "r_cancel (me_resolver E) (mc_resolve c) L w = (r, L1, w1)" by (metis prod_cases3)
  obtain t w2 where t: "t_stop (me_tls E) (mc_tls c) w1 = (t, w2)" by (metis surj_pair)
  have "c' = mqtt_reset r t c" using assms r t by (auto simp: mqtt_close_def Let_def mqtt_reset_def split: prod.splits)
  then show thesis using that tls_stop [OF t] by blast
qed

lemma set_state_post:
  assumes "mqtt_set_state E st (c, L, w) = Some (same, c', L', w')" "mqtt_inv (c\<lparr>mc_state := st\<rparr>)"
  shows "mqtt_rely (c\<lparr>mc_state := st\<rparr>) c'" "same \<longleftrightarrow> mc_generation c' = mc_generation c"
proof -
  have "mc_state c = st \<Longrightarrow> c\<lparr>mc_state := st\<rparr> = c" by auto
  then show "mqtt_rely (c\<lparr>mc_state := st\<rparr>) c'" "same \<longleftrightarrow> mc_generation c' = mc_generation c"
    using assms on_state [of _ _ st "c\<lparr>mc_state := st\<rparr>" L w c' L' w'] mqtt_rely_refl [OF assms(2)]
    by (auto simp: mqtt_set_state_def Let_def bind_eq_Some_conv split: if_splits option.splits)
qed

lemma back_off_post:
  assumes "mqtt_back_off E (c, L, w) = Some (c', L', w')" "mqtt_wf c" "mc_has_loop c" "mqtt_has_failure c"
  shows "mqtt_gone c c'"
proof -
  obtain c1 L1 w1 where cl: "mqtt_close E (c, L, w) = (c1, L1, w1)" by (metis prod_cases3)
  then obtain r t where c1: "c1 = mqtt_reset r t c" "tls_state t = None" by (rule close_reset)
  define c2 where "c2 = (if mc_failures c1 < - 1 then c1\<lparr>mc_failures := mc_failures c1 + 1\<rparr> else c1)"
  define c3 where "c3 = c2\<lparr>mc_retry_at_ms := mc_now_ms c2 + mqtt_backoff_delay (mc_failures c2)\<rparr>"
  obtain same where s: "mqtt_set_state E CLIENT_WAITING (c3, L1, w1) = Some (same, c', L', w')"
    using assms(1) by (auto simp: mqtt_back_off_def cl Let_def c2_def c3_def bind_eq_Some_conv)
  have "0 < (x :: u32) + 1" if "x < - 1" for x using that by (auto simp: word_gt_0 add_eq_0_iff2)
  moreover have "0 < (x :: u32)" if "\<not> x < - 1" for x using that by (cases "x = 0") (simp_all add: word_gt_0)
  ultimately have f: "0 < mc_failures c3" unfolding c3_def c2_def by simp
  have k: "mqtt_closed c1" "mqtt_wf c1" using c1 assms(2) mqtt_reset_closed mqtt_reset_wf by simp_all
  have "mqtt_closed c3" "mqtt_wf c3" "mc_has_loop c3" "mqtt_has_failure c3" "mc_generation c3 = mc_generation c" "mc_socket c3 = socket_invalid"
      "mc_has_loop c3 = mc_has_loop c"
    using k c1 assms(3,4) unfolding c3_def c2_def
    by (auto simp: mqtt_closed_def mqtt_wf_def out_wf_def filters_wf_def failure_wf_def mqtt_has_failure_def)
  then have "mqtt_inv (c3\<lparr>mc_state := CLIENT_WAITING\<rparr>)" and g: "mc_generation c3 = mc_generation c" "mc_socket c3 = socket_invalid"
      "mc_has_loop c3 = mc_has_loop c"
    using f by (auto simp: mqtt_inv_def mqtt_closed_def mqtt_wf_def out_wf_def filters_wf_def failure_wf_def mqtt_has_failure_def)
  note r = set_state_post(1) [OF s this(1)]
  have "length (mc_in c') < mqtt_packet_max"
    using mqtt_rely_quiet [OF r] k(1) by (simp add: c3_def c2_def mqtt_closed_def mqtt_packet_max_def)
  then show ?thesis using r g by (auto simp: mqtt_gone_def mqtt_rely_def)
qed


lemma fail_net_post:
  assumes "mqtt_fail_net E reason detail (c, L, w) = Some (c', L', w')" "mqtt_wf c" "mc_has_loop c" "reason \<noteq> NET_OK"
  shows "mqtt_gone c c'"
proof -
  define d where "d = (if \<not> mqtt_has_failure c then c\<lparr>mc_failure := (mc_failure c)\<lparr>mf_net := \<lparr>nf_reason = reason, nf_detail = detail\<rparr>\<rparr>\<rparr> else c)"
  have b: "mqtt_back_off E (d, L, w) = Some (c', L', w')" using assms(1) by (simp add: mqtt_fail_net_def d_def Let_def)
  have "mqtt_wf d" "mc_has_loop d" "mqtt_has_failure d" "mc_generation d = mc_generation c" "mc_has_loop d = mc_has_loop c"
    using assms(2-4)
    by (auto simp: d_def mqtt_wf_def out_wf_def filters_wf_def failure_wf_def mqtt_has_failure_def inkwell_net_failed_def)
  then show ?thesis using back_off_post [OF b] mqtt_gone_cong by metis
qed

lemma fail_own_post:
  assumes "mqtt_fail_own E refusal code (c, L, w) = Some (c', L', w')" "mqtt_wf c" "mc_has_loop c" "refusal \<noteq> REFUSAL_NONE"
  shows "mqtt_gone c c'"
proof -
  define d where "d = (if \<not> mqtt_has_failure c then c\<lparr>mc_failure := (mc_failure c)\<lparr>mf_refusal := refusal, mf_code := code\<rparr>\<rparr> else c)"
  have b: "mqtt_back_off E (d, L, w) = Some (c', L', w')" using assms(1) by (simp add: mqtt_fail_own_def d_def Let_def)
  have "mqtt_wf d" "mc_has_loop d" "mqtt_has_failure d" "mc_generation d = mc_generation c" "mc_has_loop d = mc_has_loop c"
    using assms(2-4)
    by (auto simp: d_def mqtt_wf_def out_wf_def filters_wf_def failure_wf_def mqtt_has_failure_def)
  then show ?thesis using back_off_post [OF b] mqtt_gone_cong by metis
qed

lemma fail_tls_post:
  assumes "mqtt_fail_tls E (c, L, w) = Some (c', L', w')" "mqtt_wf c" "mc_has_loop c"
  shows "mqtt_gone c c'"
proof -
  have "mqtt_fail_net E (inkwell_tls_client_reason (mc_tls c)) (tls_error_code (mc_tls c)) (c, L, w) = Some (c', L', w')"
    using assms(1) by (simp add: mqtt_fail_net_def mqtt_fail_tls_def)
  moreover have "inkwell_tls_client_reason (mc_tls c) \<noteq> NET_OK" by (simp add: inkwell_tls_client_reason_def)
  ultimately show ?thesis using fail_net_post assms(2,3) by blast
qed

lemma protocol_error_post:
  assumes "mqtt_protocol_error E (c, L, w) = Some (ok, c', L', w')" "mqtt_wf c" "mc_has_loop c"
  shows "mqtt_gone c c'" "\<not> ok"
  using assms fail_own_post [of REFUSAL_PROTOCOL 0 c L w c' L' w'] by (auto simp: mqtt_protocol_error_def bind_eq_Some_conv)

end

section \<open>A connection in use\<close>

text \<open>Two clients with the same connection, which differ in what is read, written and subscribed on it.\<close>

definition conn_strip :: "mqtt_client \<Rightarrow> mqtt_client" where
  "conn_strip c = io_strip (c\<lparr>mc_in := [], mc_skip_remaining := 0, mc_more_to_read := False, mc_read_wants_write := False,
     mc_last_heard_ms := 0, mc_filter_sent := 0, mc_subscribe_id := 0, mc_stats := no_stats, mc_resolve := inkwell_resolve_init False\<rparr>)"

definition conn_step :: "mqtt_client \<Rightarrow> mqtt_client \<Rightarrow> bool" where
  "conn_step c c' \<longleftrightarrow> out_wf c' \<and> length (mc_in c') \<le> mqtt_packet_max \<and> conn_strip c' = conn_strip c"

lemmas conn_step_simps = conn_step_def conn_strip_def io_strip_def out_wf_def

lemma conn_step_keeps:
  assumes "conn_step c c'"
  shows "mc_state c' = mc_state c" "mc_socket c' = mc_socket c" "mc_token c' = mc_token c" "mc_has_loop c' = mc_has_loop c"
    "mc_generation c' = mc_generation c" "mc_filters c' = mc_filters c" "mc_failure c' = mc_failure c" "mc_now_ms c' = mc_now_ms c"
    "mc_deadline_ms c' = mc_deadline_ms c" "mc_failures c' = mc_failures c"
proof -
  have strip: "f (conn_strip c') = f (conn_strip c)" for f :: "mqtt_client \<Rightarrow> 'a" using assms by (simp add: conn_step_def)
  show "mc_state c' = mc_state c" "mc_socket c' = mc_socket c" "mc_token c' = mc_token c" "mc_has_loop c' = mc_has_loop c"
    "mc_generation c' = mc_generation c" "mc_filters c' = mc_filters c" "mc_failure c' = mc_failure c" "mc_now_ms c' = mc_now_ms c"
    "mc_deadline_ms c' = mc_deadline_ms c" "mc_failures c' = mc_failures c"
    using strip [of mc_state] strip [of mc_socket] strip [of mc_token] strip [of mc_has_loop] strip [of mc_generation] strip [of mc_filters]
      strip [of mc_failure] strip [of mc_now_ms] strip [of mc_deadline_ms] strip [of mc_failures]
    by (simp_all add: conn_strip_def io_strip_def)
qed

lemma io_conn_step:
  assumes "io_step c c'" "length (mc_in c) \<le> mqtt_packet_max"
  shows "conn_step c c'"
proof -
  have "conn_strip d = conn_strip (io_strip d)" for d by (simp add: conn_strip_def io_strip_def)
  then have "conn_strip c' = conn_strip c" using assms(1) by (metis io_step_def)
  then show ?thesis using assms io_step_keeps(5,18) [OF assms(1)] by (simp add: conn_step_def)
qed

lemma conn_step_wf: "conn_step c c' \<Longrightarrow> mqtt_wf c \<Longrightarrow> mqtt_wf c'"
  using conn_step_keeps [of c c'] by (simp add: mqtt_wf_def conn_step_def filters_wf_def failure_wf_def)

lemma conn_step_inv:
  assumes "conn_step c c'" "mqtt_inv c" "mc_socket c \<noteq> socket_invalid"
  shows "mqtt_inv c'"
proof -
  have "mqtt_conn c" "mqtt_wf c'" "mqtt_conn c'"
    using assms mqtt_inv_conn [OF assms(2,3)] conn_step_wf [OF assms(1)] by (simp_all add: mqtt_inv_wf mqtt_conn_def conn_step_keeps)
  then show ?thesis
    using assms(2) by (cases "mc_state c") (simp_all add: mqtt_inv_def mqtt_conn_def mqtt_closed_def conn_step_keeps [OF assms(1)])
qed

text \<open>What the relation between a client and its successor reads of the first.\<close>

definition rely_view :: "mqtt_client \<Rightarrow> bool \<times> u64 \<times> u64 \<times> bytes \<times> nat \<times> bool" where
  "rely_view c = (mc_has_loop c, mc_generation c, mc_socket c, mc_in c, mc_skip_remaining c, mc_more_to_read c)"

lemma mqtt_rely_view: "mqtt_rely d c' \<Longrightarrow> rely_view d = rely_view c \<Longrightarrow> mqtt_rely c c'"
  by (auto simp: mqtt_rely_def rely_view_def)

lemmas mqtt_inv_simps = mqtt_inv_def mqtt_wf_def out_wf_def filters_wf_def failure_wf_def mqtt_has_failure_def mqtt_closed_def mqtt_conn_def

lemma mqtt_inv_stats [simp]: "mqtt_inv (c\<lparr>mc_stats := s\<rparr>) = mqtt_inv c"
  by (cases "mc_state c") (simp_all add: mqtt_inv_simps)

lemma mqtt_inv_resolve [simp]: "mqtt_inv (c\<lparr>mc_resolve := r\<rparr>) = mqtt_inv c"
  by (cases "mc_state c") (simp_all add: mqtt_inv_simps)

text \<open>The subscriptions start over.\<close>

lemma mqtt_inv_resubscribe:
  assumes "mqtt_inv c"
  shows "mqtt_inv (c\<lparr>mc_filter_sent := 0, mc_subscribe_id := 0\<rparr>)"
  using assms by (cases "mc_state c") (simp_all add: mqtt_inv_simps)

lemma mqtt_inv_clear:
  assumes "mqtt_inv c"
  shows "mqtt_inv (c\<lparr>mc_filters := [], mc_filter_sent := 0, mc_subscribe_id := 0\<rparr>)"
  using assms by (cases "mc_state c") (simp_all add: mqtt_inv_simps)

end
