(* ===== verification/Mqtt_Session.thy ===== *)
theory Mqtt_Session
  imports Mqtt_Inv
begin

text \<open>
  Every operation of the MQTT client keeps the invariant of \<open>Mqtt_Inv\<close>, whatever the network and the callbacks do.
\<close>

section \<open>Inbound packets\<close>

context mqtt_services
begin

lemma queue_fail_post:
  assumes "mqtt_queue E packet (c, L, w) = Some (r, c1, L1, w1)" "mqtt_inv c" "mc_socket c \<noteq> socket_invalid"
  shows "mqtt_rely c c1" "mc_socket c1 \<noteq> socket_invalid"
    "mqtt_fail_net E reason detail (c1, L1, w1) = Some (c', L', w') \<Longrightarrow> reason \<noteq> NET_OK \<Longrightarrow> mqtt_gone c c'"
proof -
  have st: "io_step c c1" using queue_step [OF assms(1)] assms(2) by (simp add: mqtt_inv_def mqtt_wf_def)
  show "mqtt_rely c c1" using io_step_rely [OF st assms(2,3)] .
  show "mc_socket c1 \<noteq> socket_invalid" using assms(3) io_step_keeps(2) [OF st] by simp
  have "mc_has_loop c" using mqtt_inv_conn [OF assms(2,3)] by (simp add: mqtt_conn_def)
  then show "mqtt_gone c c'" if "mqtt_fail_net E reason detail (c1, L1, w1) = Some (c', L', w')" "reason \<noteq> NET_OK"
    using fail_net_post [OF that(1) _ _ that(2)] io_step_wf [OF st] mqtt_inv_wf [OF assms(2)] io_step_keeps(4,8) [OF st] mqtt_gone_cong by metis
qed

lemma pump_post:
  "mqtt_pump_subscribes E c L w = Some (c', L', w') \<Longrightarrow> mqtt_inv c \<Longrightarrow> mqtt_rely c c'"
proof (induction "length (mc_filters c) - mc_filter_sent c" arbitrary: c rule: less_induct)
  case less
  show ?case
  proof (cases "mc_state c = CLIENT_READY \<and> mc_subscribe_id c = 0 \<and> mc_filter_sent c < length (mc_filters c)")
    case False
    then have "c' = c" using less.prems(1) by (subst (asm) mqtt_pump_subscribes.simps) (simp split: if_splits)
    then show ?thesis using less.prems(2) mqtt_rely_refl by simp
  next
    case True
    define ident :: u16 where "ident = of_nat (mc_filter_sent c + 1)"
    have sock: "mc_socket c \<noteq> socket_invalid" using True less.prems(2) by (simp add: mqtt_inv_def mqtt_conn_def)
    note body = less.prems(1) [unfolded mqtt_pump_subscribes.simps [of E c] Let_def ident_def [symmetric]]
    show ?thesis
    proof (cases "inkwell_mqtt_encode_subscribe (mqtt_filter_max + 16) ident (Some (mc_filters c ! mc_filter_sent c))")
      case (Inl e)
      let ?d = "c\<lparr>mc_filter_sent := mc_filter_sent c + 1\<rparr>"
      have "conn_step c ?d" using less.prems(2) by (simp add: mqtt_inv_def mqtt_wf_def conn_step_simps)
      then have d: "mqtt_inv ?d" using conn_step_inv less.prems(2) sock by blast
      have "mqtt_pump_subscribes E ?d L w = Some (c', L', w')" using body True Inl by simp
      moreover have "length (mc_filters ?d) - mc_filter_sent ?d < length (mc_filters c) - mc_filter_sent c" using True by (simp add: diff_less_mono2)
      ultimately have "mqtt_rely ?d c'" using less.hyps d by blast
      then show ?thesis by (rule mqtt_rely_view) (simp add: rely_view_def)
    next
      case (Inr r)
      then obtain queued c1 L1 w1 where q: "mqtt_queue E (snd r) (c, L, w) = Some (queued, c1, L1, w1)"
        using body True by (auto simp: bind_eq_Some_conv split: prod.splits)
      note post = queue_fail_post [OF q less.prems(2) sock]
      show ?thesis
      proof (cases queued)
        case (Inl e)
        then show ?thesis using body True Inr q post(1) post(3) [of NET_CLOSED 0 c' L' w'] mqtt_gone_rely
          by (auto split: prod.splits if_splits)
      next
        case (Inr _)
        let ?d = "c1\<lparr>mc_subscribe_id := ident\<rparr>"
        have "c' = ?d" using body True \<open>inkwell_mqtt_encode_subscribe _ _ _ = _\<close> q Inr by (auto split: prod.splits)
        moreover have "conn_step c1 ?d" using post(1) by (simp add: mqtt_rely_def mqtt_inv_def mqtt_wf_def conn_step_simps)
        then have "mqtt_inv ?d" using conn_step_inv post(1,2) by (simp add: mqtt_rely_def)
        ultimately show ?thesis using post(1) by (auto simp: mqtt_rely_def)
      qed
    qed
  qed
qed


lemma on_connack_post:
  assumes "mqtt_on_connack E body (c, L, w) = Some (ok, c', L', w')" "mqtt_inv c" "mc_socket c \<noteq> socket_invalid"
  shows "mqtt_rely c c' \<and> (\<not> ok \<longrightarrow> mqtt_gone c c')"
proof -
  have wf: "mqtt_wf c" "mc_has_loop c" using mqtt_inv_wf [OF assms(2)] mqtt_inv_conn [OF assms(2,3)] by (simp_all add: mqtt_conn_def)
  note protocol = protocol_error_post(1) [OF _ wf]
  show ?thesis
  proof (cases "mc_state c = CLIENT_GREETING")
    case False
    then show ?thesis using assms(1) protocol mqtt_gone_rely by (auto simp: mqtt_on_connack_def)
  next
    case g: True
    show ?thesis
    proof (cases "inkwell_mqtt_decode_connack (Some body)")
      case (Inl e)
      then show ?thesis using assms(1) g protocol mqtt_gone_rely by (auto simp: mqtt_on_connack_def)
    next
      case (Inr r)
      then obtain present code where d: "inkwell_mqtt_decode_connack (Some body) = Inr (present, code)" by (cases r) auto
      show ?thesis
      proof (cases "code = connack_accepted")
        case False
        then have "mqtt_fail_own E (connack_refusal code) code (c, L, w) = Some (c', L', w')"
          using assms(1) g d by (simp add: mqtt_on_connack_def bind_eq_Some_conv)
        moreover have "connack_refusal code \<noteq> REFUSAL_NONE" by (simp add: connack_refusal_def)
        ultimately show ?thesis using fail_own_post wf mqtt_gone_rely by blast
      next
        case True
        define c1 where "c1 = c\<lparr>mc_failures := 0, mc_deadline_ms := 0,
          mc_stats := (mc_stats c)\<lparr>ms_connections := ms_connections (mc_stats c) + 1\<rparr>, mc_failure := no_mqtt_failure\<rparr>"
        obtain same c2 L2 w2 where s: "mqtt_set_state E CLIENT_READY (c1, L, w) = Some (same, c2, L2, w2)"
          using assms(1) g d True by (auto simp: mqtt_on_connack_def c1_def bind_eq_Some_conv)
        have "mqtt_inv (c1\<lparr>mc_state := CLIENT_READY\<rparr>)"
          using wf mqtt_inv_conn [OF assms(2,3)]
          by (simp add: c1_def mqtt_inv_simps no_mqtt_failure_def inkwell_net_failed_def no_failure_def)
        note post = set_state_post [OF s this]
        have rely: "mqtt_rely c c2" by (rule mqtt_rely_view [OF post(1)]) (simp add: rely_view_def c1_def)
        show ?thesis
        proof (cases same)
          case False
          then have "mqtt_gone c c2" using mqtt_rely_gone [OF rely] post(2) by (simp add: c1_def)
          then show ?thesis using assms(1) g d True s rely False by (simp add: mqtt_on_connack_def c1_def)
        next
          case same: True
          define c3 where "c3 = c2\<lparr>mc_filter_sent := 0, mc_subscribe_id := 0\<rparr>"
          have p: "mqtt_pump_subscribes E c3 L2 w2 = Some (c', L', w')" "ok"
            using assms(1) g d True s same by (auto simp: mqtt_on_connack_def c1_def c3_def bind_eq_Some_conv)
          have "mqtt_inv c3" using rely mqtt_inv_resubscribe by (simp add: c3_def mqtt_rely_def)
          then have "mqtt_rely c3 c'" using pump_post [OF p(1)] by blast
          then have "mqtt_rely c2 c'" by (rule mqtt_rely_view) (simp add: rely_view_def c3_def)
          then show ?thesis using mqtt_rely_trans [OF rely] post(2) same p(2) by (simp add: c1_def)
        qed
      qed
    qed
  qed
qed

lemma on_suback_post:
  assumes "mqtt_on_suback E body (c, L, w) = Some (ok, c', L', w')" "mqtt_inv c" "mc_socket c \<noteq> socket_invalid"
  shows "mqtt_rely c c' \<and> (\<not> ok \<longrightarrow> mqtt_gone c c')"
proof (cases "inkwell_mqtt_decode_suback (Some body)")
  case (Inl e)
  then have "mqtt_protocol_error E (c, L, w) = Some (ok, c', L', w')" using assms(1) by (simp add: mqtt_on_suback_def)
  then show ?thesis
    using protocol_error_post(1) mqtt_gone_rely mqtt_inv_wf [OF assms(2)] mqtt_inv_conn [OF assms(2,3)] unfolding mqtt_conn_def by blast
next
  case (Inr r)
  then obtain ident code where d: "inkwell_mqtt_decode_suback (Some body) = Inr (ident, code)" by (cases r) auto
  define c1 where "c1 = c\<lparr>mc_filter_sent := mc_filter_sent c + 1, mc_subscribe_id := 0\<rparr>"
  show ?thesis
  proof (cases "ident = mc_subscribe_id c")
    case False
    then show ?thesis using assms(1,2) d mqtt_rely_refl by (simp add: mqtt_on_suback_def)
  next
    case True
    then have p: "mqtt_pump_subscribes E c1 L w = Some (c', L', w')" "ok"
      using assms(1) d by (auto simp: mqtt_on_suback_def c1_def bind_eq_Some_conv split: if_splits)
    have "conn_step c c1" using assms(2) by (simp add: c1_def mqtt_inv_def mqtt_wf_def conn_step_simps)
    then have "mqtt_rely c1 c'" using conn_step_inv assms(2,3) pump_post [OF p(1)] by blast
    then have "mqtt_rely c c'" by (rule mqtt_rely_view) (simp add: rely_view_def c1_def)
    then show ?thesis using p(2) by blast
  qed
qed

lemma on_publish_post:
  assumes "mqtt_on_publish E flags body (c, L, w) = Some (ok, c', L', w')" "mqtt_inv c" "mc_socket c \<noteq> socket_invalid"
  shows "mqtt_rely c c' \<and> (\<not> ok \<longrightarrow> mqtt_gone c c')"
proof (cases "inkwell_mqtt_decode_publish flags (Some body)")
  case (Inl e)
  then have "mqtt_protocol_error E (c, L, w) = Some (ok, c', L', w')" using assms(1) by (simp add: mqtt_on_publish_def)
  then show ?thesis
    using protocol_error_post(1) mqtt_gone_rely mqtt_inv_wf [OF assms(2)] mqtt_inv_conn [OF assms(2,3)] unfolding mqtt_conn_def by blast
next
  case (Inr m)
  define counted where "counted f = c\<lparr>mc_stats := f (mc_stats c)\<rparr>" for f
  have counted: "mqtt_inv (counted f)" "mqtt_rely (counted f) d \<Longrightarrow> mqtt_rely c d" for f d
    using assms(2) mqtt_rely_view [of "counted f" d c] by (simp_all add: counted_def rely_view_def)
  show ?thesis
  proof (cases "mc_on_message c")
    case None
    then show ?thesis using assms(1,2) Inr mqtt_rely_refl by (simp add: mqtt_on_publish_def)
  next
    case (Some f)
    show ?thesis
    proof (cases "mqtt_topic_max \<le> length (in_topic m)")
      case True
      then have "ok" "c' = counted (\<lambda>s. s\<lparr>ms_skipped := ms_skipped s + 1\<rparr>)"
        using assms(1) Inr Some by (auto simp: mqtt_on_publish_def counted_def)
      then show ?thesis using counted mqtt_rely_refl by blast
    next
      case False
      then have "me_on_message E f (mc_userdata c) (takeWhile (\<lambda>b. b \<noteq> NUL) (in_topic m)) (in_payload m)
          (counted (\<lambda>s. s\<lparr>ms_received := ms_received s + 1\<rparr>), L, w) = Some (c', L', w')" "ok"
        using assms(1) Inr Some by (auto simp: mqtt_on_publish_def counted_def bind_eq_Some_conv)
      then show ?thesis using on_message counted by blast
    qed
  qed
qed

lemma handle_post:
  assumes "mqtt_handle E header body (c, L, w) = Some (ok, c', L', w')" "mqtt_inv c" "mc_socket c \<noteq> socket_invalid"
  shows "mqtt_rely c c' \<and> (\<not> ok \<longrightarrow> mqtt_gone c c')"
proof -
  have "mqtt_wf c" "mc_has_loop c" using mqtt_inv_wf [OF assms(2)] mqtt_inv_conn [OF assms(2,3)] by (simp_all add: mqtt_conn_def)
  then have "mqtt_protocol_error E (c, L, w) = Some (ok, c', L', w') \<Longrightarrow> mqtt_gone c c'" using protocol_error_post(1) by blast
  then show ?thesis
    using assms(1) on_connack_post [OF _ assms(2,3)] on_suback_post [OF _ assms(2,3)] on_publish_post [OF _ assms(2,3)]
      mqtt_rely_refl [OF assms(2)] mqtt_gone_rely
    unfolding mqtt_handle_def Let_def by (auto split: if_splits)
qed

end

section \<open>The inbound buffer\<close>

text \<open>
  After the packets that are complete have been handled, what is left of the buffer is not a whole buffer, so that
  there is always room to read.
\<close>

definition mqtt_consumed :: "mqtt_client \<Rightarrow> bool \<Rightarrow> mqtt_client \<Rightarrow> bool" where
  "mqtt_consumed c ok c' \<longleftrightarrow>
     (if ok then mqtt_inv c' \<and> mc_has_loop c' = mc_has_loop c \<and> mc_generation c' = mc_generation c \<and> mc_socket c' = mc_socket c
        \<and> length (mc_in c') < mqtt_packet_max
      else mqtt_gone c c')"

lemma mqtt_consumed_drop:
  assumes "mqtt_inv c" "mc_socket c \<noteq> socket_invalid" "length (mc_in c) - at < mqtt_packet_max"
  shows "mqtt_consumed c True (c\<lparr>mc_skip_remaining := n, mc_in := drop at (mc_in c)\<rparr>)"
    "mqtt_consumed c True (c\<lparr>mc_in := drop at (mc_in c)\<rparr>)"
proof -
  have "conn_step c (c\<lparr>mc_skip_remaining := n, mc_in := drop at (mc_in c)\<rparr>)" "conn_step c (c\<lparr>mc_in := drop at (mc_in c)\<rparr>)"
    using assms(1,3) by (simp_all add: mqtt_inv_def mqtt_wf_def conn_step_simps)
  then show "mqtt_consumed c True (c\<lparr>mc_skip_remaining := n, mc_in := drop at (mc_in c)\<rparr>)"
      "mqtt_consumed c True (c\<lparr>mc_in := drop at (mc_in c)\<rparr>)"
    using conn_step_inv [OF _ assms(1,2)] assms(3) by (simp_all add: mqtt_consumed_def)
qed

lemma mqtt_consumed_cong: "mqtt_consumed d ok c' \<Longrightarrow> mc_has_loop d = mc_has_loop c \<Longrightarrow> mc_generation d = mc_generation c \<Longrightarrow>
    mc_socket d = mc_socket c \<Longrightarrow> mqtt_consumed c ok c'"
  by (auto simp: mqtt_consumed_def mqtt_gone_def split: if_splits)

context mqtt_services
begin

lemma consume_skip_post:
  assumes loop: "\<And>at c L w y. loop at c L w = Some y \<Longrightarrow> at \<le> length (mc_in c) \<Longrightarrow> mqtt_inv c \<Longrightarrow> mc_socket c \<noteq> socket_invalid
      \<Longrightarrow> mqtt_consumed c (fst y) (fst (snd y))"
    and body: "(let chunk = min (length (mc_in c) - at) (mc_skip_remaining c);
             at = at + chunk;
             c = c\<lparr>mc_skip_remaining := mc_skip_remaining c - chunk\<rparr>
         in if mc_skip_remaining c > 0 then Some (True, c\<lparr>mc_in := drop at (mc_in c)\<rparr>, L, w) else loop at c L w) = Some y"
    and at: "at \<le> length (mc_in c)" and c: "mqtt_inv c" "mc_socket c \<noteq> socket_invalid"
  shows "mqtt_consumed c (fst y) (fst (snd y))"
proof -
  define n where "n = min (length (mc_in c) - at) (mc_skip_remaining c)"
  define d where "d = c\<lparr>mc_skip_remaining := mc_skip_remaining c - n\<rparr>"
  have d: "mqtt_inv d" "mc_socket d \<noteq> socket_invalid"
    using conn_step_inv [of c d] c by (simp_all add: d_def mqtt_inv_def mqtt_wf_def conn_step_simps)
  note body = body [unfolded Let_def n_def [symmetric] d_def [symmetric]]
  show ?thesis
  proof (cases "mc_skip_remaining d > 0")
    case more: True
    then have y: "y = (True, d\<lparr>mc_in := drop (at + n) (mc_in d)\<rparr>, L, w)" using body by simp
    have "length (mc_in c) - (at + n) < mqtt_packet_max" using more at by (simp add: d_def n_def mqtt_packet_max_def)
    then show ?thesis using mqtt_consumed_drop(1) [OF c, of "at + n" "mc_skip_remaining c - n"] by (simp add: y d_def)
  next
    case False
    then have "loop (at + n) d L w = Some y" using body by simp
    then have "mqtt_consumed d (fst y) (fst (snd y))" using loop d at by (simp add: d_def n_def)
    then show ?thesis by (rule mqtt_consumed_cong) (simp_all add: d_def)
  qed
qed

lemma consume_packet_post:
  assumes loop: "\<And>at c L w y. loop at c L w = Some y \<Longrightarrow> at \<le> length (mc_in c) \<Longrightarrow> mqtt_inv c \<Longrightarrow> mc_socket c \<noteq> socket_invalid
      \<Longrightarrow> mqtt_consumed c (fst y) (fst (snd y))"
    and h: "inkwell_mqtt_decode_header (Some (drop at (mc_in c))) = Inr (Some h)"
    and body: "(if mqtt_packet_max - hdr_len h < hdr_remaining h then
            loop (at + hdr_len h)
              (c\<lparr>mc_skip_remaining := hdr_remaining h, mc_stats := (mc_stats c)\<lparr>ms_skipped := ms_skipped (mc_stats c) + 1\<rparr>\<rparr>) L w
          else if length (mc_in c) - at < hdr_len h + hdr_remaining h then Some (True, c\<lparr>mc_in := drop at (mc_in c)\<rparr>, L, w)
          else do {
            (ok, c', L, w) \<leftarrow> mqtt_handle E h (take (hdr_remaining h) (drop (at + hdr_len h) (mc_in c))) (c, L, w);
            if \<not> ok \<or> mc_generation c' \<noteq> mc_generation c \<or> mc_socket c' = socket_invalid then Some (False, c', L, w)
            else loop (at + hdr_len h + hdr_remaining h) c' L w }) = Some y"
    and at: "at \<le> length (mc_in c)" and c: "mqtt_inv c" "mc_socket c \<noteq> socket_invalid"
  shows "mqtt_consumed c (fst y) (fst (snd y))"
proof -
  have len: "hdr_len h \<le> 5" "at + hdr_len h \<le> length (mc_in c)"
    using decode_header_bounds [OF h] at by (simp_all add: le_diff_conv2 add.commute)
  consider (skip) "mqtt_packet_max - hdr_len h < hdr_remaining h"
    | (partial) "hdr_remaining h \<le> mqtt_packet_max - hdr_len h" "length (mc_in c) - at < hdr_len h + hdr_remaining h"
    | (whole) "hdr_remaining h \<le> mqtt_packet_max - hdr_len h" "hdr_len h + hdr_remaining h \<le> length (mc_in c) - at" by linarith
  then show ?thesis
  proof cases
    case skip
    define d where "d = c\<lparr>mc_skip_remaining := hdr_remaining h, mc_stats := (mc_stats c)\<lparr>ms_skipped := ms_skipped (mc_stats c) + 1\<rparr>\<rparr>"
    have d: "mqtt_inv d" "mc_socket d \<noteq> socket_invalid"
      using conn_step_inv [of c d] c by (simp_all add: d_def mqtt_inv_def mqtt_wf_def conn_step_simps)
    have "loop (at + hdr_len h) d L w = Some y" using body skip by (simp add: d_def)
    then have "mqtt_consumed d (fst y) (fst (snd y))" using loop d len by (simp add: d_def)
    then show ?thesis by (rule mqtt_consumed_cong) (simp_all add: d_def)
  next
    case partial
    then have "length (mc_in c) - at < mqtt_packet_max" using len(1) by (simp add: mqtt_packet_max_def)
    then show ?thesis using mqtt_consumed_drop(2) [OF c] body partial by auto
  next
    case whole
    then obtain ok c1 L1 w1 where r: "mqtt_handle E h (take (hdr_remaining h) (drop (at + hdr_len h) (mc_in c))) (c, L, w) = Some (ok, c1, L1, w1)"
      and body: "(if \<not> ok \<or> mc_generation c1 \<noteq> mc_generation c \<or> mc_socket c1 = socket_invalid then Some (False, c1, L1, w1)
            else loop (at + hdr_len h + hdr_remaining h) c1 L1 w1) = Some y"
      using body by (auto simp: bind_eq_Some_conv not_less)
    note post = handle_post [OF r c]
    show ?thesis
    proof (cases "\<not> ok \<or> mc_generation c1 \<noteq> mc_generation c \<or> mc_socket c1 = socket_invalid")
      case True
      then show ?thesis using body post mqtt_rely_gone [of c c1] by (auto simp: mqtt_consumed_def)
    next
      case False
      then have "loop (at + hdr_len h + hdr_remaining h) c1 L1 w1 = Some y" using body by auto
      then have "mqtt_consumed c1 (fst y) (fst (snd y))" using loop post False len whole(2) by (simp add: mqtt_rely_def)
      then show ?thesis by (rule mqtt_consumed_cong) (use False post in \<open>simp_all add: mqtt_rely_def\<close>)
    qed
  qed
qed

lemma consume_loop_post:
  assumes "mqtt_consume_loop E at c L w = Some (ok, c', L', w')" "at \<le> length (mc_in c)" "mqtt_inv c" "mc_socket c \<noteq> socket_invalid"
  shows "mqtt_consumed c ok c'"
proof -
  let ?P = "\<lambda>E' at c L w y. E' = E \<longrightarrow> at \<le> length (mc_in c) \<longrightarrow> mqtt_inv c \<longrightarrow> mc_socket c \<noteq> socket_invalid
    \<longrightarrow> mqtt_consumed c (fst y) (fst (snd y))"
  have "?P E at c L w (ok, c', L', w')" using assms(1)
  proof (rule mqtt_consume_loop.raw_induct [where P = ?P, rotated], intro impI)
    fix loop E' at c L w y
    assume hyp: "\<And>E' at c L w y. loop E' at c L w = Some y \<Longrightarrow> ?P E' at c L w y"
      and body: "(if mc_skip_remaining c > 0 then
        (let chunk = min (length (mc_in c) - at) (mc_skip_remaining c);
             at = at + chunk;
             c = c\<lparr>mc_skip_remaining := mc_skip_remaining c - chunk\<rparr>
         in if mc_skip_remaining c > 0 then Some (True, c\<lparr>mc_in := drop at (mc_in c)\<rparr>, L, w) else loop E' at c L w)
      else case inkwell_mqtt_decode_header (Some (drop at (mc_in c))) of
        Inl _ \<Rightarrow> mqtt_protocol_error E' (c, L, w)
      | Inr None \<Rightarrow> Some (True, c\<lparr>mc_in := drop at (mc_in c)\<rparr>, L, w)
      | Inr (Some header) \<Rightarrow>
          if mqtt_packet_max - hdr_len header < hdr_remaining header then
            loop E' (at + hdr_len header)
              (c\<lparr>mc_skip_remaining := hdr_remaining header, mc_stats := (mc_stats c)\<lparr>ms_skipped := ms_skipped (mc_stats c) + 1\<rparr>\<rparr>) L w
          else if length (mc_in c) - at < hdr_len header + hdr_remaining header then Some (True, c\<lparr>mc_in := drop at (mc_in c)\<rparr>, L, w)
          else do {
            (ok, c', L, w) \<leftarrow> mqtt_handle E' header (take (hdr_remaining header) (drop (at + hdr_len header) (mc_in c))) (c, L, w);
            if \<not> ok \<or> mc_generation c' \<noteq> mc_generation c \<or> mc_socket c' = socket_invalid then Some (False, c', L, w)
            else loop E' (at + hdr_len header + hdr_remaining header) c' L w }) = Some y"
      and E: "E' = E" and at: "at \<le> length (mc_in c)" and c: "mqtt_inv c" "mc_socket c \<noteq> socket_invalid"
    show "mqtt_consumed c (fst y) (fst (snd y))"
    proof (cases "mc_skip_remaining c > 0")
      case True
      show ?thesis using consume_skip_post [of "loop E" c at L w y] hyp body [unfolded if_P [OF True] E] at c by blast
    next
      case False
      note body = body [unfolded if_not_P [OF False] E]
      show ?thesis
      proof (cases "inkwell_mqtt_decode_header (Some (drop at (mc_in c)))")
        case (Inl e)
        then show ?thesis
          using body protocol_error_post [of c L w "fst y" "fst (snd y)" "fst (snd (snd y))" "snd (snd (snd y))"] c mqtt_inv_conn [OF c]
          by (simp add: mqtt_consumed_def mqtt_inv_wf mqtt_conn_def)
      next
        case (Inr r)
        then show ?thesis
        proof (cases r)
          case None
          then show ?thesis
            using body Inr decode_header_short [of "drop at (mc_in c)"] mqtt_consumed_drop(2) [OF c, of at] by (auto simp: mqtt_packet_max_def)
        next
          case (Some h)
          show ?thesis by (rule consume_packet_post [of "loop E", OF _ _ _ at c]) (use body Inr Some hyp in \<open>auto simp: E\<close>)
        qed
      qed
    qed
  qed
  then show ?thesis using assms by simp
qed


end

text \<open>What an operation leaves to its caller.\<close>

definition mqtt_ok :: "mqtt_client \<Rightarrow> mqtt_client \<Rightarrow> bool" where
  "mqtt_ok c c' \<longleftrightarrow> mqtt_inv c' \<and> mc_has_loop c' = mc_has_loop c \<and> length (mc_in c') < mqtt_packet_max"

lemma mqtt_gone_ok: "mqtt_gone c c' \<Longrightarrow> mqtt_ok c c'"
  by (simp add: mqtt_gone_def mqtt_ok_def)

lemma mqtt_rely_ok: "mqtt_rely c c' \<Longrightarrow> length (mc_in c) < mqtt_packet_max \<Longrightarrow> mqtt_ok c c'"
  using mqtt_rely_quiet [of c c'] by (simp add: mqtt_rely_def mqtt_ok_def)

lemma mqtt_ok_cong: "mqtt_ok d c' \<Longrightarrow> mc_has_loop d = mc_has_loop c \<Longrightarrow> mqtt_ok c c'"
  by (simp add: mqtt_ok_def)

lemma conn_step_ok:
  "conn_step c c' \<Longrightarrow> mqtt_inv c \<Longrightarrow> mc_socket c \<noteq> socket_invalid \<Longrightarrow> length (mc_in c') < mqtt_packet_max \<Longrightarrow> mqtt_ok c c'"
  by (simp add: mqtt_ok_def conn_step_inv conn_step_keeps)

lemma arm_ok:
  assumes "mqtt_arm E (c, L, w) = (c', L', w')" "mqtt_inv c" "mc_socket c \<noteq> socket_invalid" "length (mc_in c) < mqtt_packet_max"
  shows "mqtt_ok c c'"
proof -
  have "io_step c c'" using mqtt_arm_step [OF assms(1)] assms(2) by (simp add: mqtt_inv_def mqtt_wf_def)
  then show ?thesis using io_step_rely assms(2-4) mqtt_rely_ok by blast
qed

section \<open>Reading\<close>

context mqtt_services
begin

lemma raw_read_step:
  assumes "mqtt_raw_read E c cap w = (r, c', w')"
  shows "\<exists>t. c' = c\<lparr>mc_tls := t\<rparr>" "r = Inr got \<Longrightarrow> length got \<le> cap"
proof -
  show "\<exists>t. c' = c\<lparr>mc_tls := t\<rparr>"
    using assms by (auto simp: mqtt_raw_read_def split: if_splits prod.splits sum.splits intro: exI [of _ "mc_tls c"])
  show "r = Inr got \<Longrightarrow> length got \<le> cap"
    using assms tls_read_len recv_len [of _ "min cap int_max"]
    by (fastforce simp: mqtt_raw_read_def inkwell_socket_recv_def split: if_splits prod.splits sum.splits)
qed

lemma read_failed_post:
  assumes "e \<noteq> EAGAIN" "mqtt_inv c" "mc_socket c \<noteq> socket_invalid"
    "(if e = ENOTCONN \<or> e = ECONNRESET then mqtt_fail_net E NET_CLOSED 0 (c, L, w)
      else if tls_state (mc_tls c) \<noteq> None then mqtt_fail_tls E (c, L, w)
      else mqtt_fail_net E (inkwell_net_reason_from_errno (- errno_number e)) (- errno_number e) (c, L, w)) = Some (c', L', w')"
  shows "mqtt_ok c c'"
proof -
  have "mqtt_wf c" "mc_has_loop c" using mqtt_inv_wf [OF assms(2)] mqtt_inv_conn [OF assms(2,3)] by (simp_all add: mqtt_conn_def)
  moreover have "inkwell_net_reason_from_errno (- errno_number e) \<noteq> NET_OK" using errno_number_pos [of e] by (intro reason_from_errno_failed) simp
  ultimately show ?thesis
    using assms(4) fail_net_post [of _ _ c L w c' L' w'] fail_tls_post [of c L w c' L' w'] mqtt_gone_ok [of c c'] by (auto split: if_splits)
qed

lemma read_loop_post:
  "mqtt_read_loop E turns (c, L, w) = Some (c', L', w') \<Longrightarrow> mqtt_inv c \<Longrightarrow> mc_socket c \<noteq> socket_invalid \<Longrightarrow>
   length (mc_in c) < mqtt_packet_max \<Longrightarrow> mqtt_ok c c'"
proof (induction turns arbitrary: c L w)
  case 0
  have "conn_step c (c\<lparr>mc_more_to_read := True\<rparr>)" using "0.prems"(2) by (simp add: mqtt_inv_def mqtt_wf_def conn_step_simps)
  then show ?case using 0 conn_step_ok by auto
next
  case (Suc turns)
  obtain r c1 w1 where rr: "mqtt_raw_read E c (mqtt_packet_max - length (mc_in c)) w = (r, c1, w1)" by (metis prod_cases3)
  obtain t where c1: "c1 = c\<lparr>mc_tls := t\<rparr>" using raw_read_step(1) [OF rr] by blast
  have out: "out_wf c" "length (mc_in c) \<le> mqtt_packet_max" using Suc.prems(2) by (simp_all add: mqtt_inv_def mqtt_wf_def)
  have inv1: "mqtt_inv c1" "mc_socket c1 \<noteq> socket_invalid"
    using conn_step_inv [of c c1] out Suc.prems(2,3) c1 by (simp_all add: conn_step_simps)
  have room: "\<not> mqtt_packet_max \<le> length (mc_in c)" using Suc.prems(4) by simp
  note body = Suc.prems(1) [unfolded mqtt_read_loop.simps if_not_P [OF room] rr prod.case]
  show ?case
  proof (cases r)
    case (Inl e)
    define c2 where "c2 = c1\<lparr>mc_read_wants_write := (tls_state (mc_tls c1) \<noteq> None \<and> tls_wants_write (mc_tls c1))\<rparr>"
    have st: "conn_step c1 c2" "conn_step c1 (c1\<lparr>mc_more_to_read := True\<rparr>)" "length (mc_in c1) < mqtt_packet_max"
      using out c1 Suc.prems(4) by (simp_all add: c2_def conn_step_simps)
    have loop: "mc_has_loop c1 = mc_has_loop c" "mc_has_loop c2 = mc_has_loop c" using c1 by (simp_all add: c2_def)
    have "mqtt_ok c1 (c1\<lparr>mc_more_to_read := True\<rparr>)" using conn_step_ok [OF st(2) inv1] st(3) by simp
    moreover have "mqtt_ok c2 c'" if "mqtt_arm E (c2, L, w1) = (c', L', w')"
      using arm_ok [OF that] conn_step_inv [OF st(1) inv1] inv1(2) st(3) by (simp add: c2_def)
    ultimately show ?thesis
      using body Inl read_failed_post [of e c1 L w1 c' L' w', OF _ inv1] mqtt_ok_cong [OF _ loop(1)] mqtt_ok_cong [OF _ loop(2)]
      unfolding c2_def by (auto split: if_splits)
  next
    case (Inr got)
    define c2 where "c2 = c1\<lparr>mc_in := mc_in c1 @ got, mc_last_heard_ms := mc_now_ms c1\<rparr>"
    have "length got \<le> mqtt_packet_max - length (mc_in c)" using raw_read_step(2) [OF rr Inr] .
    then have "conn_step c1 c2" using out c1 by (simp add: c2_def conn_step_simps)
    then have c2: "mqtt_inv c2" "mc_socket c2 \<noteq> socket_invalid" "mc_has_loop c2 = mc_has_loop c"
      using conn_step_inv [OF _ inv1] inv1(2) c1 by (simp_all add: c2_def)
    obtain ok c3 L3 w3 where con: "mqtt_consume_loop E 0 c2 L w1 = Some (ok, c3, L3, w3)"
      and rest: "(if \<not> ok then Some (c3, L3, w3) else mqtt_read_loop E turns (c3, L3, w3)) = Some (c', L', w')"
      using body Inr by (auto simp: c2_def mqtt_consume_def bind_eq_Some_conv)
    note post = consume_loop_post [OF con _ c2(1,2)]
    show ?thesis
    proof (cases ok)
      case False
      then show ?thesis using post rest c2(3) mqtt_gone_ok [of c2 c'] mqtt_ok_cong [of c2 c' c] by (simp add: mqtt_consumed_def)
    next
      case True
      then have "mqtt_ok c3 c'" using Suc.IH [of c3 L3 w3] rest post c2(2) by (simp add: mqtt_consumed_def)
      then show ?thesis using True post c2(3) by (simp add: mqtt_consumed_def mqtt_ok_def)
    qed
  qed
qed

lemma read_ready_post:
  assumes "mqtt_read_ready E (c, L, w) = Some (c', L', w')" "mqtt_inv c" "mc_socket c \<noteq> socket_invalid" "length (mc_in c) < mqtt_packet_max"
  shows "mqtt_ok c c'"
proof -
  let ?d = "c\<lparr>mc_more_to_read := False, mc_read_wants_write := False\<rparr>"
  have "conn_step c ?d" using assms(2) by (simp add: mqtt_inv_def mqtt_wf_def conn_step_simps)
  then have "mqtt_inv ?d" using conn_step_inv assms(2,3) by blast
  then have "mqtt_ok ?d c'" using read_loop_post [of mqtt_reads_per_turn ?d L w] assms by (simp add: mqtt_read_ready_def)
  then show ?thesis by (rule mqtt_ok_cong) simp
qed


end

section \<open>Getting connected\<close>

lemma deadline_pos:
  assumes "now \<le> time_max" "0 < d" "d \<le> 300000"
  shows "0 < (now :: u64) + d"
proof -
  have "unat now + unat d < 2 ^ 64" using assms by (simp add: word_le_nat_alt time_max_def)
  then have "unat (now + d) = unat now + unat d" by (simp add: unat_word_ariths)
  then show ?thesis using assms(2) by (simp add: word_less_nat_alt)
qed

lemma unat_socket_invalid: "unat socket_invalid = 18446744073709551615"
  by (simp add: socket_invalid_def unsigned_minus_1_eq_mask mask_eq_exp_minus_1)

lemma watch_socket_token:
  assumes "inkwell_loop_watch_socket B L s events callback userdata w = (Inr token, L', w')"
  shows "s \<noteq> socket_invalid" "0 \<le> token"
proof -
  have s: "\<not> int_max < unat s" using assms by (auto simp: inkwell_loop_watch_socket_def split: if_splits)
  then show "s \<noteq> socket_invalid" by (auto simp: unat_socket_invalid int_max_def)
  show "0 \<le> token" using assms s
    by (auto simp: inkwell_loop_watch_socket_def inkwell_loop_add_fd_def Let_def split: if_splits prod.splits sum.splits option.splits)
qed

context mqtt_services
begin

lemma enter_ok:
  assumes "mqtt_set_state E st (c, L, w) = Some (same, c', L', w')" "st \<in> {CLIENT_CONNECTING, CLIENT_SECURING, CLIENT_GREETING}"
    "mqtt_wf c" "mqtt_conn c" "0 < mc_deadline_ms c" "length (mc_in c) < mqtt_packet_max"
  shows "mqtt_rely (c\<lparr>mc_state := st\<rparr>) c'" "mqtt_ok c c'" "same \<longleftrightarrow> mc_generation c' = mc_generation c"
proof -
  have "mqtt_wf (c\<lparr>mc_state := st\<rparr>)" "mqtt_conn (c\<lparr>mc_state := st\<rparr>)" using assms(3,4) by (simp_all add: mqtt_inv_simps)
  then have inv: "mqtt_inv (c\<lparr>mc_state := st\<rparr>)" using assms(2,5) by (auto simp: mqtt_inv_def)
  note post = set_state_post [OF assms(1) inv]
  show "mqtt_rely (c\<lparr>mc_state := st\<rparr>) c'" by (rule post(1))
  show "mqtt_ok c c'" using mqtt_rely_ok [OF post(1)] assms(6) by (simp add: mqtt_ok_def)
  show "same \<longleftrightarrow> mc_generation c' = mc_generation c" by (rule post(2))
qed

lemma send_connect_post:
  assumes "mqtt_send_connect E (c, L, w) = Some (c', L', w')" "mqtt_inv c" "mc_socket c \<noteq> socket_invalid" "length (mc_in c) < mqtt_packet_max"
  shows "mqtt_ok c c'"
proof -
  have wf: "mqtt_wf c" "mc_has_loop c" using mqtt_inv_wf [OF assms(2)] mqtt_inv_conn [OF assms(2,3)] by (simp_all add: mqtt_conn_def)
  define enc where "enc = inkwell_mqtt_encode_connect (mqtt_client_id_max + mqtt_username_max + mqtt_password_max + 32) (Some
       \<lparr>con_client_id = Some (cfg_client_id (mc_config c)),
        con_username = (if cfg_username (mc_config c) \<noteq> [] then Some (cfg_username (mc_config c)) else None),
        con_password = (if cfg_password (mc_config c) \<noteq> [] then Some (cfg_password (mc_config c)) else None),
        con_keepalive_s = mqtt_keepalive_s, con_clean_session = True\<rparr>)"
  consider (refused) "mqtt_fail_own E REFUSAL_BAD_ADDRESS 0 (c, L, w) = Some (c', L', w')"
    | (queued) packet r c1 L1 w1 where "mqtt_queue E packet (c, L, w) = Some (r, c1, L1, w1)"
        "(if isl r then mqtt_fail_net E (inkwell_net_reason_from_errno (errno_number ENOBUFS)) (- errno_number ENOBUFS) (c1, L1, w1)
          else do { (_, s) \<leftarrow> mqtt_set_state E CLIENT_GREETING
                      (c1\<lparr>mc_deadline_ms := mc_now_ms c1 + mqtt_handshake_timeout_ms, mc_last_heard_ms := mc_now_ms c1\<rparr>, L1, w1);
                    Some s }) = Some (c', L', w')"
    using assms(1) [unfolded mqtt_send_connect_def Let_def prod.case enc_def [symmetric]]
    by (cases enc) (auto simp: bind_eq_Some_conv split: prod.splits)
  then show ?thesis
  proof cases
    case refused
    then show ?thesis using fail_own_post wf mqtt_gone_ok by blast
  next
    case queued
    note q = queue_fail_post [OF queued(1) assms(2,3)]
    show ?thesis
    proof (cases "isl r")
      case True
      have "inkwell_net_reason_from_errno (errno_number ENOBUFS) \<noteq> NET_OK" using errno_number_pos [of ENOBUFS] by (intro reason_from_errno_failed) simp
      then show ?thesis using q(3) queued(2) True mqtt_gone_ok by auto
    next
      case False
      define d where "d = c1\<lparr>mc_deadline_ms := mc_now_ms c1 + mqtt_handshake_timeout_ms, mc_last_heard_ms := mc_now_ms c1\<rparr>"
      obtain same where s: "mqtt_set_state E CLIENT_GREETING (d, L1, w1) = Some (same, c', L', w')"
        using queued(2) False by (auto simp: d_def bind_eq_Some_conv)
      have inv1: "mqtt_inv c1" "mc_has_loop c1 = mc_has_loop c" using q(1) by (simp_all add: mqtt_rely_def)
      then have "mqtt_wf c1" "mqtt_conn c1" using q(2) mqtt_inv_wf mqtt_inv_conn by blast+
      then have "mqtt_wf d" "mqtt_conn d" "0 < mc_deadline_ms d"
        using deadline_pos [of "mc_now_ms c1" mqtt_handshake_timeout_ms] by (simp_all add: d_def mqtt_inv_simps mqtt_handshake_timeout_ms_def)
      moreover have "length (mc_in d) < mqtt_packet_max" using mqtt_rely_quiet [OF q(1) assms(4)] by (simp add: d_def)
      ultimately have "mqtt_ok d c'" using enter_ok(2) [OF s] by blast
      then show ?thesis by (rule mqtt_ok_cong) (simp add: d_def inv1(2))
    qed
  qed
qed

lemma secure_post:
  assumes "mqtt_secure E (c, L, w) = Some (c', L', w')" "mqtt_inv c" "mc_has_loop c" "length (mc_in c) < mqtt_packet_max"
  shows "mqtt_ok c c'"
proof -
  obtain r t w1 where h: "t_handshake (me_tls E) (mc_tls c) w = (r, t, w1)" by (metis prod_cases3)
  define d where "d = c\<lparr>mc_tls := t\<rparr>"
  have d: "mc_has_loop d = mc_has_loop c" "mqtt_wf d" using mqtt_inv_wf [OF assms(2)] by (simp_all add: d_def mqtt_inv_simps)
  have fail: "mqtt_fail_tls E (d, L, w1) = Some (c', L', w') \<Longrightarrow> mqtt_ok c c'"
    using fail_tls_post [OF _ d(2)] d(1) assms(3) mqtt_gone_ok mqtt_ok_cong by blast
  show ?thesis
  proof (cases "mc_socket c = socket_invalid")
    case True
    then have "tls_state (mc_tls c) = None" using mqtt_inv_closed [OF assms(2)] by (simp add: mqtt_closed_def)
    then have "isl r" "r \<noteq> Inl EAGAIN" using tls_no_session [OF h] by blast+
    then show ?thesis using assms(1) h fail by (auto simp: mqtt_secure_def d_def isl_def split: if_splits)
  next
    case False
    have "conn_step c d" using assms(2) by (simp add: d_def mqtt_inv_def mqtt_wf_def conn_step_simps)
    then have inv: "mqtt_inv d" "mc_socket d \<noteq> socket_invalid" "length (mc_in d) < mqtt_packet_max"
      using conn_step_inv [OF _ assms(2) False] False assms(4) by (simp_all add: d_def)
    have "mqtt_ok c c'" if "mqtt_send_connect E (d, L, w1) = Some (c', L', w')"
      by (rule mqtt_ok_cong [OF send_connect_post [OF that inv] d(1)])
    moreover have "mqtt_ok c c'" if "mqtt_arm E (d, L, w1) = (c', L', w')"
      by (rule mqtt_ok_cong [OF arm_ok [OF that inv] d(1)])
    ultimately show ?thesis using assms(1) h fail by (auto simp: mqtt_secure_def d_def split: sum.splits if_splits)
  qed
qed


lemma finish_connect_post:
  assumes "mqtt_finish_connect E (c, L, w) = Some (c', L', w')" "mqtt_inv c" "mc_socket c \<noteq> socket_invalid" "length (mc_in c) < mqtt_packet_max"
  shows "mqtt_ok c c'"
proof -
  have wf: "mqtt_wf c" "mc_has_loop c" and conn: "mqtt_conn c"
    using mqtt_inv_wf [OF assms(2)] mqtt_inv_conn [OF assms(2,3)] by (simp_all add: mqtt_conn_def)
  obtain r w1 where p: "inkwell_socket_pending_error (me_net E) (mc_socket c) w = (r, w1)" by (metis surj_pair)
  note body = assms(1) [unfolded mqtt_finish_connect_def prod.case p]
  show ?thesis
  proof (cases r)
    case (Inl e)
    have "inkwell_net_reason_from_errno (errno_number e) \<noteq> NET_OK" using errno_number_pos [of e] by (intro reason_from_errno_failed) simp
    then show ?thesis using body Inl fail_net_post [OF _ wf] mqtt_gone_ok by auto
  next
    case (Inr _)
    show ?thesis
    proof (cases "cfg_tls_enabled (mc_config c)")
      case False
      then show ?thesis using body Inr send_connect_post [OF _ assms(2-4)] by simp
    next
      case tls: True
      obtain r2 t w2 where s: "t_start (me_tls E) (mc_tls c) (mc_socket c) (mc_host c) (mc_ca_bundle c) w1 = (r2, t, w2)" by (metis prod_cases3)
      define d where "d = c\<lparr>mc_tls := t\<rparr>"
      have d: "mqtt_wf d" "mc_has_loop d" using wf by (simp_all add: d_def mqtt_inv_simps)
      show ?thesis
      proof (cases r2)
        case (Inl e)
        have "mqtt_gone d c'" using body \<open>r = _\<close> tls s Inl fail_own_post [OF _ d] fail_tls_post [OF _ d] by (auto simp: d_def split: if_splits)
        then show ?thesis using mqtt_ok_cong [OF mqtt_gone_ok] by (simp add: d_def)
      next
        case (Inr _)
        define e where "e = d\<lparr>mc_deadline_ms := mc_now_ms d + mqtt_handshake_timeout_ms\<rparr>"
        have e: "mqtt_wf e" "mqtt_conn e" "0 < mc_deadline_ms e" "length (mc_in e) < mqtt_packet_max" "mc_has_loop e = mc_has_loop c"
          using d conn deadline_pos [of "mc_now_ms c" mqtt_handshake_timeout_ms] assms(4)
          by (simp_all add: e_def d_def mqtt_inv_simps mqtt_handshake_timeout_ms_def)
        obtain same c2 L2 w3 where s2: "mqtt_set_state E CLIENT_SECURING (e, L, w2) = Some (same, c2, L2, w3)"
          and rest: "(if \<not> same then Some (c2, L2, w3) else mqtt_secure E (c2, L2, w3)) = Some (c', L', w')"
          using body \<open>r = _\<close> tls s Inr by (auto simp: e_def d_def bind_eq_Some_conv)
        have ok: "mqtt_ok e c2" using enter_ok(2) [OF s2 _ e(1-4)] by simp
        then have "mqtt_ok c2 c'" if "mqtt_secure E (c2, L2, w3) = Some (c', L', w')"
          using secure_post [OF that] wf(2) e(5) by (simp add: mqtt_ok_def)
        then show ?thesis using rest ok e(5) by (auto simp: mqtt_ok_def split: if_splits)
      qed
    qed
  qed
qed

lemma fd_callback_post:
  assumes "mqtt_fd_callback E events (c, L, w) = Some (c', L', w')" "mqtt_inv c" "length (mc_in c) < mqtt_packet_max"
  shows "mqtt_ok c c'"
proof (cases "mc_socket c = socket_invalid")
  case True
  then show ?thesis using assms by (simp add: mqtt_fd_callback_def mqtt_ok_def)
next
  case sock: False
  have wf: "mqtt_wf c" "mc_has_loop c" using mqtt_inv_wf [OF assms(2)] mqtt_inv_conn [OF assms(2) sock] by (simp_all add: mqtt_conn_def)
  have refl: "mqtt_ok c c" using assms(2,3) by (simp add: mqtt_ok_def)
  note closed = fail_net_post [of NET_CLOSED 0, THEN mqtt_gone_ok]
  show ?thesis
  proof (cases "mc_state c = CLIENT_CONNECTING \<or> events AND (loop_err OR loop_hup) \<noteq> 0 \<or> mc_state c = CLIENT_SECURING")
    case True
    then show ?thesis
      using assms(1) sock finish_connect_post [OF _ assms(2) sock assms(3)] closed [OF _ wf] secure_post [OF _ assms(2) wf(2) assms(3)] refl
      by (auto simp: mqtt_fd_callback_def split: if_splits)
  next
    case False
    define read_now where "read_now \<longleftrightarrow> events AND loop_in \<noteq> 0 \<or> events AND loop_out \<noteq> 0 \<and> mc_read_wants_write c"
    note body = assms(1) [unfolded mqtt_fd_callback_def prod.case Let_def read_now_def [symmetric]]
    obtain r c1 L1 w1 where f: "(if events AND loop_out \<noteq> 0 then mqtt_flush E (c, L, w) else Some (Inr (), c, L, w)) = Some (r, c1, L1, w1)"
      and rest: "(if isl r then mqtt_fail_net E NET_CLOSED 0 (c1, L1, w1)
         else if read_now \<and> mc_socket c1 \<noteq> socket_invalid then mqtt_read_ready E (c1, L1, w1) else Some (c1, L1, w1)) = Some (c', L', w')"
      using body sock False by (auto simp: bind_eq_Some_conv)
    have "out_wf c" using wf(1) by (simp add: mqtt_wf_def)
    then have "io_step c c1" using f flush_step [of c L w r c1 L1 w1] io_step_refl by (auto split: if_splits)
    then have rely: "mqtt_rely c c1" and sock1: "mc_socket c1 = mc_socket c" using io_step_rely assms(2) sock io_step_keeps(2) by blast+
    then have c1: "mqtt_inv c1" "mc_has_loop c1 = mc_has_loop c" "length (mc_in c1) < mqtt_packet_max"
      using mqtt_rely_quiet [OF rely assms(3)] by (simp_all add: mqtt_rely_def)
    have "mqtt_ok c1 c'"
      using rest closed [of c1 L1 w1 c' L' w'] read_ready_post [of c1 L1 w1 c' L' w'] c1 wf(2) sock sock1 mqtt_inv_wf [OF c1(1)]
      by (auto simp: mqtt_ok_def split: if_splits)
    then show ?thesis using c1(2) mqtt_ok_cong by blast
  qed
qed


lemma open_post:
  assumes "mqtt_open E address (c, L, w) = Some (c', L', w')" "mqtt_wf c" "mqtt_closed c" "mc_has_loop c"
  shows "mqtt_ok c c'"
proof -
  have fail: "mqtt_ok c c'" if "mqtt_fail_net E (inkwell_net_reason_from_errno (errno_number e)) (- errno_number e) (d, L1, w1) = Some (c', L', w')"
    "mqtt_wf d" "mc_has_loop d = mc_has_loop c" for e d L1 w1
  proof -
    have "inkwell_net_reason_from_errno (errno_number e) \<noteq> NET_OK" using errno_number_pos [of e] by (intro reason_from_errno_failed) simp
    then show ?thesis using mqtt_ok_cong [OF mqtt_gone_ok [OF fail_net_post [OF that(1,2)]] that(3)] that(3) assms(4) by simp
  qed
  obtain r w1 where op: "inkwell_socket_open (me_net E) (ss_family address) sock_stream 0 w = (r, w1)" by (metis surj_pair)
  note body = assms(1) [unfolded mqtt_open_def prod.case op]
  show ?thesis
  proof (cases r)
    case (Inl e)
    then show ?thesis using body fail [of e c L w1] assms(2) by simp
  next
    case (Inr sock)
    define w2 where "w2 = snd (inkwell_socket_set_option (me_net E) sock SOCKET_NO_DELAY 1 w1)"
    obtain r2 L2 w3 where wt: "inkwell_loop_watch_socket (me_backend E) L sock (loop_in OR loop_out) (fst (me_callback E)) (snd (me_callback E)) w2
        = (r2, L2, w3)" by (metis prod_cases3)
    note body = body [unfolded Inr sum.case prod.case Let_def w2_def [symmetric] wt]
    show ?thesis
    proof (cases r2)
      case (Inl e)
      then show ?thesis using body fail [of e c L2] assms(2) by simp
    next
      case (Inr token)
      define d where "d = c\<lparr>mc_socket := sock, mc_token := token, mc_want_write := True\<rparr>"
      obtain r3 w4 where cn: "inkwell_socket_connect (me_net E) sock address w3 = (r3, w4)" by (metis surj_pair)
      note body = body [unfolded Inr sum.case prod.case d_def [symmetric] cn]
      have d: "mqtt_wf d" "mc_has_loop d = mc_has_loop c" "mqtt_conn d" "mc_in d = []"
        using assms(2-4) watch_socket_token [OF wt [unfolded Inr]] by (simp_all add: d_def mqtt_inv_simps)
      show ?thesis
      proof (cases "r3 \<noteq> Inr () \<and> r3 \<noteq> Inl EINPROGRESS")
        case True
        then show ?thesis using body fail [of "projl r3" d L2 w4] d(1,2) by simp
      next
        case False
        define e where "e = d\<lparr>mc_deadline_ms := mc_now_ms d + mqtt_connect_timeout_ms\<rparr>"
        obtain same where s: "mqtt_set_state E CLIENT_CONNECTING (e, L2, w4) = Some (same, c', L', w')"
          using body False by (auto simp: e_def bind_eq_Some_conv)
        have "mqtt_wf e" "mqtt_conn e" "0 < mc_deadline_ms e" "length (mc_in e) < mqtt_packet_max" "mc_has_loop e = mc_has_loop c"
          using d deadline_pos [of "mc_now_ms d" mqtt_connect_timeout_ms]
          by (simp_all add: e_def mqtt_inv_simps mqtt_connect_timeout_ms_def mqtt_packet_max_def)
        then show ?thesis using enter_ok(2) [OF s] mqtt_ok_cong by simp
      qed
    qed
  qed
qed

lemma on_resolved_post:
  assumes "mqtt_on_resolved E result (c, L, w) = Some (c', L', w')" "mqtt_inv c" "length (mc_in c) < mqtt_packet_max"
  shows "mqtt_ok c c'"
proof (cases "mc_state c = CLIENT_RESOLVING")
  case False
  then show ?thesis using assms by (simp add: mqtt_on_resolved_def mqtt_ok_def)
next
  case True
  then have c: "mqtt_wf c" "mqtt_closed c" "mc_has_loop c" using assms(2) by (simp_all add: mqtt_inv_def)
  then show ?thesis
    using assms(1) True open_post [OF _ c] fail_net_post [OF _ c(1,3)] reason_from_resolve_failed mqtt_gone_ok
    by (auto simp: mqtt_on_resolved_def split: if_splits)
qed

lemma attempt_post:
  assumes "mqtt_attempt E (c, L, w) = Some (c', L', w')" "mqtt_wf c" "mqtt_closed c" "mc_has_loop c"
  shows "mqtt_ok c c'"
proof -
  define d where "d = c\<lparr>mc_failure := no_mqtt_failure\<rparr>"
  have d: "mqtt_wf d" "mqtt_closed d" "mc_has_loop d" "mc_has_loop d = mc_has_loop c"
    using assms(2-4) by (simp_all add: d_def mqtt_inv_simps no_mqtt_failure_def inkwell_net_failed_def no_failure_def)
  note body = assms(1) [unfolded mqtt_attempt_def prod.case Let_def d_def [symmetric]]
  show ?thesis
  proof (cases "inkwell_socket_parse_literal (me_net E) (mc_host d) (mc_port d)")
    case (Some address)
    then show ?thesis using body mqtt_ok_cong [OF open_post [OF _ d(1-3)] d(4)] by simp
  next
    case None
    obtain r rs L1 w1 where st: "r_start (me_resolver E) (mc_resolve d) L (mc_host d) (mc_port d) (mc_now_ms d) w = (r, rs, L1, w1)" by (metis prod_cases4)
    define e where "e = d\<lparr>mc_resolve := rs\<rparr>"
    have e: "mqtt_wf e" "mqtt_closed e" "mc_has_loop e" "mc_has_loop e = mc_has_loop c" using d by (simp_all add: e_def mqtt_inv_simps)
    show ?thesis
    proof (cases r)
      case (Inl err)
      then show ?thesis using body None st mqtt_ok_cong [OF mqtt_gone_ok [OF fail_net_post [OF _ e(1,3)]] e(4)] by (simp add: e_def)
    next
      case (Inr _)
      have "e\<lparr>mc_deadline_ms := 0\<rparr> = e" using e(2) by (simp add: mqtt_closed_def)
      then obtain same where s: "mqtt_set_state E CLIENT_RESOLVING (e, L1, w1) = Some (same, c', L', w')"
        using body None st Inr by (auto simp: e_def bind_eq_Some_conv)
      have "mqtt_wf (e\<lparr>mc_state := CLIENT_RESOLVING\<rparr>)" "mqtt_closed (e\<lparr>mc_state := CLIENT_RESOLVING\<rparr>)" using e by (simp_all add: mqtt_inv_simps)
      then have "mqtt_inv (e\<lparr>mc_state := CLIENT_RESOLVING\<rparr>)" using e(3) by (simp add: mqtt_inv_def)
      then have "mqtt_ok (e\<lparr>mc_state := CLIENT_RESOLVING\<rparr>) c'"
        using mqtt_rely_ok [OF set_state_post(1) [OF s]] e(2) by (simp add: mqtt_closed_def mqtt_packet_max_def)
      then show ?thesis using e(4) by (simp add: mqtt_ok_def)
    qed
  qed
qed


section \<open>The public face\<close>

lemma start_post:
  assumes "inkwell_mqtt_client_start E config on_message on_state userdata now_ms (c, L, w) = Some (r, c', L', w')"
    "mqtt_inv c" "length (mc_in c) < mqtt_packet_max" "now_ms \<le> time_max"
  shows "mqtt_ok c c'"
proof -
  define bumped where "bumped = c\<lparr>mc_generation := mc_generation c + 1\<rparr>"
  obtain c1 L1 w1 where cl: "mqtt_close E (bumped, L, w) = (c1, L1, w1)" by (metis prod_cases3)
  then obtain rs t where c1: "c1 = mqtt_reset rs t bumped" "tls_state t = None" by (rule close_reset)
  have refl: "mqtt_ok c c" using assms(2,3) by (simp add: mqtt_ok_def)
  show ?thesis
  proof (cases "\<exists>cfg. config = Some cfg \<and> mc_has_loop c \<and> cfg_address cfg \<noteq> [] \<and> cfg_client_id cfg \<noteq> []
      \<and> \<not> isl (inkwell_mqtt_target_split (Some (cfg_address cfg)) mqtt_address_max)")
    case False
    then have "c' = c" using assms(1) by (auto simp: inkwell_mqtt_client_start_def split: option.splits if_splits sum.splits)
    then show ?thesis using refl by simp
  next
    case True
    then obtain cfg host port where cfg: "config = Some cfg" "mc_has_loop c" "cfg_address cfg \<noteq> []" "cfg_client_id cfg \<noteq> []"
      "inkwell_mqtt_target_split (Some (cfg_address cfg)) mqtt_address_max = Inr (host, port)" by (auto simp: isl_def sum.case_eq_if) (metis old.sum.exhaust surj_pair)
    define d where "d = c1\<lparr>mc_now_ms := now_ms, mc_config := cfg, mc_on_message := on_message, mc_on_state := on_state,
                       mc_userdata := userdata, mc_failures := 0, mc_retry_at_ms := 0, mc_failure := no_mqtt_failure,
                       mc_host := the (snd (inkwell_str_copy mqtt_address_max (Some host))),
                       mc_port := (if port = 0 then (if cfg_tls_enabled cfg then mqtt_port_tls else mqtt_port) else port)\<rparr>"
    have at: "mqtt_attempt E (d, L1, w1) = Some (c', L', w')"
      using assms(1) cfg cl by (auto simp: inkwell_mqtt_client_start_def bumped_def d_def Let_def bind_eq_Some_conv)
    have "mqtt_wf bumped" using mqtt_inv_wf [OF assms(2)] by (simp add: bumped_def mqtt_inv_simps)
    then have "mqtt_wf c1" "mqtt_closed c1" "mc_has_loop c1" using c1 mqtt_reset_wf mqtt_reset_closed cfg(2) by (simp_all add: bumped_def)
    then have "mqtt_wf d" "mqtt_closed d" "mc_has_loop d" "mc_has_loop d = mc_has_loop c"
      using assms(4) cfg(2) by (simp_all add: d_def mqtt_inv_simps no_mqtt_failure_def inkwell_net_failed_def no_failure_def)
    then show ?thesis using attempt_post [OF at] mqtt_ok_cong by blast
  qed
qed

lemma stop_post:
  assumes "inkwell_mqtt_client_stop E (c, L, w) = Some (c', L', w')" "mqtt_inv c" "length (mc_in c) < mqtt_packet_max"
  shows "mqtt_ok c c'"
proof (cases "mc_state c = CLIENT_OFF")
  case True
  then show ?thesis using assms by (simp add: inkwell_mqtt_client_stop_def mqtt_ok_def)
next
  case False
  define cw where "cw = (if mc_state c = CLIENT_READY then
      (case inkwell_mqtt_encode_empty 2 MQTT_DISCONNECT of Inl _ \<Rightarrow> (c, w) | Inr (_, packet) \<Rightarrow> snd (mqtt_raw_write E c packet w)) else (c, w))"
  have "\<exists>t. fst cw = c\<lparr>mc_tls := t\<rparr>"
  proof -
    have "\<exists>t. c = c\<lparr>mc_tls := t\<rparr>" by (intro exI [of _ "mc_tls c"]) simp
    moreover have "\<exists>t. fst (snd (mqtt_raw_write E c packet w)) = c\<lparr>mc_tls := t\<rparr>" for packet
      using raw_write_step(1) [of c packet w "fst (mqtt_raw_write E c packet w)" "fst (snd (mqtt_raw_write E c packet w))"
          "snd (snd (mqtt_raw_write E c packet w))"] by simp
    ultimately show ?thesis by (auto simp: cw_def split: sum.splits prod.splits)
  qed
  then obtain t where t: "fst cw = c\<lparr>mc_tls := t\<rparr>" by blast
  define bumped where "bumped = c\<lparr>mc_tls := t, mc_generation := mc_generation c + 1\<rparr>"
  obtain c1 L1 w1 where cl: "mqtt_close E (bumped, L, snd cw) = (c1, L1, w1)" by (metis prod_cases3)
  then obtain rs t' where c1: "c1 = mqtt_reset rs t' bumped" "tls_state t' = None" by (rule close_reset)
  define d where "d = c1\<lparr>mc_failure := no_mqtt_failure, mc_failures := 0, mc_retry_at_ms := 0\<rparr>"
  have cw: "cw = (c\<lparr>mc_tls := t\<rparr>, snd cw)" using t by (metis prod.collapse)
  obtain same where s: "mqtt_set_state E CLIENT_OFF (d, L1, w1) = Some (same, c', L', w')"
    using assms(1) False cl cw by (auto simp: inkwell_mqtt_client_stop_def cw_def [symmetric] bumped_def d_def Let_def bind_eq_Some_conv split: prod.splits)
  have "mqtt_wf bumped" using mqtt_inv_wf [OF assms(2)] by (simp add: bumped_def mqtt_inv_simps)
  then have "mqtt_wf c1" "mqtt_closed c1" "mc_has_loop c1 = mc_has_loop c" using c1 mqtt_reset_wf mqtt_reset_closed by (simp_all add: bumped_def)
  then have d: "mqtt_inv (d\<lparr>mc_state := CLIENT_OFF\<rparr>)" "mc_has_loop d = mc_has_loop c" "mc_in d = []"
    by (simp_all add: d_def mqtt_inv_simps no_mqtt_failure_def inkwell_net_failed_def no_failure_def)
  show ?thesis
    using mqtt_rely_ok [OF set_state_post(1) [OF s d(1)]] d(2,3) by (simp add: mqtt_ok_def mqtt_packet_max_def)
qed

lemma shutdown_post:
  assumes "inkwell_mqtt_client_shutdown E (c, L, w) = (c', L', w')" "mqtt_inv c"
  shows "mqtt_ok c c'"
proof -
  define bumped where "bumped = c\<lparr>mc_generation := mc_generation c + 1\<rparr>"
  obtain c1 L1 w1 where cl: "mqtt_close E (bumped, L, w) = (c1, L1, w1)" by (metis prod_cases3)
  then obtain rs t where c1: "c1 = mqtt_reset rs t bumped" "tls_state t = None" by (rule close_reset)
  have "mqtt_wf bumped" using mqtt_inv_wf [OF assms(2)] by (simp add: bumped_def mqtt_inv_simps)
  then have "mqtt_wf c1" "mqtt_closed c1" "mc_has_loop c1 = mc_has_loop c" using c1 mqtt_reset_wf mqtt_reset_closed by (simp_all add: bumped_def)
  moreover obtain rs' where "c' = c1\<lparr>mc_resolve := rs', mc_state := CLIENT_OFF\<rparr>"
    using assms(1) cl by (auto simp: inkwell_mqtt_client_shutdown_def bumped_def Let_def split: prod.splits)
  ultimately show ?thesis by (simp add: mqtt_ok_def mqtt_inv_simps mqtt_packet_max_def)
qed

lemma subscribe_post:
  assumes "inkwell_mqtt_client_subscribe E f (c, L, w) = Some (r, c', L', w')" "mqtt_inv c"
  shows "mqtt_rely c c'"
proof (cases "\<exists>t. f = Some t \<and> t \<noteq> [] \<and> length t < mqtt_filter_max \<and> t \<notin> set (mc_filters c) \<and> length (mc_filters c) < mqtt_filters_max")
  case False
  then have "c' = c" using assms(1) by (auto simp: inkwell_mqtt_client_subscribe_def split: option.splits if_splits)
  then show ?thesis using assms(2) mqtt_rely_refl by simp
next
  case True
  then obtain t where t: "f = Some t" "t \<noteq> []" "length t < mqtt_filter_max" "t \<notin> set (mc_filters c)" "length (mc_filters c) < mqtt_filters_max" by blast
  define d where "d = c\<lparr>mc_filters := mc_filters c @ [t]\<rparr>"
  have p: "mqtt_pump_subscribes E d L w = Some (c', L', w')"
    using assms(1) t by (auto simp: inkwell_mqtt_client_subscribe_def d_def bind_eq_Some_conv)
  have "mqtt_inv d" using assms(2) t by (cases "mc_state c") (simp_all add: d_def mqtt_inv_simps)
  then have "mqtt_rely d c'" using pump_post [OF p] by blast
  then show ?thesis by (rule mqtt_rely_view) (simp add: rely_view_def d_def)
qed


lemma publish_post:
  assumes "inkwell_mqtt_client_publish E topic payload retained (c, L, w) = Some (r, c', L', w')" "mqtt_inv c"
  shows "mqtt_rely c c'"
proof -
  define counted where "counted f d = d\<lparr>mc_stats := f (mc_stats d)\<rparr>" for f and d :: mqtt_client
  have counted: "mqtt_rely c (counted f d)" if "mqtt_rely c d" for f d using that by (simp add: counted_def mqtt_rely_def)
  have drop: "mqtt_drop = counted (\<lambda>s. s\<lparr>ms_dropped := ms_dropped s + 1\<rparr>)" by (simp add: counted_def mqtt_drop_def fun_eq_iff)
  have dropped: "mqtt_rely c (mqtt_drop d)" if "mqtt_rely c d" for d using counted that unfolding drop by blast
  consider (same) "c' = c" | (dropped) "c' = mqtt_drop c"
    | (queued) packet q c1 L1 w1 where "mc_state c = CLIENT_READY" "mqtt_queue E packet (c, L, w) = Some (q, c1, L1, w1)"
        "(case q of
            Inl e \<Rightarrow> if e = ENOSPC then Some (Inl e, mqtt_drop c1, L1, w1)
                     else do { s \<leftarrow> mqtt_fail_net E NET_CLOSED 0 (mqtt_drop c1, L1, w1); Some (Inl e, s) }
          | Inr _ \<Rightarrow> Some (Inr (), counted (\<lambda>s. s\<lparr>ms_published := ms_published s + 1\<rparr>) c1, L1, w1)) = Some (r, c', L', w')"
    using assms(1) unfolding inkwell_mqtt_client_publish_def counted_def prod.case
    by (cases "inkwell_mqtt_encode_publish mqtt_packet_max topic payload retained")
      (auto simp: bind_eq_Some_conv split: if_splits prod.splits)
  then show ?thesis
  proof cases
    case same
    then show ?thesis using assms(2) mqtt_rely_refl by simp
  next
    case dropped
    then show ?thesis using \<open>mqtt_rely c c \<Longrightarrow> mqtt_rely c (mqtt_drop c)\<close> assms(2) mqtt_rely_refl by simp
  next
    case queued
    have sock: "mc_socket c \<noteq> socket_invalid" using queued(1) assms(2) by (simp add: mqtt_inv_def mqtt_conn_def)
    note q = queue_fail_post [OF queued(2) assms(2) sock]
    have d: "mqtt_rely c (mqtt_drop c1)" using \<open>\<And>d. mqtt_rely c d \<Longrightarrow> mqtt_rely c (mqtt_drop d)\<close> q(1) .
    have "mqtt_rely c c'" if "mqtt_fail_net E NET_CLOSED 0 (mqtt_drop c1, L1, w1) = Some (c', L', w')"
    proof -
      have "mc_has_loop c" using mqtt_inv_conn [OF assms(2) sock] by (simp add: mqtt_conn_def)
      then have gone: "mqtt_gone (mqtt_drop c1) c'" using fail_net_post [OF that] d mqtt_inv_wf by (auto simp: mqtt_rely_def)
      have "mqtt_gone c c'"
        using mqtt_gone_cong [OF gone, of c] q(1) d io_step_keeps(8) [OF queue_step [OF queued(2)]] assms(2)
        by (simp add: mqtt_drop_def mqtt_rely_def mqtt_inv_def mqtt_wf_def)
      then show ?thesis by (rule mqtt_gone_rely)
    qed
    moreover have "c' = mqtt_drop c1 \<or> c' = counted (\<lambda>s. s\<lparr>ms_published := ms_published s + 1\<rparr>) c1 \<or>
         mqtt_fail_net E NET_CLOSED 0 (mqtt_drop c1, L1, w1) = Some (c', L', w')"
      using queued(3) by (cases q) (auto simp: bind_eq_Some_conv split: if_splits)
    ultimately show ?thesis using d counted [OF q(1)] by blast
  qed
qed

lemma resolved_post:
  assumes "mqtt_resolved E result (c, L, w) = Some (c', L', w')" "mqtt_inv c" "length (mc_in c) < mqtt_packet_max"
  shows "mqtt_ok c c'"
  using assms on_resolved_post [OF _ assms(2,3)] by (auto simp: mqtt_resolved_def mqtt_ok_def split: option.splits)

lemma resolve_output_post:
  assumes "mqtt_resolve_output E events (c, L, w) = Some (c', L', w')" "mqtt_inv c" "length (mc_in c) < mqtt_packet_max"
  shows "mqtt_ok c c'"
proof -
  obtain result rs L1 w1 where "mqtt_resolved E result (c\<lparr>mc_resolve := rs\<rparr>, L1, w1) = Some (c', L', w')"
    using assms(1) by (auto simp: mqtt_resolve_output_def bind_eq_Some_conv)
  then have "mqtt_ok (c\<lparr>mc_resolve := rs\<rparr>) c'" by (rule resolved_post) (use assms(2,3) in simp_all)
  then show ?thesis by (rule mqtt_ok_cong) simp
qed

lemma resolve_tick_post:
  assumes "mqtt_resolve_tick E now (c, L, w) = Some (c', L', w')" "mqtt_inv c" "length (mc_in c) < mqtt_packet_max"
  shows "mqtt_ok c c'"
proof -
  obtain result rs L1 w1 c2 L2 w2 where r: "mqtt_resolved E result (c\<lparr>mc_resolve := rs\<rparr>, L1, w1) = Some (c2, L2, w2)"
    and rest: "(let (result, resolve, L, w) = r_tick_deadline (me_resolver E) (mc_resolve c2) L2 now w2
        in mqtt_resolved E result (c2\<lparr>mc_resolve := resolve\<rparr>, L, w)) = Some (c', L', w')"
    using assms(1) by (auto simp: mqtt_resolve_tick_def bind_eq_Some_conv)
  have ok: "mqtt_ok (c\<lparr>mc_resolve := rs\<rparr>) c2" using r by (rule resolved_post) (use assms(2,3) in simp_all)
  obtain result2 rs2 L3 w3 where "mqtt_resolved E result2 (c2\<lparr>mc_resolve := rs2\<rparr>, L3, w3) = Some (c', L', w')"
    using rest by (auto split: prod.splits)
  then have "mqtt_ok (c2\<lparr>mc_resolve := rs2\<rparr>) c'" by (rule resolved_post) (use ok in \<open>simp_all add: mqtt_ok_def\<close>)
  then show ?thesis using ok by (simp add: mqtt_ok_def)
qed

lemma tick_ready_post:
  assumes "mqtt_tick_ready E now (c, L, w) = Some (c', L', w')" "mqtt_inv c" "mc_state c = CLIENT_READY"
  shows "mqtt_rely c c'"
proof -
  have sock: "mc_socket c \<noteq> socket_invalid" and wf: "mqtt_wf c" "mc_has_loop c" using assms(2,3) by (simp_all add: mqtt_inv_def mqtt_conn_def)
  consider (same) "c' = c" | (silent) "mqtt_fail_net E NET_TIMED_OUT 0 (c, L, w) = Some (c', L', w')"
    | (queued) packet q c1 L1 w1 where "mqtt_queue E packet (c, L, w) = Some (q, c1, L1, w1)"
        "c' = c1\<lparr>mc_next_ping_ms := now + mqtt_ping_interval_ms\<rparr> \<or> mqtt_fail_net E NET_CLOSED 0 (c1, L1, w1) = Some (c', L', w')"
    using assms(1) unfolding mqtt_tick_ready_def prod.case
    by (cases "inkwell_mqtt_encode_empty 2 MQTT_PINGREQ") (auto simp: bind_eq_Some_conv split: if_splits prod.splits)
  then show ?thesis
  proof cases
    case same
    then show ?thesis using assms(2) mqtt_rely_refl by simp
  next
    case silent
    then show ?thesis using fail_net_post [OF silent wf] mqtt_gone_rely by blast
  next
    case queued
    note q = queue_fail_post [OF queued(1) assms(2) sock]
    let ?d = "c1\<lparr>mc_next_ping_ms := now + mqtt_ping_interval_ms\<rparr>"
    have "conn_step c1 ?d" using q(1) by (simp add: mqtt_rely_def mqtt_inv_def mqtt_wf_def conn_step_simps)
    then have "mqtt_inv ?d" using conn_step_inv q(1,2) by (simp add: mqtt_rely_def)
    then have "mqtt_rely c ?d" using q(1) by (auto simp: mqtt_rely_def)
    then show ?thesis using queued(2) q(3) mqtt_gone_rely by auto
  qed
qed

lemma tick_post:
  assumes "inkwell_mqtt_client_tick E now (c, L, w) = Some (c', L', w')" "mqtt_inv c" "length (mc_in c) < mqtt_packet_max" "now \<le> time_max"
  shows "mqtt_ok c c'"
proof -
  have now: "mqtt_inv (c\<lparr>mc_now_ms := now\<rparr>)" using assms(2,4) by (cases "mc_state c") (simp_all add: mqtt_inv_simps)
  obtain c1 L1 w1 where r: "mqtt_resolve_tick E now (c\<lparr>mc_now_ms := now\<rparr>, L, w) = Some (c1, L1, w1)"
    using assms(1) by (auto simp: inkwell_mqtt_client_tick_def bind_eq_Some_conv)
  have "mqtt_ok (c\<lparr>mc_now_ms := now\<rparr>) c1" using r now by (rule resolve_tick_post) (simp add: assms(3))
  then have c1: "mqtt_inv c1" "mc_has_loop c1 = mc_has_loop c" "length (mc_in c1) < mqtt_packet_max" by (simp_all add: mqtt_ok_def)
  have refl: "mqtt_ok c1 c1" using c1 by (simp add: mqtt_ok_def)
  note body = assms(1) [unfolded inkwell_mqtt_client_tick_def prod.case r bind.bind_lunit prod.case]
  have "mqtt_ok c1 c'"
  proof (cases "mc_state c1 = CLIENT_OFF \<or> mc_state c1 = CLIENT_WAITING \<or> (mc_deadline_ms c1 \<noteq> 0 \<and> mc_deadline_ms c1 \<le> now)")
    case True
    have "mqtt_ok c1 c'" if "mqtt_attempt E (c1, L1, w1) = Some (c', L', w')" "mc_state c1 = CLIENT_WAITING"
      using attempt_post [OF that(1)] that(2) c1(1) by (simp add: mqtt_inv_def)
    moreover have "mqtt_ok c1 c'" if "mqtt_fail_net E NET_TIMED_OUT 0 (c1, L1, w1) = Some (c', L', w')" "mc_state c1 \<noteq> CLIENT_OFF"
      using mqtt_gone_ok [OF fail_net_post [OF that(1)]] that(2) c1(1) by (cases "mc_state c1") (simp_all add: mqtt_inv_def mqtt_conn_def)
    ultimately show ?thesis using body True refl by (auto split: if_splits)
  next
    case False
    then obtain c2 L2 w2 where rd: "(if mc_more_to_read c1 \<and> (mc_state c1 = CLIENT_GREETING \<or> mc_state c1 = CLIENT_READY)
        then mqtt_read_ready E (c1, L1, w1) else Some (c1, L1, w1)) = Some (c2, L2, w2)"
      and rest: "(if mc_state c2 \<noteq> CLIENT_READY then Some (c2, L2, w2) else mqtt_tick_ready E now (c2, L2, w2)) = Some (c', L', w')"
      using body by (auto simp: bind_eq_Some_conv)
    have "mc_state c1 = CLIENT_GREETING \<or> mc_state c1 = CLIENT_READY \<Longrightarrow> mc_socket c1 \<noteq> socket_invalid"
      using c1(1) by (auto simp: mqtt_inv_def mqtt_conn_def)
    then have ok: "mqtt_ok c1 c2" using rd read_ready_post [of c1 L1 w1 c2 L2 w2] c1 refl by (auto split: if_splits)
    have "mqtt_ok c2 c'" if "mc_state c2 = CLIENT_READY"
      using mqtt_rely_ok [OF tick_ready_post [of now c2 L2 w2 c' L' w']] rest that ok by (simp add: mqtt_ok_def)
    then show ?thesis using rest ok by (auto simp: mqtt_ok_def split: if_splits)
  qed
  then show ?thesis using c1(2) mqtt_ok_cong by blast
qed

end

end
