(* ===== verification/Tls.thy ===== *)
theory Tls
  imports Net_Services Text
begin

text \<open>
  TLS sessions (\<open>src/net/tls.c\<close>), in both builds: without Mbed TLS every operation refuses (\<open>no_tls_ops\<close>), with it the operations
  are calls into the library, which is the parameter \<open>mbed\<close>: a record of the functions and constants the file uses. The
  library calls back into the file to move bytes (\<open>tls_bio_send\<close>, \<open>tls_bio_recv\<close>), so those are arguments of its functions. The static
  variables of the file are part of the world. What a call of the library leaves behind is the interface \<open>mbed_library\<close>,
  over which a session that has started is shown to verify its peer.
\<close>

section \<open>The library\<close>

record tls_ca_root =
  ca_name :: bytes
  ca_der :: bytes

text \<open>The static variables: \<open>tls_psa_ready\<close>, the registered table (empty when there is none) and \<open>tls_roots_ready\<close>.\<close>

record tls_statics =
  tg_psa_ready :: bool
  tg_ca_roots :: "tls_ca_root list"
  tg_roots_ready :: bool

type_synonym 'w tls_bio = "(bytes \<Rightarrow> 'w \<Rightarrow> (int + nat) \<times> 'w) \<times> (nat \<Rightarrow> 'w \<Rightarrow> (int + bytes) \<times> 'w)"

text \<open>
  A session of the library is named by the handle its memory was allocated under. \<open>m_ca_parse_file\<close> answers its code and whether
  \<open>ca.version\<close> is set; \<open>m_conf_ca_chain\<close> is told whether the roots are those of the session's own file; a positive
  count of \<open>mbedtls_ssl_read\<close> and \<open>mbedtls_ssl_write\<close> is on the right, a negative code on the left.
\<close>

record 'w mbed =
  m_statics :: "'w \<Rightarrow> tls_statics"
  m_set_statics :: "tls_statics \<Rightarrow> 'w \<Rightarrow> 'w"
  m_calloc :: "'w \<Rightarrow> nat option \<times> 'w"
  m_init :: "nat \<Rightarrow> 'w \<Rightarrow> 'w"
  m_free :: "nat \<Rightarrow> 'w \<Rightarrow> 'w"
  m_psa_crypto_init :: "'w \<Rightarrow> int \<times> 'w"
  m_roots_init :: "'w \<Rightarrow> 'w"
  m_roots_free :: "'w \<Rightarrow> 'w"
  m_roots_parse :: "bytes \<Rightarrow> 'w \<Rightarrow> int \<times> 'w"
  m_ca_parse_file :: "nat \<Rightarrow> bytes \<Rightarrow> 'w \<Rightarrow> (int \<times> bool) \<times> 'w"
  m_config_defaults :: "nat \<Rightarrow> 'w \<Rightarrow> int \<times> 'w"
  m_conf_verify_required :: "nat \<Rightarrow> 'w \<Rightarrow> 'w"
  m_conf_ca_chain :: "nat \<Rightarrow> bool \<Rightarrow> 'w \<Rightarrow> 'w"
  m_ssl_setup :: "nat \<Rightarrow> 'w \<Rightarrow> int \<times> 'w"
  m_set_hostname :: "nat \<Rightarrow> bytes \<Rightarrow> 'w \<Rightarrow> int \<times> 'w"
  m_set_bio :: "nat \<Rightarrow> u64 \<Rightarrow> 'w \<Rightarrow> 'w"
  m_ssl_handshake :: "nat \<Rightarrow> 'w tls_bio \<Rightarrow> 'w \<Rightarrow> int \<times> 'w"
  m_ssl_read :: "nat \<Rightarrow> 'w tls_bio \<Rightarrow> nat \<Rightarrow> 'w \<Rightarrow> (int + bytes) \<times> 'w"
  m_ssl_write :: "nat \<Rightarrow> 'w tls_bio \<Rightarrow> bytes \<Rightarrow> 'w \<Rightarrow> (int + nat) \<times> 'w"
  m_verify_result :: "nat \<Rightarrow> 'w \<Rightarrow> u32"
  m_verify_info :: "u32 \<Rightarrow> nat \<Rightarrow> bytes"
  m_strerror :: "int \<Rightarrow> nat \<Rightarrow> bytes"
  m_want_read :: int
  m_want_write :: int
  m_close_notify :: int
  m_session_ticket :: int
  m_conn_reset :: int
  m_send_failed :: int
  m_recv_failed :: int
  m_cert_verify_failed :: int
  m_future_flags :: u32

section \<open>Errors\<close>

definition tls_error_max :: nat where "tls_error_max = 160"
definition tls_tickets_per_read :: nat where "tls_tickets_per_read = 8"

text \<open>\<open>snprintf\<close> into a buffer, and \<open>%d\<close>.\<close>

definition snprintf :: "nat \<Rightarrow> bytes \<Rightarrow> bytes" where
  "snprintf cap s = take (cap - 1) s"

definition int_text :: "int \<Rightarrow> bytes" where
  "int_text n = (if n < 0 then asc (CHR ''-'') # decimal (nat (- n)) else decimal (nat n))"

definition str_copied :: "nat \<Rightarrow> bytes \<Rightarrow> bytes" where
  "str_copied cap s = the (snd (inkwell_str_copy cap (Some s)))"

definition tls_record_error :: "'w mbed \<Rightarrow> inkwell_tls_client \<Rightarrow> int \<Rightarrow> bytes \<Rightarrow> inkwell_tls_client" where
  "tls_record_error M tls code what =
     (let detail = m_strerror M code 128;
          detail = (if detail = [] then snprintf 128 (ascii ''error '' @ int_text code) else detail)
      in tls\<lparr>tls_error := snprintf tls_error_max (what @ ascii '': '' @ detail), tls_error_code := code, tls_clock_behind := False\<rparr>)"

definition tls_translate :: "'w mbed \<Rightarrow> inkwell_tls_client \<Rightarrow> int \<Rightarrow> bytes \<Rightarrow> errno \<times> inkwell_tls_client" where
  "tls_translate M tls code what =
     (if code = m_want_read M then (EAGAIN, tls\<lparr>tls_wants_write := False\<rparr>)
      else if code = m_want_write M then (EAGAIN, tls\<lparr>tls_wants_write := True\<rparr>)
      else let tls = tls\<lparr>tls_wants_write := False\<rparr> in
        if code = m_close_notify M then (ENOTCONN, tls)
        else let tls = tls_record_error M tls code what in
          if code = m_conn_reset M then (ECONNRESET, tls) else (EPROTO, tls))"

section \<open>The socket underneath\<close>

definition tls_bio_send :: "'w mbed \<Rightarrow> 'w host \<Rightarrow> u64 \<Rightarrow> bytes \<Rightarrow> 'w \<Rightarrow> (int + nat) \<times> 'w" where
  "tls_bio_send M h s data w =
     (case inkwell_socket_send h s data w of
        (Inr written, w) \<Rightarrow> (Inr written, w)
      | (Inl e, w) \<Rightarrow>
          if e = EAGAIN \<or> e = EINTR then (Inl (m_want_write M), w)
          else if e = EPIPE \<or> e = ECONNRESET \<or> e = ECONNABORTED then (Inl (m_conn_reset M), w)
          else (Inl (m_send_failed M), w))"

definition tls_bio_recv :: "'w mbed \<Rightarrow> 'w host \<Rightarrow> u64 \<Rightarrow> nat \<Rightarrow> 'w \<Rightarrow> (int + bytes) \<times> 'w" where
  "tls_bio_recv M h s len w =
     (case inkwell_socket_recv h s len w of
        (Inr got, w) \<Rightarrow> if got \<noteq> [] then (Inr got, w) else (Inl (m_conn_reset M), w)
      | (Inl e, w) \<Rightarrow>
          if e = EAGAIN \<or> e = EINTR then (Inl (m_want_read M), w)
          else if e = ECONNRESET \<or> e = ECONNABORTED then (Inl (m_conn_reset M), w)
          else (Inl (m_recv_failed M), w))"

definition tls_bio :: "'w mbed \<Rightarrow> 'w host \<Rightarrow> inkwell_tls_client \<Rightarrow> 'w tls_bio" where
  "tls_bio M h tls = (tls_bio_send M h (tls_socket tls), tls_bio_recv M h (tls_socket tls))"

section \<open>Trust anchors\<close>

definition inkwell_tls_ca_override :: "bytes option \<Rightarrow> bytes option" where
  "inkwell_tls_ca_override ssl_cert_file = (case ssl_cert_file of None \<Rightarrow> None | Some path \<Rightarrow> if path = [] then None else Some path)"

definition inkwell_tls_set_roots :: "'w mbed \<Rightarrow> tls_ca_root list option \<Rightarrow> 'w \<Rightarrow> 'w" where
  "inkwell_tls_set_roots M roots w =
     (let g = m_statics M w;
          w = (if tg_roots_ready g then m_set_statics M (g\<lparr>tg_roots_ready := False\<rparr>) (m_roots_free M w) else w)
      in m_set_statics M ((m_statics M w)\<lparr>tg_ca_roots := (case roots of None \<Rightarrow> [] | Some rs \<Rightarrow> rs)\<rparr>) w)"

fun tls_parse_roots :: "'w mbed \<Rightarrow> tls_ca_root list \<Rightarrow> 'w \<Rightarrow> (bytes + unit) \<times> 'w" where
  "tls_parse_roots M [] w = (Inr (), w)"
| "tls_parse_roots M (r # rs) w =
     (case m_roots_parse M (ca_der r) w of
        (rc, w) \<Rightarrow>
          if rc \<noteq> 0 then (Inl (snprintf tls_error_max (ascii ''could not load root '' @ take 48 (ca_name r) @ ascii '': '' @ m_strerror M rc 64)),
                           m_roots_free M w)
          else tls_parse_roots M rs w)"

definition tls_load_roots :: "'w mbed \<Rightarrow> inkwell_tls_client \<Rightarrow> 'w \<Rightarrow> bool \<times> inkwell_tls_client \<times> 'w" where
  "tls_load_roots M tls w =
     (let g = m_statics M w in
      if tg_roots_ready g then (True, tls, w)
      else if tg_ca_roots g = [] then (False, tls\<lparr>tls_error := str_copied tls_error_max (ascii ''no trust anchors registered'')\<rparr>, w)
      else case tls_parse_roots M (tg_ca_roots g) (m_roots_init M w) of
        (Inl why, w) \<Rightarrow> (False, tls\<lparr>tls_error := why\<rparr>, w)
      | (Inr _, w) \<Rightarrow> (True, tls, m_set_statics M ((m_statics M w)\<lparr>tg_roots_ready := True\<rparr>) w))"

section \<open>Lifecycle\<close>

definition tls_release :: "'w mbed \<Rightarrow> inkwell_tls_client \<Rightarrow> 'w \<Rightarrow> inkwell_tls_client \<times> 'w" where
  "tls_release M tls w =
     (case tls_state tls of
        None \<Rightarrow> (tls, w)
      | Some (s, _) \<Rightarrow> (tls\<lparr>tls_state := None\<rparr>, m_free M s w))"

text \<open>The three stages of a start after the session is allocated; each answers whether to go on.\<close>

definition tls_start_crypto :: "'w mbed \<Rightarrow> inkwell_tls_client \<times> 'w \<Rightarrow> bool \<times> inkwell_tls_client \<times> 'w" where
  "tls_start_crypto M = (\<lambda>(tls, w).
     let g = m_statics M w in
     if tg_psa_ready g then (True, tls, w)
     else case m_psa_crypto_init M w of
       (psa, w) \<Rightarrow>
         if psa \<noteq> 0 then (False, tls\<lparr>tls_error := snprintf tls_error_max (ascii ''crypto init failed ('' @ int_text psa @ ascii '')'')\<rparr>, w)
         else (True, tls, m_set_statics M ((m_statics M w)\<lparr>tg_psa_ready := True\<rparr>) w))"

definition tls_start_roots :: "'w mbed \<Rightarrow> nat \<Rightarrow> bytes \<Rightarrow> inkwell_tls_client \<times> 'w \<Rightarrow> bool \<times> inkwell_tls_client \<times> 'w" where
  "tls_start_roots M s ca_bundle = (\<lambda>(tls, w).
     if ca_bundle = [] then tls_load_roots M tls w
     else case m_ca_parse_file M s ca_bundle w of
       ((rc, version), w) \<Rightarrow>
         if rc < 0 \<or> \<not> version
         then (False, tls\<lparr>tls_error := snprintf tls_error_max (ascii ''no usable certificates in '' @ take 80 ca_bundle)\<rparr>, w)
         else (True, tls, w))"

definition tls_start_session :: "'w mbed \<Rightarrow> nat \<Rightarrow> u64 \<Rightarrow> bytes \<Rightarrow> bool \<Rightarrow> inkwell_tls_client \<times> 'w \<Rightarrow> bool \<times> inkwell_tls_client \<times> 'w" where
  "tls_start_session M s socket hostname own = (\<lambda>(tls, w).
     let (rc, w) = m_config_defaults M s w in
     if rc \<noteq> 0 then (False, tls_record_error M tls rc (ascii ''could not configure TLS''), w)
     else
       let w = m_conf_verify_required M s w;
           w = m_conf_ca_chain M s own w;
           (rc, w) = m_ssl_setup M s w
       in if rc \<noteq> 0 then (False, tls_record_error M tls rc (ascii ''could not start TLS''), w)
          else let (rc, w) = m_set_hostname M s hostname w in
            if rc \<noteq> 0 then (False, tls_record_error M tls rc (ascii ''bad hostname''), w)
            else (True, tls, m_set_bio M s socket w))"

definition tls_then :: "(inkwell_tls_client \<times> 'w \<Rightarrow> bool \<times> inkwell_tls_client \<times> 'w) \<Rightarrow> bool \<times> inkwell_tls_client \<times> 'w
    \<Rightarrow> bool \<times> inkwell_tls_client \<times> 'w" where
  "tls_then f = (\<lambda>(ok, st). if ok then f st else (False, st))"

definition inkwell_tls_client_start :: "'w mbed \<Rightarrow> inkwell_tls_client \<Rightarrow> u64 \<Rightarrow> bytes \<Rightarrow> bytes \<Rightarrow> 'w \<Rightarrow> (errno + unit) \<times> inkwell_tls_client \<times> 'w" where
  "inkwell_tls_client_start M tls socket hostname ca_bundle w =
     (if socket = socket_invalid \<or> hostname = [] then (Inl EINVAL, tls, w)
      else let tls = no_tls_client\<lparr>tls_socket := socket\<rparr> in
        case m_calloc M w of
          (None, w) \<Rightarrow> (Inl ENOMEM, tls\<lparr>tls_error := str_copied tls_error_max (ascii ''out of memory'')\<rparr>, w)
        | (Some s, w) \<Rightarrow>
            (case tls_then (tls_start_session M s socket hostname (ca_bundle \<noteq> []))
                   (tls_then (tls_start_roots M s ca_bundle) (tls_start_crypto M (tls\<lparr>tls_state := Some (s, False)\<rparr>, m_init M s w))) of
               (True, tls, w) \<Rightarrow> (Inr (), tls, w)
             | (False, tls, w) \<Rightarrow> (case tls_release M tls w of (tls, w) \<Rightarrow> (Inl EIO, tls, w))))"

definition inkwell_tls_client_handshake :: "'w mbed \<Rightarrow> 'w host \<Rightarrow> inkwell_tls_client \<Rightarrow> 'w \<Rightarrow> (errno + unit) \<times> inkwell_tls_client \<times> 'w" where
  "inkwell_tls_client_handshake M h tls w =
     (case tls_state tls of
        None \<Rightarrow> (Inl EINVAL, tls, w)
      | Some (s, handshaked) \<Rightarrow>
          if handshaked then (Inr (), tls, w)
          else case m_ssl_handshake M s (tls_bio M h tls) w of
            (rc, w) \<Rightarrow>
              if rc = 0 then (Inr (), tls\<lparr>tls_wants_write := False, tls_state := Some (s, True)\<rparr>, w)
              else if rc = m_cert_verify_failed M then
                (let flags = m_verify_result M s w;
                     early = m_future_flags M;
                     why = m_verify_info M flags 128
                 in (Inl EPROTO, tls\<lparr>tls_clock_behind := (flags AND early \<noteq> 0 \<and> flags AND NOT early = 0),
                        tls_error := str_copied tls_error_max (if why \<noteq> [] then takeWhile (\<lambda>b. b \<noteq> LF) why else ascii ''the certificate did not check out''),
                        tls_error_code := rc, tls_wants_write := False\<rparr>, w))
              else let (e, tls) = tls_translate M tls rc (ascii ''TLS handshake'') in (Inl e, tls, w))"

text \<open>The reads that are left; \<open>None\<close> is a run of session tickets that used them up.\<close>

fun tls_read_loop :: "'w mbed \<Rightarrow> 'w tls_bio \<Rightarrow> nat \<Rightarrow> nat \<Rightarrow> nat \<Rightarrow> 'w \<Rightarrow> (int + bytes) option \<times> 'w" where
  "tls_read_loop M bio s cap 0 w = (None, w)"
| "tls_read_loop M bio s cap (Suc left_over) w =
     (case m_ssl_read M s bio cap w of
        (r, w) \<Rightarrow> if r = Inl (m_session_ticket M) then tls_read_loop M bio s cap left_over w else (Some r, w))"

definition inkwell_tls_client_read :: "'w mbed \<Rightarrow> 'w host \<Rightarrow> inkwell_tls_client \<Rightarrow> nat \<Rightarrow> 'w \<Rightarrow> (errno + bytes) \<times> inkwell_tls_client \<times> 'w" where
  "inkwell_tls_client_read M h tls cap w =
     (case tls_state tls of
        None \<Rightarrow> (Inl EINVAL, tls, w)
      | Some (s, _) \<Rightarrow>
          if cap = 0 then (Inl EINVAL, tls, w)
          else let tls = tls\<lparr>tls_more_to_read := False\<rparr> in
            case tls_read_loop M (tls_bio M h tls) s cap tls_tickets_per_read w of
              (None, w) \<Rightarrow> (Inl EAGAIN, tls\<lparr>tls_wants_write := False, tls_more_to_read := True\<rparr>, w)
            | (Some (Inr got), w) \<Rightarrow>
                if got \<noteq> [] then (Inr got, tls\<lparr>tls_wants_write := False\<rparr>, w) else (Inl ENOTCONN, tls, w)
            | (Some (Inl code), w) \<Rightarrow> (let (e, tls) = tls_translate M tls code (ascii ''TLS read'') in (Inl e, tls, w)))"

definition inkwell_tls_client_write :: "'w mbed \<Rightarrow> 'w host \<Rightarrow> inkwell_tls_client \<Rightarrow> bytes \<Rightarrow> 'w \<Rightarrow> (errno + nat) \<times> inkwell_tls_client \<times> 'w" where
  "inkwell_tls_client_write M h tls data w =
     (case tls_state tls of
        None \<Rightarrow> (Inl EINVAL, tls, w)
      | Some (s, _) \<Rightarrow>
          if data = [] then (Inl EINVAL, tls, w)
          else case m_ssl_write M s (tls_bio M h tls) data w of
            (Inr n, w) \<Rightarrow>
              if n > 0 then (Inr n, tls\<lparr>tls_wants_write := False\<rparr>, w)
              else (let (e, tls) = tls_translate M tls 0 (ascii ''TLS write'') in (Inl e, tls, w))
          | (Inl code, w) \<Rightarrow> (let (e, tls) = tls_translate M tls code (ascii ''TLS write'') in (Inl e, tls, w)))"

definition inkwell_tls_client_stop :: "'w mbed \<Rightarrow> inkwell_tls_client \<Rightarrow> 'w \<Rightarrow> inkwell_tls_client \<times> 'w" where
  "inkwell_tls_client_stop M tls w =
     (case tls_release M tls w of (tls, w) \<Rightarrow> (tls\<lparr>tls_socket := socket_invalid, tls_wants_write := False\<rparr>, w))"

text \<open>The operations of a build with Mbed TLS, and of one without.\<close>

definition mbed_tls_ops :: "'w mbed \<Rightarrow> 'w host \<Rightarrow> 'w tls_ops" where
  "mbed_tls_ops M h = \<lparr>t_start = inkwell_tls_client_start M, t_handshake = inkwell_tls_client_handshake M h,
     t_read = inkwell_tls_client_read M h, t_write = inkwell_tls_client_write M h, t_stop = inkwell_tls_client_stop M\<rparr>"

definition no_tls_ops :: "'w tls_ops" where
  "no_tls_ops = \<lparr>
     t_start = (\<lambda>tls s host ca w. (Inl ENOTSUP, no_tls_client\<lparr>tls_socket := socket_invalid,
        tls_error := str_copied tls_error_max (ascii ''this build has no TLS'')\<rparr>, w)),
     t_handshake = (\<lambda>tls w. (Inl ENOTSUP, tls, w)),
     t_read = (\<lambda>tls cap w. (Inl ENOTSUP, tls, w)),
     t_write = (\<lambda>tls data w. (Inl ENOTSUP, tls, w)),
     t_stop = (\<lambda>tls w. (tls\<lparr>tls_state := None, tls_socket := socket_invalid\<rparr>, w))\<rparr>"

section \<open>The contract\<close>

text \<open>Both builds keep the contract of a TLS service; with Mbed TLS as far as its counts fit the request.\<close>

locale mbed_counts =
  fixes M :: "'w mbed" and h :: "'w host"
  assumes ssl_read_len: "m_ssl_read M s bio n w = (Inr got, w') \<Longrightarrow> length got \<le> n"
    and ssl_write_len: "m_ssl_write M s bio data w = (Inr k, w') \<Longrightarrow> k \<le> length data"
begin

lemma read_loop_len: "tls_read_loop M bio s n turns w = (Some (Inr got), w') \<Longrightarrow> length got \<le> n"
  by (induction turns arbitrary: w) (auto split: prod.splits if_splits dest: ssl_read_len)

lemma client_read_len: "inkwell_tls_client_read M h t n w = (Inr got, t', w') \<Longrightarrow> length got \<le> n"
  by (auto simp: inkwell_tls_client_read_def Let_def split: option.splits if_splits prod.splits sum.splits dest: read_loop_len)

lemma client_write_len: "inkwell_tls_client_write M h t data w = (Inr k, t', w') \<Longrightarrow> k \<le> length data"
  by (auto simp: inkwell_tls_client_write_def Let_def split: option.splits if_splits prod.splits sum.splits dest: ssl_write_len)

end

sublocale mbed_counts \<subseteq> mbed: tls_service "mbed_tls_ops M h"
proof
  show "t_read (mbed_tls_ops M h) t n w = (Inr got, t', w') \<Longrightarrow> length got \<le> n" for t n w got t' w'
    using client_read_len by (simp add: mbed_tls_ops_def)
  show "t_write (mbed_tls_ops M h) t data w = (Inr k, t', w') \<Longrightarrow> k \<le> length data" for t data w k t' w'
    using client_write_len by (simp add: mbed_tls_ops_def)
  show "t_stop (mbed_tls_ops M h) t w = (t', w') \<Longrightarrow> tls_state t' = None" for t w t' w'
    by (auto simp: mbed_tls_ops_def inkwell_tls_client_stop_def tls_release_def split: option.splits prod.splits)
  show "t_handshake (mbed_tls_ops M h) t w = (r, t', w') \<Longrightarrow> tls_state t = None \<Longrightarrow> isl r \<and> r \<noteq> Inl EAGAIN" for t w r t' w'
    by (auto simp: mbed_tls_ops_def inkwell_tls_client_handshake_def)
qed

interpretation no_tls: tls_service no_tls_ops
  by unfold_locales (auto simp: no_tls_ops_def)

section \<open>What a session verifies\<close>

text \<open>The configuration of a session, as far as it decides who is trusted.\<close>

record tls_conf =
  tc_required :: bool
  tc_own_chain :: "bool option"
  tc_file :: "bytes option"
  tc_name :: "bytes option"
  tc_socket :: "u64 option"

text \<open>
  What the library promises of the calls a start makes: \<open>live\<close> is the sessions that are allocated, \<open>conf\<close> the configuration of
  one, \<open>chain\<close> the certificates in \<open>tls_roots\<close>.
\<close>

definition same_but :: "('w \<Rightarrow> 'a) \<Rightarrow> ('w \<Rightarrow> 'b) \<Rightarrow> ('w \<Rightarrow> 'c) \<Rightarrow> 'w \<Rightarrow> 'w \<Rightarrow> bool" where
  "same_but f g k w w' \<longleftrightarrow> f w' = f w \<and> g w' = g w \<and> k w' = k w"

locale mbed_library =
  fixes M :: "'w mbed" and conf :: "'w \<Rightarrow> nat \<Rightarrow> tls_conf" and chain :: "'w \<Rightarrow> bytes list" and live :: "'w \<Rightarrow> nat set"
  assumes set_statics: "m_statics M (m_set_statics M g w) = g \<and> same_but conf chain live w (m_set_statics M g w)"
    and calloc_some: "m_calloc M w = (Some s, w') \<Longrightarrow> s \<notin> live w \<and> live w' = insert s (live w) \<and> m_statics M w' = m_statics M w \<and> chain w' = chain w"
    and calloc_none: "m_calloc M w = (None, w') \<Longrightarrow> same_but (m_statics M) chain live w w'"
    and init_frame: "same_but (m_statics M) chain live w (m_init M s w)"
    and free_live: "live (m_free M s w) = live w - {s} \<and> m_statics M (m_free M s w) = m_statics M w \<and> chain (m_free M s w) = chain w"
    and psa_frame: "m_psa_crypto_init M w = (rc, w') \<Longrightarrow> same_but (m_statics M) chain live w w'"
    and roots_init: "chain (m_roots_init M w) = [] \<and> m_statics M (m_roots_init M w) = m_statics M w \<and> live (m_roots_init M w) = live w"
    and roots_parse: "m_roots_parse M der w = (rc, w') \<Longrightarrow>
          m_statics M w' = m_statics M w \<and> live w' = live w \<and> (rc = 0 \<longrightarrow> chain w' = chain w @ [der])"
    and roots_free: "m_statics M (m_roots_free M w) = m_statics M w \<and> live (m_roots_free M w) = live w"
    and parse_file: "m_ca_parse_file M s path w = ((rc, version), w') \<Longrightarrow>
          same_but (m_statics M) chain live w w' \<and> (0 \<le> rc \<and> version \<longrightarrow> tc_file (conf w' s) = Some path)"
    and defaults: "m_config_defaults M s w = (rc, w') \<Longrightarrow> same_but (m_statics M) chain live w w' \<and> tc_file (conf w' s) = tc_file (conf w s)"
    and verify_required: "same_but (m_statics M) chain live w (m_conf_verify_required M s w)
          \<and> conf (m_conf_verify_required M s w) s = (conf w s)\<lparr>tc_required := True\<rparr>"
    and ca_chain: "same_but (m_statics M) chain live w (m_conf_ca_chain M s own w)
          \<and> conf (m_conf_ca_chain M s own w) s = (conf w s)\<lparr>tc_own_chain := Some own\<rparr>"
    and ssl_setup: "m_ssl_setup M s w = (rc, w') \<Longrightarrow> same_but (m_statics M) chain live w w' \<and> conf w' s = conf w s"
    and set_hostname: "m_set_hostname M s host w = (rc, w') \<Longrightarrow>
          same_but (m_statics M) chain live w w' \<and> (rc = 0 \<longrightarrow> conf w' s = (conf w s)\<lparr>tc_name := Some host\<rparr>)"
    and set_bio: "same_but (m_statics M) chain live w (m_set_bio M s socket w)
          \<and> conf (m_set_bio M s socket w) s = (conf w s)\<lparr>tc_socket := Some socket\<rparr>"

text \<open>The roots that are marked as loaded are the registered ones, and there are some.\<close>

definition tls_roots_inv :: "'w mbed \<Rightarrow> ('w \<Rightarrow> bytes list) \<Rightarrow> 'w \<Rightarrow> bool" where
  "tls_roots_inv M chain w \<longleftrightarrow>
     (tg_roots_ready (m_statics M w) \<longrightarrow> chain w = map ca_der (tg_ca_roots (m_statics M w)) \<and> tg_ca_roots (m_statics M w) \<noteq> [])"

text \<open>A session that checks the peer it was started for against a set of roots that is not empty.\<close>

definition tls_verified :: "'w mbed \<Rightarrow> ('w \<Rightarrow> nat \<Rightarrow> tls_conf) \<Rightarrow> ('w \<Rightarrow> bytes list) \<Rightarrow> 'w \<Rightarrow> nat \<Rightarrow> u64 \<Rightarrow> bytes \<Rightarrow> bytes \<Rightarrow> bool" where
  "tls_verified M conf chain w s socket hostname ca_bundle \<longleftrightarrow>
     tc_required (conf w s) \<and> tc_name (conf w s) = Some hostname \<and> tc_socket (conf w s) = Some socket
     \<and> (if ca_bundle = [] then tc_own_chain (conf w s) = Some False \<and> chain w = map ca_der (tg_ca_roots (m_statics M w)) \<and> chain w \<noteq> []
        else tc_own_chain (conf w s) = Some True \<and> tc_file (conf w s) = Some ca_bundle)"

context mbed_library
begin

lemma parse_roots_post:
  "tls_parse_roots M rs w = (r, w') \<Longrightarrow> m_statics M w' = m_statics M w \<and> live w' = live w \<and> (r = Inr () \<longrightarrow> chain w' = chain w @ map ca_der rs)"
proof (induction rs arbitrary: w)
  case (Cons x rs)
  obtain rc w1 where p: "m_roots_parse M (ca_der x) w = (rc, w1)" by (metis surj_pair)
  show ?case
  proof (cases "rc = 0")
    case True
    then show ?thesis using Cons.IH [of w1] Cons.prems p roots_parse [OF p] by simp
  next
    case False
    then show ?thesis using Cons.prems p roots_parse [OF p] roots_free [of w1] by auto
  qed
qed simp

lemma load_roots_post:
  assumes "tls_load_roots M tls w = (ok, tls', w')" "tls_roots_inv M chain w"
  shows "tls_roots_inv M chain w'" "live w' = live w" "tls_state tls' = tls_state tls" "tg_ca_roots (m_statics M w') = tg_ca_roots (m_statics M w)"
    "ok \<Longrightarrow> chain w' = map ca_der (tg_ca_roots (m_statics M w')) \<and> chain w' \<noteq> []"
proof -
  let ?g = "m_statics M w"
  have "tls_roots_inv M chain w' \<and> live w' = live w \<and> tls_state tls' = tls_state tls \<and> tg_ca_roots (m_statics M w') = tg_ca_roots ?g
      \<and> (ok \<longrightarrow> chain w' = map ca_der (tg_ca_roots (m_statics M w')) \<and> chain w' \<noteq> [])"
  proof (cases "tg_roots_ready ?g \<or> tg_ca_roots ?g = []")
    case True
    then show ?thesis using assms by (auto simp: tls_load_roots_def tls_roots_inv_def Let_def split: if_splits)
  next
    case False
    obtain r w1 where p: "tls_parse_roots M (tg_ca_roots ?g) (m_roots_init M w) = (r, w1)" by (metis surj_pair)
    note post = parse_roots_post [OF p]
    have w1: "m_statics M w1 = ?g" "live w1 = live w" "r = Inr () \<Longrightarrow> chain w1 = map ca_der (tg_ca_roots ?g)" using post roots_init [of w] by simp_all
    show ?thesis
    proof (cases r)
      case (Inl why)
      then show ?thesis using assms(1) False p w1 by (auto simp: tls_load_roots_def tls_roots_inv_def Let_def)
    next
      case (Inr u)
      then have "w' = m_set_statics M ((m_statics M w1)\<lparr>tg_roots_ready := True\<rparr>) w1" "tls' = tls" "ok"
        using assms(1) False p by (auto simp: tls_load_roots_def Let_def)
      then show ?thesis using Inr w1 False set_statics [of "(m_statics M w1)\<lparr>tg_roots_ready := True\<rparr>" w1]
        by (auto simp: tls_roots_inv_def same_but_def)
    qed
  qed
  then show "tls_roots_inv M chain w'" "live w' = live w" "tls_state tls' = tls_state tls" "tg_ca_roots (m_statics M w') = tg_ca_roots ?g"
      "ok \<Longrightarrow> chain w' = map ca_der (tg_ca_roots (m_statics M w')) \<and> chain w' \<noteq> []" by auto
qed


text \<open>A session \<open>s\<close> on its way: allocated on top of \<open>held\<close>, with the roots it will use.\<close>

definition started :: "nat set \<Rightarrow> nat \<Rightarrow> inkwell_tls_client \<Rightarrow> 'w \<Rightarrow> bool" where
  "started held s tls w \<longleftrightarrow> tls_roots_inv M chain w \<and> live w = held \<and> tls_state tls = Some (s, False)"

definition rooted :: "nat \<Rightarrow> bytes \<Rightarrow> 'w \<Rightarrow> bool" where
  "rooted s ca_bundle w \<longleftrightarrow>
     (if ca_bundle = [] then chain w = map ca_der (tg_ca_roots (m_statics M w)) \<and> chain w \<noteq> [] else tc_file (conf w s) = Some ca_bundle)"

lemma start_crypto_post:
  assumes "tls_start_crypto M (tls, w) = (ok, tls', w')" "started held s tls w"
  shows "started held s tls' w'"
proof (cases "tg_psa_ready (m_statics M w)")
  case True
  then show ?thesis using assms by (simp add: tls_start_crypto_def)
next
  case False
  obtain psa w1 where p: "m_psa_crypto_init M w = (psa, w1)" by (metis surj_pair)
  have "started held s tls w1" using assms(2) psa_frame [OF p] by (simp add: started_def tls_roots_inv_def same_but_def)
  then show ?thesis
    using assms(1) False p set_statics [of "(m_statics M w1)\<lparr>tg_psa_ready := True\<rparr>" w1]
    by (auto simp: tls_start_crypto_def started_def tls_roots_inv_def same_but_def Let_def split: if_splits)
qed

lemma start_roots_post:
  assumes "tls_start_roots M s ca_bundle (tls, w) = (ok, tls', w')" "started held s tls w"
  shows "started held s tls' w'" "ok \<Longrightarrow> rooted s ca_bundle w'"
proof -
  have "started held s tls' w' \<and> (ok \<longrightarrow> rooted s ca_bundle w')"
  proof (cases "ca_bundle = []")
    case True
    then show ?thesis using assms load_roots_post [of tls w ok tls' w'] by (auto simp: tls_start_roots_def started_def rooted_def)
  next
    case False
    obtain rc version w1 where p: "m_ca_parse_file M s ca_bundle w = ((rc, version), w1)" by (metis surj_pair)
    show ?thesis using assms False p parse_file [OF p]
      by (auto simp: tls_start_roots_def started_def rooted_def tls_roots_inv_def same_but_def split: if_splits)
  qed
  then show "started held s tls' w'" "ok \<Longrightarrow> rooted s ca_bundle w'" by simp_all
qed

lemma record_error_state [simp]: "tls_state (tls_record_error M tls code what) = tls_state tls"
  by (simp add: tls_record_error_def Let_def)

lemma start_session_post:
  assumes "tls_start_session M s socket hostname (ca_bundle \<noteq> []) (tls, w) = (ok, tls', w')" "started held s tls w" "rooted s ca_bundle w"
  shows "started held s tls' w'" "ok \<Longrightarrow> tls_verified M conf chain w' s socket hostname ca_bundle"
proof -
  obtain rc1 w1 where d: "m_config_defaults M s w = (rc1, w1)" by (metis surj_pair)
  define w3 where "w3 = m_conf_ca_chain M s (ca_bundle \<noteq> []) (m_conf_verify_required M s w1)"
  obtain rc2 w4 where u: "m_ssl_setup M s w3 = (rc2, w4)" by (metis surj_pair)
  obtain rc3 w5 where n: "m_set_hostname M s hostname w4 = (rc3, w5)" by (metis surj_pair)
  have w3: "m_statics M w3 = m_statics M w1" "chain w3 = chain w1" "live w3 = live w1"
      "conf w3 s = (conf w1 s)\<lparr>tc_required := True, tc_own_chain := Some (ca_bundle \<noteq> [])\<rparr>"
    using verify_required [of w1 s] ca_chain [of "m_conf_verify_required M s w1" s "ca_bundle \<noteq> []"] by (simp_all add: w3_def same_but_def)
  note frames = defaults [OF d] w3 ssl_setup [OF u] set_hostname [OF n] set_bio [of w5 s socket]
  have "w' \<in> {w1, w4, w5, m_set_bio M s socket w5}" "tls_state tls' = tls_state tls"
    using assms(1) d u n by (auto simp: tls_start_session_def w3_def Let_def split: if_splits)
  then show "started held s tls' w'" using assms(2) frames by (auto simp: started_def tls_roots_inv_def same_but_def)
  assume ok
  then have "w' = m_set_bio M s socket w5" "rc3 = 0" using assms(1) d u n by (auto simp: tls_start_session_def w3_def Let_def split: if_splits)
  then show "tls_verified M conf chain w' s socket hostname ca_bundle"
    using assms(3) frames by (cases "ca_bundle = []") (auto simp: tls_verified_def rooted_def same_but_def)
qed

lemma start_verified:
  assumes "tls_roots_inv M chain w" "inkwell_tls_client_start M tls socket hostname ca_bundle w = (r, tls', w')"
  shows "tls_roots_inv M chain w' \<and>
    (case r of
       Inr _ \<Rightarrow> \<exists>s. tls_state tls' = Some (s, False) \<and> s \<notin> live w \<and> live w' = insert s (live w) \<and> tls_verified M conf chain w' s socket hostname ca_bundle
     | Inl e \<Rightarrow> live w' = live w \<and> (e \<noteq> EINVAL \<longrightarrow> tls_state tls' = None))"
proof (cases "socket = socket_invalid \<or> hostname = []")
  case True
  then show ?thesis using assms by (auto simp: inkwell_tls_client_start_def)
next
  case False
  obtain a w1 where a: "m_calloc M w = (a, w1)" by (metis surj_pair)
  show ?thesis
  proof (cases a)
    case None
    then show ?thesis using assms False a calloc_none [of w w1]
      by (auto simp: inkwell_tls_client_start_def tls_roots_inv_def same_but_def no_tls_client_def Let_def)
  next
    case (Some s)
    define t0 where "t0 = no_tls_client\<lparr>tls_socket := socket, tls_state := Some (s, False)\<rparr>"
    obtain ok1 t1 w2 where c1: "tls_start_crypto M (t0, m_init M s w1) = (ok1, t1, w2)" by (metis prod_cases3)
    obtain ok2 t2 w3 where c2: "tls_then (tls_start_roots M s ca_bundle) (ok1, t1, w2) = (ok2, t2, w3)" by (metis prod_cases3)
    obtain ok3 t3 w4 where c3: "tls_then (tls_start_session M s socket hostname (ca_bundle \<noteq> [])) (ok2, t2, w3) = (ok3, t3, w4)" by (metis prod_cases3)
    have al: "s \<notin> live w" "live w1 = insert s (live w)" "m_statics M w1 = m_statics M w" "chain w1 = chain w" using calloc_some a Some by auto
    have "started (insert s (live w)) s t0 (m_init M s w1)"
      using assms(1) al init_frame [of w1 s] by (simp add: started_def tls_roots_inv_def same_but_def t0_def)
    then have s1: "started (insert s (live w)) s t1 w2" using start_crypto_post [OF c1] by blast
    have s2: "started (insert s (live w)) s t2 w3" "ok2 \<Longrightarrow> rooted s ca_bundle w3"
      using s1 c2 start_roots_post [of s ca_bundle t1 w2 ok2 t2 w3] by (auto simp: tls_then_def split: if_splits)
    have s3: "started (insert s (live w)) s t3 w4" "ok3 \<Longrightarrow> tls_verified M conf chain w4 s socket hostname ca_bundle"
      using s2 c3 start_session_post [of s socket hostname ca_bundle t2 w3 ok3 t3 w4] by (auto simp: tls_then_def split: if_splits)
    note start = assms(2) [unfolded inkwell_tls_client_start_def if_not_P [OF False] Let_def a Some option.case prod.case t0_def [symmetric]]
    show ?thesis
    proof (cases ok3)
      case True
      then have "r = Inr ()" "tls' = t3" "w' = w4" using start c1 c2 c3 by (auto simp: t0_def)
      then show ?thesis using s3 True al(1) by (auto simp: started_def)
    next
      case False
      then have "r = Inl EIO" "(tls', w') = tls_release M t3 w4" using start c1 c2 c3 by (auto simp: t0_def split: prod.splits)
      then show ?thesis using s3(1) al(1) free_live [of s w4] by (auto simp: started_def tls_release_def tls_roots_inv_def)
    qed
  qed
qed

end

section \<open>A library\<close>

text \<open>A library that parses every certificate, and moves plaintext between two buffers.\<close>

record mbed_world =
  mw_statics :: tls_statics
  mw_live :: "nat set"
  mw_next :: nat
  mw_conf :: "nat \<Rightarrow> tls_conf"
  mw_chain :: "bytes list"
  mw_in :: bytes
  mw_out :: bytes

definition mw_change :: "nat \<Rightarrow> (tls_conf \<Rightarrow> tls_conf) \<Rightarrow> mbed_world \<Rightarrow> mbed_world" where
  "mw_change s f w = w\<lparr>mw_conf := (mw_conf w)(s := f (mw_conf w s))\<rparr>"

definition ref_mbed :: "mbed_world mbed" where
  "ref_mbed = \<lparr>
     m_statics = mw_statics, m_set_statics = (\<lambda>g w. w\<lparr>mw_statics := g\<rparr>),
     m_calloc = (\<lambda>w. (Some (mw_next w), w\<lparr>mw_live := insert (mw_next w) (mw_live w), mw_next := mw_next w + 1\<rparr>)),
     m_init = (\<lambda>s. mw_change s (\<lambda>_. \<lparr>tc_required = False, tc_own_chain = None, tc_file = None, tc_name = None, tc_socket = None\<rparr>)),
     m_free = (\<lambda>s w. w\<lparr>mw_live := mw_live w - {s}\<rparr>),
     m_psa_crypto_init = (\<lambda>w. (0, w)), m_roots_init = (\<lambda>w. w\<lparr>mw_chain := []\<rparr>), m_roots_free = (\<lambda>w. w\<lparr>mw_chain := []\<rparr>),
     m_roots_parse = (\<lambda>der w. (0, w\<lparr>mw_chain := mw_chain w @ [der]\<rparr>)),
     m_ca_parse_file = (\<lambda>s path w. ((0, True), mw_change s (\<lambda>c. c\<lparr>tc_file := Some path\<rparr>) w)),
     m_config_defaults = (\<lambda>s w. (0, w)), m_conf_verify_required = (\<lambda>s. mw_change s (\<lambda>c. c\<lparr>tc_required := True\<rparr>)),
     m_conf_ca_chain = (\<lambda>s own. mw_change s (\<lambda>c. c\<lparr>tc_own_chain := Some own\<rparr>)), m_ssl_setup = (\<lambda>s w. (0, w)),
     m_set_hostname = (\<lambda>s host w. (0, mw_change s (\<lambda>c. c\<lparr>tc_name := Some host\<rparr>) w)),
     m_set_bio = (\<lambda>s socket. mw_change s (\<lambda>c. c\<lparr>tc_socket := Some socket\<rparr>)),
     m_ssl_handshake = (\<lambda>s bio w. (0, w)),
     m_ssl_read = (\<lambda>s bio n w. if mw_in w = [] then (Inl (- 26880), w) else (Inr (take n (mw_in w)), w\<lparr>mw_in := drop n (mw_in w)\<rparr>)),
     m_ssl_write = (\<lambda>s bio data w. (Inr (length data), w\<lparr>mw_out := mw_out w @ data\<rparr>)),
     m_verify_result = (\<lambda>s w. 0), m_verify_info = (\<lambda>flags n. []), m_strerror = (\<lambda>code n. []),
     m_want_read = - 26880, m_want_write = - 26752, m_close_notify = - 30848, m_session_ticket = - 31488, m_conn_reset = - 80,
     m_send_failed = - 78, m_recv_failed = - 76, m_cert_verify_failed = - 9984, m_future_flags = 0x0600\<rparr>"

interpretation ref_library: mbed_library ref_mbed mw_conf mw_chain "\<lambda>w. mw_live w \<inter> {..<mw_next w}"
  by unfold_locales (auto simp: ref_mbed_def mw_change_def same_but_def)

interpretation ref_counts: mbed_counts ref_mbed h for h
  by unfold_locales (auto simp: ref_mbed_def split: if_splits)

text \<open>
  C6. A TLS session never runs unverified. If \<open>inkwell_tls_client_start\<close> succeeds, the new session demands that the certificate of the
  peer is verified, against the name it was started for, over the socket it was given, and against roots that are
  there: those of the named bundle file, or the registered ones, all of them and at least one. If it fails, nothing
  stays allocated and the client has no session. Roots that are marked as loaded stay the registered ones.
\<close>

theorem tls_start_verified:
  assumes "mbed_library M conf chain live" "tls_roots_inv M chain w"
    "inkwell_tls_client_start M tls socket hostname ca_bundle w = (r, tls', w')"
  shows "tls_roots_inv M chain w' \<and>
    (case r of
       Inr _ \<Rightarrow> \<exists>s. tls_state tls' = Some (s, False) \<and> s \<notin> live w \<and> live w' = insert s (live w) \<and> tls_verified M conf chain w' s socket hostname ca_bundle
     | Inl e \<Rightarrow> live w' = live w \<and> (e \<noteq> EINVAL \<longrightarrow> tls_state tls' = None))"
  by (rule mbed_library.start_verified [OF assms])

definition mbed_start :: mbed_world where
  "mbed_start = \<lparr>mw_statics = \<lparr>tg_psa_ready = False, tg_ca_roots = [], tg_roots_ready = False\<rparr>, mw_live = {}, mw_next = 0,
     mw_conf = (\<lambda>_. \<lparr>tc_required = False, tc_own_chain = None, tc_file = None, tc_name = None, tc_socket = None\<rparr>),
     mw_chain = [], mw_in = [], mw_out = []\<rparr>"

theorem tls_start_verified_witness:
  "let w = inkwell_tls_set_roots ref_mbed (Some [\<lparr>ca_name = [0x41], ca_der = [1, 2]\<rparr>]) mbed_start;
       (r, tls', w') = inkwell_tls_client_start ref_mbed no_tls_client 7 [0x68] [] w
   in r = Inr () \<and> (\<exists>s. tls_state tls' = Some (s, False) \<and> tls_verified ref_mbed mw_conf mw_chain w' s 7 [0x68] [])"
proof -
  define w where "w = inkwell_tls_set_roots ref_mbed (Some [\<lparr>ca_name = [0x41], ca_der = [1, 2]\<rparr>]) mbed_start"
  obtain r tls' w' where st: "inkwell_tls_client_start ref_mbed no_tls_client 7 [0x68] [] w = (r, tls', w')" by (metis prod_cases3)
  have "tls_roots_inv ref_mbed mw_chain w"
    by (simp add: w_def tls_roots_inv_def inkwell_tls_set_roots_def ref_mbed_def mbed_start_def Let_def)
  note post = tls_start_verified [OF ref_library.mbed_library_axioms this st]
  have "r = Inr ()" using st
    by (simp add: w_def inkwell_tls_client_start_def inkwell_tls_set_roots_def ref_mbed_def mbed_start_def mw_change_def tls_then_def tls_start_crypto_def
        tls_start_roots_def tls_start_session_def tls_load_roots_def socket_invalid_def Let_def)
  then show ?thesis using post st by (auto simp: w_def)
qed

end
