(* ===== verification/Resolve.thy ===== *)
theory Resolve
  imports Net_Services
begin

text \<open>
  The resolver of Linux (\<open>src/net/resolve.c\<close>): a child process looks the name up and writes one record into a pipe, and the parent
  reads it on the loop. The calls for processes are the record \<open>proc_host\<close>; the program of the child is an argument of \<open>p_fork\<close>,
  which runs it in the world at a time of its own choosing. A call that finishes a lookup answers the result its
  caller hands to the completion function. \<open>resolve_unavailable.c\<close> is the resolver of a platform that has none.
\<close>

section \<open>Processes\<close>

text \<open>An answer of \<open>getaddrinfo\<close>; an address of \<open>None\<close> is the null pointer.\<close>

record addrinfo =
  ai_family :: int
  ai_addr :: "bytes option"

record 'w proc_host =
  p_pipe :: "'w \<Rightarrow> (errno + int \<times> int) \<times> 'w"
  p_fork :: "(int \<times> addrinfo list \<Rightarrow> 'w \<Rightarrow> 'w option) \<Rightarrow> bytes \<Rightarrow> bytes \<Rightarrow> 'w \<Rightarrow> (errno + int) \<times> 'w"
  p_nonblock :: "int \<Rightarrow> 'w \<Rightarrow> (errno + unit) \<times> 'w"
  p_kill :: "int \<Rightarrow> 'w \<Rightarrow> 'w"
  p_wait :: "int \<Rightarrow> 'w \<Rightarrow> 'w"
  p_wait_nohang :: "int \<Rightarrow> 'w \<Rightarrow> int \<times> 'w"

record 'w resolve_env =
  re_host :: "'w host"
  re_backend :: "'w loop_backend"
  re_proc :: "'w proc_host"
  re_callback :: "inkwell_loop_callback \<times> nat"

section \<open>The record\<close>

record resolve_record =
  rec_error :: int
  rec_addresses :: "bytes list"

definition resolve_record_size :: nat where "resolve_record_size = 552"

definition eai_noname :: int where "eai_noname = -2"
definition eai_nodata :: int where "eai_nodata = -5"

text \<open>The layout of the structure: two integers, then four times a length, four bytes of padding and the address.\<close>

definition resolve_entry_bytes :: "bytes \<Rightarrow> bytes" where
  "resolve_entry_bytes a = le32_bytes (of_nat (length a)) @ replicate 4 0 @ a @ replicate (sockaddr_size - length a) 0"

definition resolve_record_bytes :: "resolve_record \<Rightarrow> bytes" where
  "resolve_record_bytes r =
     le32_bytes (of_int (rec_error r)) @ le32_bytes (of_nat (length (rec_addresses r))) @ concat (map resolve_entry_bytes (rec_addresses r))
       @ replicate ((resolve_addresses_max - length (rec_addresses r)) * (sockaddr_size + 8)) 0"

definition u32_at :: "bytes \<Rightarrow> nat \<Rightarrow> u32" where
  "u32_at bs i = le32 (bs ! i) (bs ! (i + 1)) (bs ! (i + 2)) (bs ! (i + 3))"

definition record_error :: "bytes \<Rightarrow> int" where
  "record_error bs = sint (u32_at bs 0)"

definition record_count :: "bytes \<Rightarrow> nat" where
  "record_count bs = unat (u32_at bs 4)"

definition record_address :: "bytes \<Rightarrow> nat \<Rightarrow> bytes" where
  "record_address bs i = (let at = 8 + i * (sockaddr_size + 8) in take (unat (u32_at bs at)) (take sockaddr_size (drop (at + 8) bs)))"

section \<open>The child\<close>

partial_function (option) resolve_write_record :: "'w host \<Rightarrow> int \<Rightarrow> bytes \<Rightarrow> 'w \<Rightarrow> 'w option" where
  "resolve_write_record h fd bs w =
     (if bs = [] then Some w
      else case h_write h fd bs w of
        (Inr wrote, w) \<Rightarrow> if wrote > 0 then resolve_write_record h fd (drop wrote bs) w else Some w
      | (Inl e, w) \<Rightarrow> if e = EINTR then resolve_write_record h fd bs w else Some w)"

text \<open>The position of the next answer that is not taken and usable, in the given family where there is one.\<close>

definition pick_usable :: "addrinfo list \<Rightarrow> nat set \<Rightarrow> (addrinfo \<Rightarrow> bool) \<Rightarrow> nat option" where
  "pick_usable results taken wanted =
     List.find (\<lambda>i. i \<notin> taken \<and> wanted (results ! i)
        \<and> (case ai_addr (results ! i) of None \<Rightarrow> False | Some a \<Rightarrow> a \<noteq> [] \<and> length a \<le> sockaddr_size)) [0..<min 64 (length results)]"

fun resolve_pick_loop :: "nat \<Rightarrow> addrinfo list \<Rightarrow> nat set \<Rightarrow> int \<Rightarrow> bytes list" where
  "resolve_pick_loop 0 results taken family = []"
| "resolve_pick_loop (Suc room) results taken family =
     (case (case pick_usable results taken (\<lambda>r. ai_family r = family) of
              Some i \<Rightarrow> Some i
            | None \<Rightarrow> pick_usable results taken (\<lambda>_. True)) of
        None \<Rightarrow> []
      | Some i \<Rightarrow>
          the (ai_addr (results ! i))
            # resolve_pick_loop room results (insert i taken) (if ai_family (results ! i) = af_inet6 then af_inet else af_inet6))"

definition resolve_pick :: "addrinfo list \<Rightarrow> bytes list" where
  "resolve_pick results = resolve_pick_loop resolve_addresses_max results {} (case results of [] \<Rightarrow> 0 | r # _ \<Rightarrow> ai_family r)"

definition resolve_answer :: "int \<times> addrinfo list \<Rightarrow> resolve_record" where
  "resolve_answer = (\<lambda>(err, results). \<lparr>rec_error = err, rec_addresses = (if err = 0 then resolve_pick results else [])\<rparr>)"

definition resolve_child :: "'w host \<Rightarrow> int \<Rightarrow> int \<times> addrinfo list \<Rightarrow> 'w \<Rightarrow> 'w option" where
  "resolve_child h fd gai w = resolve_write_record h fd (resolve_record_bytes (resolve_answer gai)) w"

section \<open>The parent\<close>

definition resolve_release_fd :: "'w resolve_env \<Rightarrow> inkwell_resolve \<Rightarrow> inkwell_loop \<Rightarrow> 'w \<Rightarrow> inkwell_resolve \<times> inkwell_loop \<times> 'w" where
  "resolve_release_fd E r L w =
     (if rs_child_fd r < 0 then (r, L, w)
      else let (L, w) = (if rs_has_loop r then snd (inkwell_loop_remove_fd (re_backend E) L (rs_child_fd r) w) else (L, w));
               w = snd (h_close (re_host E) (rs_child_fd r) w)
           in (r\<lparr>rs_child_fd := -1\<rparr>, L, w))"

definition resolve_discard :: "'w resolve_env \<Rightarrow> inkwell_resolve \<Rightarrow> inkwell_loop \<Rightarrow> 'w \<Rightarrow> inkwell_resolve \<times> inkwell_loop \<times> 'w" where
  "resolve_discard E r L w =
     (let (r, L, w) = resolve_release_fd E r L w;
          w = (if rs_child r > 0 then
                 (let (reaped, w) = p_wait_nohang (re_proc E) (rs_child r) w
                  in if reaped = 0 then p_wait (re_proc E) (rs_child r) (p_kill (re_proc E) (rs_child r) w) else w)
               else w)
      in (r\<lparr>rs_child := (if rs_child r > 0 then -1 else rs_child r), rs_record := [], rs_on_done := False, rs_failure := RESOLVE_OK\<rparr>, L, w))"

definition resolve_outcome_of :: "bytes \<Rightarrow> inkwell_resolve_outcome" where
  "resolve_outcome_of bs =
     (if record_error bs = 0 then (if record_count bs > 0 then RESOLVE_OK else RESOLVE_NOT_FOUND)
      else if record_error bs = eai_noname then RESOLVE_NOT_FOUND
      else if record_error bs = eai_nodata then RESOLVE_NOT_FOUND
      else RESOLVE_FAILED)"

definition resolve_result :: "bytes \<Rightarrow> inkwell_resolve_outcome \<Rightarrow> inkwell_resolve_result" where
  "resolve_result bs outcome =
     \<lparr>rr_outcome = outcome,
      rr_gai_error = (if resolve_record_size \<le> length bs then record_error bs else 0),
      rr_addresses = (if resolve_record_size \<le> length bs \<and> outcome = RESOLVE_OK
                      then map (record_address bs) [0..<min (record_count bs) resolve_addresses_max] else [])\<rparr>"

definition resolve_complete :: "'w resolve_env \<Rightarrow> inkwell_resolve \<Rightarrow> inkwell_loop \<Rightarrow> inkwell_resolve_outcome \<Rightarrow> 'w
    \<Rightarrow> inkwell_resolve_result option \<times> inkwell_resolve \<times> inkwell_loop \<times> 'w" where
  "resolve_complete E r L outcome w =
     (let result = resolve_result (rs_record r) outcome;
          on_done = rs_on_done r;
          (r, L, w) = resolve_release_fd E r L w
      in (if on_done then Some result else None, r\<lparr>rs_child := -1, rs_record := [], rs_on_done := False, rs_failure := RESOLVE_OK\<rparr>, L, w))"

partial_function (option) resolve_drain :: "'w resolve_env \<Rightarrow> inkwell_resolve \<Rightarrow> 'w \<Rightarrow> (bool \<times> inkwell_resolve \<times> 'w) option" where
  "resolve_drain E r w =
     (if rs_child_fd r < 0 then Some (False, r, w)
      else if resolve_record_size \<le> length (rs_record r) then Some (False, r, w)
      else case h_read (re_host E) (rs_child_fd r) (resolve_record_size - length (rs_record r)) w of
        (Inr got, w) \<Rightarrow> if got \<noteq> [] then resolve_drain E (r\<lparr>rs_record := rs_record r @ got\<rparr>) w else Some (False, r, w)
      | (Inl e, w) \<Rightarrow>
          if e = EINTR then resolve_drain E r w
          else if e = EAGAIN then Some (True, r, w)
          else Some (False, r\<lparr>rs_failure := RESOLVE_FAILED\<rparr>, w))"

definition resolve_try_finish :: "'w resolve_env \<Rightarrow> inkwell_resolve \<Rightarrow> inkwell_loop \<Rightarrow> 'w
    \<Rightarrow> (inkwell_resolve_result option \<times> inkwell_resolve \<times> inkwell_loop \<times> 'w) option" where
  "resolve_try_finish E r L w =
     (if rs_child r \<le> 0 then Some (None, r, L, w)
      else do {
        (more_to_come, r, w) \<leftarrow> resolve_drain E r w;
        let (r, L, w) = (if more_to_come then (r, L, w) else resolve_release_fd E r L w);
        let (reaped, w) = p_wait_nohang (re_proc E) (rs_child r) w;
        Some (if reaped \<noteq> rs_child r then
                (if rs_failure r \<noteq> RESOLVE_OK then
                   (let why = rs_failure r; w = p_wait (re_proc E) (rs_child r) (p_kill (re_proc E) (rs_child r) w)
                    in resolve_complete E (r\<lparr>rs_child := -1\<rparr>) L why w)
                 else (None, r, L, w))
              else
                let r = r\<lparr>rs_child := -1\<rparr> in
                if rs_failure r \<noteq> RESOLVE_OK then resolve_complete E r L (rs_failure r) w
                else if length (rs_record r) < resolve_record_size then resolve_complete E r L RESOLVE_FAILED w
                else resolve_complete E r L (resolve_outcome_of (rs_record r)) w) })"

definition resolve_on_child_output :: "'w resolve_env \<Rightarrow> inkwell_resolve \<Rightarrow> inkwell_loop \<Rightarrow> u32 \<Rightarrow> 'w
    \<Rightarrow> (inkwell_resolve_result option \<times> inkwell_resolve \<times> inkwell_loop \<times> 'w) option" where
  "resolve_on_child_output E r L events w = do {
     (more_to_come, r, w) \<leftarrow> resolve_drain E r w;
     if more_to_come \<and> events AND (loop_hup OR loop_err) = 0 then Some (None, r, L, w) else resolve_try_finish E r L w }"

section \<open>The interface\<close>

definition inkwell_resolve_available :: "inkwell_resolve \<Rightarrow> bool" where
  "inkwell_resolve_available r \<longleftrightarrow> rs_has_loop r"

definition inkwell_resolve_busy :: "inkwell_resolve \<Rightarrow> bool" where
  "inkwell_resolve_busy r \<longleftrightarrow> rs_child r > 0"

definition inkwell_resolve_start :: "'w resolve_env \<Rightarrow> inkwell_resolve \<Rightarrow> inkwell_loop \<Rightarrow> bytes \<Rightarrow> u16 \<Rightarrow> u64 \<Rightarrow> 'w
    \<Rightarrow> (errno + unit) \<times> inkwell_resolve \<times> inkwell_loop \<times> 'w" where
  "inkwell_resolve_start E r L name port now_ms w =
     (if name = [] then (Inl EINVAL, r, L, w)
      else if \<not> inkwell_resolve_available r then (Inl ENOTSUP, r, L, w)
      else if rs_child r > 0 then (Inl EBUSY, r, L, w)
      else let (r, L, w) = resolve_discard E r L w in
        case p_pipe (re_proc E) w of
          (Inl e, w) \<Rightarrow> (Inl e, r, L, w)
        | (Inr (rd, wr), w) \<Rightarrow>
            (case p_fork (re_proc E) (resolve_child (re_host E) wr) name (decimal (unat port)) w of
               (Inl e, w) \<Rightarrow> (Inl e, r, L, snd (h_close (re_host E) wr (snd (h_close (re_host E) rd w))))
             | (Inr pid, w) \<Rightarrow>
                 let w = snd (h_close (re_host E) wr w) in
                 (case p_nonblock (re_proc E) rd w of
                    (Inl e, w) \<Rightarrow>
                      (Inl e, r, L, p_wait (re_proc E) pid (p_kill (re_proc E) pid (snd (h_close (re_host E) rd w))))
                  | (Inr _, w) \<Rightarrow>
                      let r = r\<lparr>rs_child := pid, rs_child_fd := rd, rs_record := [], rs_failure := RESOLVE_OK,
                                rs_deadline_ms := now_ms + resolve_timeout_ms, rs_on_done := True\<rparr>
                      in case inkwell_loop_add_fd (re_backend E) L rd loop_in (fst (re_callback E)) (snd (re_callback E)) w of
                           (Inl e, L, w) \<Rightarrow> (Inl e, resolve_discard E r L w)
                         | (Inr _, L, w) \<Rightarrow> (Inr (), r, L, w))))"

text \<open>The two halves of a tick.\<close>

definition resolve_tick_finish :: "'w resolve_env \<Rightarrow> inkwell_resolve \<Rightarrow> inkwell_loop \<Rightarrow> 'w
    \<Rightarrow> (inkwell_resolve_result option \<times> inkwell_resolve \<times> inkwell_loop \<times> 'w) option" where
  "resolve_tick_finish E r L w = (if rs_child r \<le> 0 then Some (None, r, L, w) else resolve_try_finish E r L w)"

definition resolve_tick_deadline :: "'w resolve_env \<Rightarrow> inkwell_resolve \<Rightarrow> inkwell_loop \<Rightarrow> u64 \<Rightarrow> 'w
    \<Rightarrow> inkwell_resolve_result option \<times> inkwell_resolve \<times> inkwell_loop \<times> 'w" where
  "resolve_tick_deadline E r L now_ms w =
     (if rs_child r \<le> 0 then (None, r, L, w)
      else if rs_deadline_ms r \<le> now_ms then
        (let (r, L, w) = resolve_release_fd E r L w;
             w = p_wait (re_proc E) (rs_child r) (p_kill (re_proc E) (rs_child r) w)
         in resolve_complete E (r\<lparr>rs_child := -1\<rparr>) L RESOLVE_TIMED_OUT w)
      else (None, r, L, w))"

definition inkwell_resolve_cancel :: "'w resolve_env \<Rightarrow> inkwell_resolve \<Rightarrow> inkwell_loop \<Rightarrow> 'w \<Rightarrow> inkwell_resolve \<times> inkwell_loop \<times> 'w" where
  "inkwell_resolve_cancel E r L w = resolve_discard E r L w"

definition fork_resolver_ops :: "'w resolve_env \<Rightarrow> 'w resolver_ops" where
  "fork_resolver_ops E = \<lparr>r_start = inkwell_resolve_start E, r_cancel = inkwell_resolve_cancel E, r_on_output = resolve_on_child_output E,
     r_tick = resolve_tick_finish E, r_tick_deadline = resolve_tick_deadline E\<rparr>"

definition no_resolver_ops :: "'w resolver_ops" where
  "no_resolver_ops = \<lparr>
     r_start = (\<lambda>r L name port now w. (Inl (if name = [] then EINVAL else ENOTSUP), r, L, w)),
     r_cancel = (\<lambda>r L w. (r, L, w)), r_on_output = (\<lambda>r L events w. Some (None, r, L, w)),
     r_tick = (\<lambda>r L w. Some (None, r, L, w)), r_tick_deadline = (\<lambda>r L now w. (None, r, L, w))\<rparr>"

section \<open>The record, read back\<close>

definition wf_resolve_record :: "resolve_record \<Rightarrow> bool" where
  "wf_resolve_record r \<longleftrightarrow> - (2 ^ 31) \<le> rec_error r \<and> rec_error r < 2 ^ 31 \<and> length (rec_addresses r) \<le> resolve_addresses_max
     \<and> (\<forall>a \<in> set (rec_addresses r). length a \<le> sockaddr_size)"

lemma length_entry: "length a \<le> sockaddr_size \<Longrightarrow> length (resolve_entry_bytes a) = sockaddr_size + 8"
  by (simp add: resolve_entry_bytes_def)

lemma length_entries: "\<forall>a \<in> set as. length a \<le> sockaddr_size \<Longrightarrow> length (concat (map resolve_entry_bytes as)) = length as * (sockaddr_size + 8)"
  by (induction as) (simp_all add: length_entry)

lemma length_record:
  assumes "wf_resolve_record r"
  shows "length (resolve_record_bytes r) = resolve_record_size"
proof -
  have "length (concat (map resolve_entry_bytes (rec_addresses r))) = length (rec_addresses r) * (sockaddr_size + 8)"
    using assms by (intro length_entries) (simp add: wf_resolve_record_def)
  moreover have "length (rec_addresses r) \<le> 4" using assms by (simp add: wf_resolve_record_def resolve_addresses_max_def)
  ultimately show ?thesis
    by (simp add: resolve_record_bytes_def resolve_record_size_def resolve_addresses_max_def sockaddr_size_def del: length_concat)
qed

lemma u32_at_append: "u32_at (pre @ le32_bytes v @ post) (length pre) = v"
proof -
  have nth: "(pre @ le32_bytes v @ post) ! (length pre + k) = (le32_bytes v @ post) ! k" for k by (rule nth_append_length_plus)
  have "(pre @ le32_bytes v @ post) ! length pre = ucast v" using nth [of 0] by (simp add: le32_bytes_def)
  moreover have "(pre @ le32_bytes v @ post) ! (length pre + 1) = ucast (drop_bit 8 v)" unfolding nth by (simp add: le32_bytes_def)
  moreover have "(pre @ le32_bytes v @ post) ! (length pre + 2) = ucast (drop_bit 16 v)" unfolding nth by (simp add: le32_bytes_def)
  moreover have "(pre @ le32_bytes v @ post) ! (length pre + 3) = ucast (drop_bit 24 v)" unfolding nth by (simp add: le32_bytes_def)
  ultimately show ?thesis by (simp only: u32_at_def le32_of_bytes)
qed

lemma record_entry_at:
  assumes "\<forall>a \<in> set as. length a \<le> sockaddr_size" "i < length as" "length pre = 8"
  shows "record_address (pre @ concat (map resolve_entry_bytes as) @ post) i = as ! i"
proof -
  let ?front = "pre @ concat (map resolve_entry_bytes (take i as))"
  let ?a = "as ! i"
  let ?pad = "replicate (sockaddr_size - length ?a) (0 :: u8)"
  let ?rest = "concat (map resolve_entry_bytes (drop (Suc i) as)) @ post"
  let ?bs = "pre @ concat (map resolve_entry_bytes as) @ post"
  have "as = take i as @ ?a # drop (Suc i) as" using assms(2) by (simp add: id_take_nth_drop)
  then have "map resolve_entry_bytes as = map resolve_entry_bytes (take i as) @ resolve_entry_bytes ?a # map resolve_entry_bytes (drop (Suc i) as)"
    by (metis list.simps(9) map_append)
  then have bs: "?bs = ?front @ le32_bytes (of_nat (length ?a)) @ replicate 4 0 @ ?a @ ?pad @ ?rest"
    by (simp only: concat_append concat.simps(2) resolve_entry_bytes_def append_assoc)
  have "\<forall>a \<in> set (take i as). length a \<le> sockaddr_size" using assms(1) by (meson in_set_takeD)
  then have len: "length ?front = 8 + i * (sockaddr_size + 8)" using assms(2,3) length_entries [of "take i as"] by (simp del: length_concat)
  have la: "length ?a \<le> sockaddr_size" using assms(1,2) by simp
  have "u32_at ?bs (8 + i * (sockaddr_size + 8)) = of_nat (length ?a)" unfolding bs len [symmetric] by (rule u32_at_append)
  then have n: "unat (u32_at ?bs (8 + i * (sockaddr_size + 8))) = length ?a"
    using la by (simp add: unat_of_nat sockaddr_size_def)
  have dr: "drop (8 + i * (sockaddr_size + 8) + 8) ?bs = ?a @ ?pad @ ?rest"
    unfolding bs len [symmetric] by simp
  show ?thesis unfolding record_address_def Let_def n dr using la by simp
qed

lemma record_fields:
  assumes "wf_resolve_record r"
  shows "record_error (resolve_record_bytes r) = rec_error r" "record_count (resolve_record_bytes r) = length (rec_addresses r)"
    "map (record_address (resolve_record_bytes r)) [0..<length (rec_addresses r)] = rec_addresses r"
proof -
  let ?tail = "concat (map resolve_entry_bytes (rec_addresses r)) @ replicate ((resolve_addresses_max - length (rec_addresses r)) * (sockaddr_size + 8)) 0"
  have "u32_at ([] @ le32_bytes (of_int (rec_error r)) @ le32_bytes (of_nat (length (rec_addresses r))) @ ?tail) (length ([] :: bytes)) = of_int (rec_error r)"
    by (rule u32_at_append)
  then show "record_error (resolve_record_bytes r) = rec_error r"
    using assms by (simp add: record_error_def resolve_record_bytes_def wf_resolve_record_def signed_of_int signed_take_bit_int_eq_self)
  have "u32_at (le32_bytes (of_int (rec_error r)) @ le32_bytes (of_nat (length (rec_addresses r))) @ ?tail) (length (le32_bytes (of_int (rec_error r))))
      = of_nat (length (rec_addresses r))"
    by (rule u32_at_append)
  then show "record_count (resolve_record_bytes r) = length (rec_addresses r)"
    using assms by (simp add: record_count_def resolve_record_bytes_def wf_resolve_record_def resolve_addresses_max_def unat_of_nat)
  show "map (record_address (resolve_record_bytes r)) [0..<length (rec_addresses r)] = rec_addresses r"
  proof (rule nth_equalityI)
    fix i
    assume "i < length (map (record_address (resolve_record_bytes r)) [0..<length (rec_addresses r)])"
    then show "map (record_address (resolve_record_bytes r)) [0..<length (rec_addresses r)] ! i = rec_addresses r ! i"
      using assms record_entry_at [of "rec_addresses r" i "le32_bytes (of_int (rec_error r)) @ le32_bytes (of_nat (length (rec_addresses r)))"]
      by (simp add: resolve_record_bytes_def wf_resolve_record_def)
  qed simp
qed

lemma find_holds: "List.find P xs = Some x \<Longrightarrow> P x \<and> x \<in> set xs"
  by (induction xs) (auto split: if_splits)

lemma pick_usable_some:
  assumes "pick_usable results taken wanted = Some i"
  shows "i < length results \<and> i \<notin> taken \<and> wanted (results ! i) \<and> (\<exists>a. ai_addr (results ! i) = Some a \<and> a \<noteq> [] \<and> length a \<le> sockaddr_size)"
  using find_holds [OF assms [unfolded pick_usable_def]] by (auto split: option.splits)

lemma pick_loop_wf:
  "length (resolve_pick_loop room results taken family) \<le> room
   \<and> (\<forall>a \<in> set (resolve_pick_loop room results taken family). a \<noteq> [] \<and> length a \<le> sockaddr_size)"
proof (induction room arbitrary: taken family)
  case (Suc room)
  define pick where "pick = (case pick_usable results taken (\<lambda>r. ai_family r = family) of
      Some i \<Rightarrow> Some i | None \<Rightarrow> pick_usable results taken (\<lambda>_. True))"
  show ?case
  proof (cases pick)
    case None
    then show ?thesis by (simp add: pick_def [symmetric])
  next
    case (Some i)
    then have "\<exists>a. ai_addr (results ! i) = Some a \<and> a \<noteq> [] \<and> length a \<le> sockaddr_size"
      using pick_usable_some [of results taken] unfolding pick_def by (fastforce split: option.splits)
    then show ?thesis using Suc.IH Some by (auto simp: pick_def [symmetric])
  qed
qed simp

lemma answer_wf: "- (2 ^ 31) \<le> err \<Longrightarrow> err < 2 ^ 31 \<Longrightarrow> wf_resolve_record (resolve_answer (err, results))"
  using pick_loop_wf [of resolve_addresses_max results] by (auto simp: wf_resolve_record_def resolve_answer_def resolve_pick_def)

section \<open>An answer that has arrived\<close>

text \<open>
  What a pipe promises its reader: \<open>pending\<close> is the bytes in the pipe of the lookup. A read takes some of them, as many as asked
  for at the most; it would block, or sees the end, only when there are none.
\<close>

locale resolve_pipe =
  fixes E :: "'w resolve_env" and fd :: int and pending :: "'w \<Rightarrow> bytes"
  assumes read_some: "h_read (re_host E) fd n w = (Inr got, w') \<Longrightarrow> 0 < n \<Longrightarrow>
        pending w = got @ pending w' \<and> length got \<le> n \<and> (got = [] \<longrightarrow> pending w = [])"
    and read_again: "h_read (re_host E) fd n w = (Inl EAGAIN, w') \<Longrightarrow> 0 < n \<Longrightarrow> pending w = [] \<and> pending w' = []"
    and read_interrupted: "h_read (re_host E) fd n w = (Inl EINTR, w') \<Longrightarrow> pending w' = pending w"
    and read_works: "h_read (re_host E) fd n w = (Inl e, w') \<Longrightarrow> e = EAGAIN \<or> e = EINTR"
begin

lemma drain_takes:
  assumes "resolve_drain E r w = Some (more_to_come, r', w')" "rs_child_fd r = fd" "0 \<le> fd"
    "length (rs_record r @ pending w) \<le> resolve_record_size"
  shows "r' = r\<lparr>rs_record := rs_record r @ pending w\<rparr> \<and> pending w' = []"
proof -
  let ?P = "\<lambda>E' r w y. E' = E \<longrightarrow> rs_child_fd r = fd \<longrightarrow> length (rs_record r @ pending w) \<le> resolve_record_size
    \<longrightarrow> fst (snd y) = r\<lparr>rs_record := rs_record r @ pending w\<rparr> \<and> pending (snd (snd y)) = []"
  have "?P E r w (more_to_come, r', w')" using assms(1)
  proof (rule resolve_drain.raw_induct [where P = ?P, rotated], intro impI)
    fix drain E' r w y
    assume hyp: "\<And>E' r w y. drain E' r w = Some y \<Longrightarrow> ?P E' r w y"
      and body: "(if rs_child_fd r < 0 then Some (False, r, w)
        else if resolve_record_size \<le> length (rs_record r) then Some (False, r, w)
        else case h_read (re_host E') (rs_child_fd r) (resolve_record_size - length (rs_record r)) w of
          (Inr got, w) \<Rightarrow> if got \<noteq> [] then drain E' (r\<lparr>rs_record := rs_record r @ got\<rparr>) w else Some (False, r, w)
        | (Inl e, w) \<Rightarrow>
            if e = EINTR then drain E' r w
            else if e = EAGAIN then Some (True, r, w)
            else Some (False, r\<lparr>rs_failure := RESOLVE_FAILED\<rparr>, w)) = Some y"
      and E: "E' = E" and fd: "rs_child_fd r = fd" and len: "length (rs_record r @ pending w) \<le> resolve_record_size"
    show "fst (snd y) = r\<lparr>rs_record := rs_record r @ pending w\<rparr> \<and> pending (snd (snd y)) = []"
    proof (cases "resolve_record_size \<le> length (rs_record r)")
      case True
      then have "y = (False, r, w)" using body fd assms(3) by simp
      moreover have "length (pending w) = 0" using len True by (simp del: length_0_conv)
      ultimately show ?thesis by simp
    next
      case False
      obtain x w1 where rd: "h_read (re_host E) fd (resolve_record_size - length (rs_record r)) w = (x, w1)" by (metis surj_pair)
      note body = body [unfolded E fd rd]
      have room: "0 < resolve_record_size - length (rs_record r)" using False by simp
      show ?thesis
      proof (cases x)
        case (Inr got)
        let ?r1 = "r\<lparr>rs_record := rs_record r @ got\<rparr>"
        have g: "pending w = got @ pending w1" "got = [] \<longrightarrow> pending w = []" using read_some [OF rd [unfolded Inr]] room by auto
        show ?thesis
        proof (cases "got = []")
          case True
          then have "y = (False, r, w1)" using body Inr False assms(3) by simp
          then show ?thesis using g True by simp
        next
          case got: False
          then have "drain E ?r1 w1 = Some y" using body Inr False assms(3) by simp
          then have "fst (snd y) = ?r1\<lparr>rs_record := rs_record ?r1 @ pending w1\<rparr> \<and> pending (snd (snd y)) = []"
            by (rule hyp [rule_format]) (use fd len g(1) in simp_all)
          then show ?thesis using g(1) by simp
        qed
      next
        case (Inl e)
        show ?thesis
        proof (cases "e = EINTR")
          case True
          then have "drain E r w1 = Some y" using body Inl False assms(3) by simp
          then have "fst (snd y) = r\<lparr>rs_record := rs_record r @ pending w1\<rparr> \<and> pending (snd (snd y)) = []"
            by (rule hyp [rule_format]) (use fd len read_interrupted [OF rd [unfolded Inl True]] in simp_all)
          then show ?thesis using read_interrupted [OF rd [unfolded Inl True]] by simp
        next
          case intr: False
          then have e: "e = EAGAIN" using read_works [OF rd [unfolded Inl]] by simp
          then have "y = (True, r, w1)" using body Inl False assms(3) by simp
          then show ?thesis using read_again [OF rd [unfolded Inl e]] room by simp
        qed
      qed
    qed
  qed
  then show ?thesis using assms by simp
qed

end

lemma release_fd_keeps:
  "resolve_release_fd E r L w = (r', L', w') \<Longrightarrow>
   rs_child r' = rs_child r \<and> rs_record r' = rs_record r \<and> rs_failure r' = rs_failure r \<and> rs_on_done r' = rs_on_done r"
  by (auto simp: resolve_release_fd_def Let_def split: if_splits prod.splits)

text \<open>The result a lookup should have: what \<open>getaddrinfo\<close> said, and the addresses picked from its answers.\<close>

definition resolve_expected :: "int \<times> addrinfo list \<Rightarrow> inkwell_resolve_result" where
  "resolve_expected = (\<lambda>(err, results).
     \<lparr>rr_outcome = (if err = 0 then (if resolve_pick results = [] then RESOLVE_NOT_FOUND else RESOLVE_OK)
                    else if err = eai_noname \<or> err = eai_nodata then RESOLVE_NOT_FOUND else RESOLVE_FAILED),
      rr_gai_error = err, rr_addresses = (if err = 0 then resolve_pick results else [])\<rparr>)"

lemma result_expected:
  fixes err :: int and results :: "addrinfo list"
  assumes "- (2 ^ 31) \<le> err" "err < 2 ^ 31"
  defines "bs \<equiv> resolve_record_bytes (resolve_answer (err, results))"
  shows "resolve_result bs (resolve_outcome_of bs) = resolve_expected (err, results)"
proof -
  let ?r = "resolve_answer (err, results)"
  have wf: "wf_resolve_record ?r" using answer_wf assms(1,2) by blast
  note f = record_fields [OF wf, folded bs_def]
  have n: "length (rec_addresses ?r) \<le> resolve_addresses_max" using wf by (simp add: wf_resolve_record_def)
  have "resolve_record_size \<le> length bs" using length_record [OF wf] by (simp add: bs_def)
  then show ?thesis
    using f n by (auto simp: resolve_result_def resolve_expected_def resolve_outcome_of_def resolve_answer_def min_absorb1)
qed

context resolve_pipe
begin

lemma try_finish_answers:
  assumes "resolve_try_finish E r L w = Some (x, r', L', w')" "0 < rs_child r" "rs_child_fd r = fd" "0 \<le> fd" "rs_failure r = RESOLVE_OK" "rs_on_done r"
    "rs_record r @ pending w = resolve_record_bytes (resolve_answer (err, results))" "- (2 ^ 31) \<le> err" "err < 2 ^ 31"
  shows "x = None \<and> rs_child r' = rs_child r \<or> x = Some (resolve_expected (err, results))"
proof -
  let ?bs = "resolve_record_bytes (resolve_answer (err, results))"
  have len: "length ?bs = resolve_record_size" using length_record answer_wf assms(8,9) by blast
  obtain more_to_come r1 w1 where d: "resolve_drain E r w = Some (more_to_come, r1, w1)"
    using assms(1,2) by (auto simp: resolve_try_finish_def bind_eq_Some_conv)
  have r1: "r1 = r\<lparr>rs_record := ?bs\<rparr>" using drain_takes [OF d assms(3,4)] assms(7) len by simp
  obtain r2 L2 w2 where rel: "(if more_to_come then (r1, L, w1) else resolve_release_fd E r1 L w1) = (r2, L2, w2)" by (metis prod_cases3)
  have r2: "rs_child r2 = rs_child r" "rs_record r2 = ?bs" "rs_failure r2 = RESOLVE_OK" "rs_on_done r2"
    using rel release_fd_keeps [of E r1 L w1 r2 L2 w2] assms(5,6) r1 by (auto split: if_splits)
  obtain reaped w3 where wn: "p_wait_nohang (re_proc E) (rs_child r2) w2 = (reaped, w3)" by (metis surj_pair)
  note fin = assms(1) [unfolded resolve_try_finish_def d bind.bind_lunit Let_def]
  show ?thesis
  proof (cases "reaped = rs_child r2")
    case False
    then have "x = None" "r' = r2" using fin assms(2) d rel wn r2 by (auto simp: not_le)
    then show ?thesis using r2(1) by simp
  next
    case True
    then have "resolve_complete E (r2\<lparr>rs_child := -1\<rparr>) L2 (resolve_outcome_of ?bs) w3 = (x, r', L', w')"
      using fin assms(2) d rel wn r2 len by (auto simp: not_le)
    then have "x = Some (resolve_result ?bs (resolve_outcome_of ?bs))"
      using r2(2,4) by (auto simp: resolve_complete_def Let_def split: prod.splits)
    then show ?thesis using result_expected [OF assms(8,9)] by simp
  qed
qed

end

end
