(* ===== verification/Resolve_Run.thy ===== *)
theory Resolve_Run
  imports Resolve
begin

text \<open>
  Histories of a resolver: any sequence of lookups that are started, output of the child, ticks and cancellations. The interface
  \<open>resolve_kernel\<close> is what the system promises of processes and descriptors. Every lookup that started is completed once, cancelled, or
  still running, and no child and no descriptor outlives its lookup. \<open>script_proc\<close> is a system that runs a script, on
  which the hypotheses hold.
\<close>

section \<open>Processes and descriptors\<close>





section \<open>Histories\<close>





section \<open>A system with a script\<close>

text \<open>
  A system in which the child of a lookup answers \<open>sw_gai\<close>. Its record is in the pipe as soon as it is forked, or, when the script says so
  (\<open>sw_late\<close>), only just before it exits, which is when the parent looks for it.
\<close>

record script_world =
  sw_procs :: "int set"
  sw_fds :: "int set"
  sw_next :: int
  sw_gai :: "int \<times> addrinfo list"
  sw_late :: bool
  sw_unwritten :: bytes
  sw_pipe :: bytes

definition script_host :: "script_world host" where
  "script_host = \<lparr>
     h_now = (\<lambda>w. (0, w)),
     h_read = (\<lambda>fd n w. if sw_pipe w = [] then (Inl EAGAIN, w)
                        else (Inr (take n (sw_pipe w)), w\<lparr>sw_pipe := drop n (sw_pipe w)\<rparr>)),
     h_write = (\<lambda>fd bs w. (Inr (length bs), w\<lparr>sw_pipe := sw_pipe w @ bs\<rparr>)),
     h_recv = (\<lambda>fd n w. (Inl EAGAIN, w)), h_send = (\<lambda>fd bs w. (Inl EAGAIN, w)),
     h_close = (\<lambda>fd w. (Inr (), w\<lparr>sw_fds := sw_fds w - {fd}\<rparr>)),
     h_eventfd = (\<lambda>w. (Inl ENOSYS, w)), h_epoll_create = (\<lambda>w. (Inl ENOSYS, w)),
     h_epoll_ctl = (\<lambda>p op fd ev w. (Inr (), w)), h_epoll_wait = (\<lambda>p n t w. (Inr [], w)),
     h_kqueue = (\<lambda>w. (Inl ENOSYS, w)), h_kevent_change = (\<lambda>p fd filt en i w. (Inl ENOSYS, w)), h_kevent_wait = (\<lambda>p n t w. (Inl ENOSYS, w))\<rparr>"

definition script_proc :: "script_world proc_host" where
  "script_proc = \<lparr>
     p_pipe = (\<lambda>w. if sw_next w \<le> 0 \<or> sw_next w \<in> sw_fds w \<or> sw_next w + 1 \<in> sw_fds w then (Inl EIO, w)
                   else (Inr (sw_next w, sw_next w + 1), w\<lparr>sw_fds := {sw_next w, sw_next w + 1} \<union> sw_fds w, sw_next := sw_next w + 2\<rparr>)),
     p_fork = (\<lambda>child name service w.
        if sw_next w \<le> 0 \<or> sw_next w \<in> sw_procs w then (Inl EAGAIN, w)
        else let bs = (case child (sw_gai w) (w\<lparr>sw_pipe := []\<rparr>) of None \<Rightarrow> [] | Some w' \<Rightarrow> sw_pipe w');
                 w = w\<lparr>sw_procs := insert (sw_next w) (sw_procs w), sw_next := sw_next w + 1\<rparr>
             in (Inr (sw_next w - 1), if sw_late w then w\<lparr>sw_pipe := [], sw_unwritten := bs\<rparr> else w\<lparr>sw_pipe := bs\<rparr>)),
     p_nonblock = (\<lambda>fd w. (Inr (), w)), p_kill = (\<lambda>pid w. w), p_wait = (\<lambda>pid w. w\<lparr>sw_procs := sw_procs w - {pid}\<rparr>),
     p_wait_nohang = (\<lambda>pid w. (pid, w\<lparr>sw_procs := sw_procs w - {pid}, sw_pipe := (if sw_late w then sw_unwritten w else sw_pipe w)\<rparr>))\<rparr>"

definition script_env :: "script_world resolve_env" where
  "script_env = \<lparr>re_host = script_host, re_backend = epoll_backend script_host, re_proc = script_proc, re_callback = (APP_CALLBACK 1, 0)\<rparr>"



definition script_start :: "bool \<Rightarrow> script_world" where
  "script_start late = \<lparr>sw_procs = {}, sw_fds = {}, sw_next = 5, sw_gai = (0, [\<lparr>ai_family = 2, ai_addr = Some [2, 0, 0, 80, 127, 0, 0, 1]\<rparr>]),
     sw_late = late, sw_unwritten = [], sw_pipe = []\<rparr>"

text \<open>The lookup of the script, started.\<close>

abbreviation script_lookup :: "bool \<Rightarrow> (errno + unit) \<times> inkwell_resolve \<times> inkwell_loop \<times> script_world" where
  "script_lookup late \<equiv> inkwell_resolve_start script_env (inkwell_resolve_init True) zero_loop [0x61] 80 0 (script_start late)"

definition script_bytes :: bytes where
  "script_bytes = resolve_record_bytes (resolve_answer (sw_gai (script_start True)))"

lemma script_bytes_length: "length script_bytes = resolve_record_size"
  unfolding script_bytes_def script_start_def by (simp add: length_record answer_wf)

lemma script_child: "resolve_child script_host fd (sw_gai (script_start late)) w = Some (w\<lparr>sw_pipe := sw_pipe w @ script_bytes\<rparr>)"
proof -
  have gai: "sw_gai (script_start late) = sw_gai (script_start True)" by (simp add: script_start_def)
  have "script_bytes \<noteq> []" using script_bytes_length by (auto simp: resolve_record_size_def)
  then show ?thesis unfolding resolve_child_def gai script_bytes_def [symmetric]
    by (subst resolve_write_record.simps) (simp add: resolve_write_record.simps [of _ _ "[]"] script_host_def)
qed

lemma zero_loop_free: "find_source_index zero_loop fd = None" "free_slot zero_loop = Some 0"
  using zero_loop_find [where p = "poll_fd zero_loop" and k = "wake zero_loop"] by simp_all

lemma script_lookup_result:
  "\<exists>r L w. script_lookup late = (Inr (), r, L, w) \<and> rs_child r = 7 \<and> rs_child_fd r = 5 \<and> rs_record r = [] \<and> rs_failure r = RESOLVE_OK \<and> rs_on_done r
     \<and> sw_pipe w = (if late then [] else script_bytes) \<and> sw_unwritten w = (if late then script_bytes else []) \<and> sw_late w = late"
proof -
  have sp: "case_option [] sw_pipe (resolve_child script_host 6 (sw_gai (script_start late)) w) = script_bytes" if "sw_pipe w = []" for w
    using that by (simp add: script_child)
  show ?thesis
    using sp [of "script_start late\<lparr>sw_next := 7, sw_fds := {5, 6}\<rparr>"]
    by (simp add: inkwell_resolve_start_def inkwell_resolve_available_def inkwell_resolve_init_def resolve_discard_def resolve_release_fd_def script_env_def
        script_proc_def script_start_def inkwell_loop_add_fd_def zero_loop_free epoll_backend_def backend_ctl_def script_host_def Let_def)
qed

text \<open>A child that writes its answer and exits between the read and the reap: the lookup fails, with the answer in the pipe.\<close>

lemma resolve_race_loses:
  "case script_lookup True of (_, r, L, w) \<Rightarrow>
     \<exists>result r' L' w'. resolve_tick_finish script_env r L w = Some (Some result, r', L', w') \<and> rr_outcome result = RESOLVE_FAILED
       \<and> sw_pipe w' = resolve_record_bytes (resolve_answer (sw_gai (script_start True)))"
proof -
  obtain r L w where l: "script_lookup True = (Inr (), r, L, w)" "rs_child r = 7" "rs_child_fd r = 5" "rs_record r = []" "rs_failure r = RESOLVE_OK"
      "rs_on_done r" "sw_pipe w = []" "sw_unwritten w = script_bytes" "sw_late w"
    using script_lookup_result [of True] by auto
  have d: "resolve_drain script_env r w = Some (True, r, w)"
    using l by (simp add: resolve_drain.simps resolve_record_size_def script_env_def script_host_def)
  have rel: "sw_pipe (snd (snd (resolve_release_fd script_env r1 L1 w1))) = sw_pipe w1" for r1 L1 w1
    by (auto simp: resolve_release_fd_def script_env_def script_host_def inkwell_loop_remove_fd_def epoll_backend_def backend_ctl_def Let_def
        split: option.splits if_splits)
  define w1 where "w1 = w\<lparr>sw_procs := sw_procs w - {7}, sw_pipe := script_bytes\<rparr>"
  have tf: "resolve_tick_finish script_env r L w = Some (resolve_complete script_env (r\<lparr>rs_child := -1\<rparr>) L RESOLVE_FAILED w1)"
    using l d by (simp add: resolve_tick_finish_def resolve_try_finish_def w1_def) (simp add: script_env_def script_proc_def resolve_record_size_def)
  obtain r2 L2 w2 where rf: "resolve_release_fd script_env (r\<lparr>rs_child := -1\<rparr>) L w1 = (r2, L2, w2)" by (metis prod_cases3)
  have "sw_pipe w2 = script_bytes" using rel [of "r\<lparr>rs_child := -1\<rparr>" L w1] rf by (simp add: w1_def)
  moreover have "resolve_complete script_env (r\<lparr>rs_child := -1\<rparr>) L RESOLVE_FAILED w1
      = (Some (resolve_result [] RESOLVE_FAILED), r2\<lparr>rs_child := -1, rs_record := [], rs_on_done := False, rs_failure := RESOLVE_OK\<rparr>, L2, w2)"
    using l rf by (simp add: resolve_complete_def)
  ultimately show ?thesis using l(1) tf by (simp add: resolve_result_def script_bytes_def)
qed

section \<open>Properties\<close>





end
