(* ===== verification/Mqtt_Run.thy ===== *)
theory Mqtt_Run
  imports Mqtt_Session Tls Resolve_Run
begin

text \<open>
  Histories of the MQTT client. Any sequence of calls, ticks and events keeps the invariant; a client that is waiting for
  something stops waiting when its time has come. \<open>calm_env\<close> is an environment on which the hypotheses hold: a broker with a
  script, the resolver and the TLS of a build that has neither, and an application that keeps what it is given.
\<close>

section \<open>Histories\<close>

datatype mqtt_op =
    Mqtt_start "mqtt_client_config option" "nat option" "nat option" nat u64
  | Mqtt_stop
  | Mqtt_shutdown
  | Mqtt_ca "bytes option"
  | Mqtt_subscribe "bytes option"
  | Mqtt_clear
  | Mqtt_publish "bytes option" "bytes option" bool
  | Mqtt_event u32
  | Mqtt_lookup u32
  | Mqtt_tick u64

definition mqtt_step :: "'w mqtt_env \<Rightarrow> mqtt_op \<Rightarrow> 'w mqtt \<Rightarrow> 'w mqtt option" where
  "mqtt_step E op = (\<lambda>(c, L, w).
     case op of
       Mqtt_start config on_message on_state userdata now \<Rightarrow>
         map_option snd (inkwell_mqtt_client_start E config on_message on_state userdata now (c, L, w))
     | Mqtt_stop \<Rightarrow> inkwell_mqtt_client_stop E (c, L, w)
     | Mqtt_shutdown \<Rightarrow> Some (inkwell_mqtt_client_shutdown E (c, L, w))
     | Mqtt_ca path \<Rightarrow> Some (inkwell_mqtt_client_set_ca_bundle path c, L, w)
     | Mqtt_subscribe f \<Rightarrow> map_option snd (inkwell_mqtt_client_subscribe E f (c, L, w))
     | Mqtt_clear \<Rightarrow> Some (inkwell_mqtt_client_clear_filters c, L, w)
     | Mqtt_publish topic payload retained \<Rightarrow> map_option snd (inkwell_mqtt_client_publish E topic payload retained (c, L, w))
     | Mqtt_event events \<Rightarrow> mqtt_fd_callback E events (c, L, w)
     | Mqtt_lookup events \<Rightarrow> mqtt_resolve_output E events (c, L, w)
     | Mqtt_tick now \<Rightarrow> inkwell_mqtt_client_tick E now (c, L, w))"

fun mqtt_history :: "'w mqtt_env \<Rightarrow> mqtt_op list \<Rightarrow> 'w mqtt \<Rightarrow> 'w mqtt option" where
  "mqtt_history E [] s = Some s"
| "mqtt_history E (op # ops) s = do { s \<leftarrow> mqtt_step E op s; mqtt_history E ops s }"

text \<open>The clock of a history stays below the time at which deadlines would wrap.\<close>

fun mqtt_timely :: "mqtt_op \<Rightarrow> bool" where
  "mqtt_timely (Mqtt_start _ _ _ _ now) \<longleftrightarrow> now \<le> time_max"
| "mqtt_timely (Mqtt_tick now) \<longleftrightarrow> now \<le> time_max"
| "mqtt_timely _ \<longleftrightarrow> True"

lemma mqtt_init_inv: "mqtt_inv (inkwell_mqtt_client_init has_loop)" "length (mc_in (inkwell_mqtt_client_init has_loop)) < mqtt_packet_max"
  by (simp_all add: inkwell_mqtt_client_init_def mqtt_inv_simps no_tls_client_def no_mqtt_failure_def inkwell_net_failed_def no_failure_def
      mqtt_packet_max_def)

context mqtt_services
begin

lemma step_post:
  assumes "mqtt_step E op (c, L, w) = Some (c', L', w')" "mqtt_inv c" "length (mc_in c) < mqtt_packet_max" "mqtt_timely op"
  shows "mqtt_ok c c'"
proof (cases op)
  case (Mqtt_start config on_message on_state userdata now)
  then show ?thesis using assms start_post by (auto simp: mqtt_step_def)
next
  case Mqtt_stop
  then show ?thesis using assms stop_post by (auto simp: mqtt_step_def)
next
  case Mqtt_shutdown
  then show ?thesis using assms shutdown_post by (auto simp: mqtt_step_def)
next
  case (Mqtt_ca path)
  then have "c' = inkwell_mqtt_client_set_ca_bundle path c" using assms(1) by (simp add: mqtt_step_def)
  moreover have "mqtt_inv (c\<lparr>mc_ca_bundle := b\<rparr>)" for b using assms(2) by (cases "mc_state c") (simp_all add: mqtt_inv_simps)
  ultimately show ?thesis using assms(3) by (simp add: mqtt_ok_def inkwell_mqtt_client_set_ca_bundle_def)
next
  case (Mqtt_subscribe f)
  then show ?thesis using assms subscribe_post mqtt_rely_ok by (auto simp: mqtt_step_def)
next
  case Mqtt_clear
  then show ?thesis using assms mqtt_inv_clear by (auto simp: mqtt_step_def mqtt_ok_def inkwell_mqtt_client_clear_filters_def)
next
  case (Mqtt_publish topic payload retained)
  then show ?thesis using assms publish_post mqtt_rely_ok by (auto simp: mqtt_step_def)
next
  case (Mqtt_event events)
  then show ?thesis using assms fd_callback_post by (auto simp: mqtt_step_def)
next
  case (Mqtt_lookup events)
  then show ?thesis using assms resolve_output_post by (auto simp: mqtt_step_def)
next
  case (Mqtt_tick now)
  then show ?thesis using assms tick_post by (auto simp: mqtt_step_def)
qed

lemma history_post:
  "mqtt_history E ops (c, L, w) = Some (c', L', w') \<Longrightarrow> list_all mqtt_timely ops \<Longrightarrow> mqtt_inv c \<Longrightarrow> length (mc_in c) < mqtt_packet_max \<Longrightarrow>
   mqtt_inv c' \<and> length (mc_in c') < mqtt_packet_max"
proof (induction ops arbitrary: c L w)
  case (Cons op ops)
  obtain c1 L1 w1 where s: "mqtt_step E op (c, L, w) = Some (c1, L1, w1)" and r: "mqtt_history E ops (c1, L1, w1) = Some (c', L', w')"
    using Cons.prems(1) by (auto simp: bind_eq_Some_conv)
  have "mqtt_ok c c1" using step_post [OF s] Cons.prems by simp
  then show ?case using Cons.IH [OF r] Cons.prems(2) by (simp add: mqtt_ok_def)
qed simp

end

section \<open>An application that only watches\<close>

definition watches :: "'w mqtt_env \<Rightarrow> bool" where
  "watches E \<longleftrightarrow> (\<forall>f u st c L w. \<exists>L' w'. me_on_state E f u st (c, L, w) = Some (c, L', w'))"

lemma backoff_delay_bounds: "5000 \<le> mqtt_backoff_delay n" "mqtt_backoff_delay n \<le> 300000"
proof -
  define shift where "shift = (if 1 < n then (if mqtt_backoff_shift_max < n - 1 then mqtt_backoff_shift_max else n - 1) else 0)"
  have "shift \<le> 6" by (auto simp: shift_def mqtt_backoff_shift_max_def)
  then have "unat shift \<le> 6" by (simp add: word_le_nat_alt)
  then have "unat shift \<in> {0, 1, 2, 3, 4, 5, 6}" by auto
  then have b: "5000 \<le> push_bit (unat shift) (5000 :: u64)" by (auto simp: push_bit_eq_mult)
  have d: "mqtt_backoff_delay n = (if 300000 < push_bit (unat shift) (5000 :: u64) then 300000 else push_bit (unat shift) 5000)"
    by (simp add: mqtt_backoff_delay_def shift_def mqtt_backoff_base_ms_def mqtt_backoff_max_ms_def Let_def)
  show "5000 \<le> mqtt_backoff_delay n" "mqtt_backoff_delay n \<le> 300000" using b by (auto simp: d)
qed

text \<open>When a client next has to be looked at, in the states that wait for a time.\<close>

definition mqtt_due :: "mqtt_client \<Rightarrow> u64" where
  "mqtt_due c = (if mc_state c = CLIENT_WAITING then mc_retry_at_ms c else mc_deadline_ms c)"

text \<open>A client that waits for something later than now.\<close>

definition mqtt_moved_on :: "u64 \<Rightarrow> mqtt_client \<Rightarrow> bool" where
  "mqtt_moved_on now c \<longleftrightarrow> mc_state c \<in> {CLIENT_RESOLVING, CLIENT_CONNECTING, CLIENT_WAITING}
     \<and> (mc_state c \<noteq> CLIENT_RESOLVING \<longrightarrow> now < mqtt_due c \<and> mqtt_due c \<le> now + 300000)
     \<and> (mc_state c = CLIENT_WAITING \<longrightarrow> mc_socket c = socket_invalid)"

lemma later:
  assumes "now \<le> time_max" "0 < d" "d \<le> 300000"
  shows "now < (now :: u64) + d" "now + d \<le> now + 300000"
proof -
  have n: "unat now + 300000 < 2 ^ 64" "unat d \<le> 300000" "0 < unat d" using assms by (simp_all add: word_le_nat_alt word_less_nat_alt time_max_def)
  then have "unat (now + d) = unat now + unat d" "unat (now + 300000) = unat now + 300000" by (simp_all add: unat_word_ariths)
  then show "now < now + d" "now + d \<le> now + 300000" using n by (simp_all add: word_less_nat_alt word_le_nat_alt)
qed

definition moves_on :: "u64 \<Rightarrow> 'w mqtt option \<Rightarrow> bool" where
  "moves_on now r \<longleftrightarrow> (case r of None \<Rightarrow> False | Some (c, _) \<Rightarrow> mqtt_moved_on now c)"

lemma moves_on_Some: "moves_on now (Some (c, s)) \<longleftrightarrow> mqtt_moved_on now c"
  by (simp add: moves_on_def)

text \<open>A change of state that is watched ends, with the client as it was but for the state.\<close>

lemma watched_set_state:
  assumes "watches E"
  shows "moves_on now (do { (_, s) \<leftarrow> mqtt_set_state E st (c, L, w); Some s }) \<longleftrightarrow> mqtt_moved_on now (c\<lparr>mc_state := st\<rparr>)"
    "mc_state (fst (the (do { (_, s) \<leftarrow> mqtt_set_state E st (c, L, w); Some s }))) = st"
proof -
  have "\<exists>same L' w'. mqtt_set_state E st (c, L, w) = Some (same, c\<lparr>mc_state := st\<rparr>, L', w')"
  proof (cases "mc_on_state c")
    case (Some f)
    obtain L' w' where "me_on_state E f (mc_userdata c) st (c\<lparr>mc_state := st\<rparr>, L, w) = Some (c\<lparr>mc_state := st\<rparr>, L', w')"
      using assms unfolding watches_def by blast
    then show ?thesis using Some by (auto simp: mqtt_set_state_def)
  qed (auto simp: mqtt_set_state_def)
  then show "moves_on now (do { (_, s) \<leftarrow> mqtt_set_state E st (c, L, w); Some s }) \<longleftrightarrow> mqtt_moved_on now (c\<lparr>mc_state := st\<rparr>)"
    "mc_state (fst (the (do { (_, s) \<leftarrow> mqtt_set_state E st (c, L, w); Some s }))) = st"
    by (auto simp: moves_on_def)
qed

lemma backoff_later:
  assumes "now \<le> time_max"
  shows "now < now + mqtt_backoff_delay n" "now + mqtt_backoff_delay n \<le> now + 300000"
proof -
  have "0 < mqtt_backoff_delay n" using backoff_delay_bounds(1) [of n] by (auto simp: word_gt_0)
  then show "now < now + mqtt_backoff_delay n" "now + mqtt_backoff_delay n \<le> now + 300000"
    using later [OF assms _ backoff_delay_bounds(2)] by simp_all
qed

lemma watched_back_off:
  assumes "watches E" "mc_now_ms c = now" "now \<le> time_max"
  shows "moves_on now (mqtt_back_off E (c, L, w)) \<and> mc_state (fst (the (mqtt_back_off E (c, L, w)))) = CLIENT_WAITING"
  using assms(1,2) backoff_later [OF assms(3)]
  by (simp add: mqtt_back_off_def mqtt_close_def split_beta Let_def watched_set_state mqtt_moved_on_def mqtt_due_def)

lemma watched_fail_net:
  assumes "watches E" "mc_now_ms c = now" "now \<le> time_max"
  shows "moves_on now (mqtt_fail_net E reason detail (c, L, w)) \<and> mc_state (fst (the (mqtt_fail_net E reason detail (c, L, w)))) = CLIENT_WAITING"
  using watched_back_off [OF assms(1) _ assms(3)] assms(2) by (simp add: mqtt_fail_net_def Let_def)

lemma watched_open:
  assumes "watches E" "mc_now_ms c = now" "now \<le> time_max"
  shows "moves_on now (mqtt_open E address (c, L, w))"
proof -
  have "mqtt_moved_on now (d\<lparr>mc_deadline_ms := now + mqtt_connect_timeout_ms, mc_state := CLIENT_CONNECTING\<rparr>)" for d
    using later [OF assms(3), of mqtt_connect_timeout_ms] by (simp add: mqtt_moved_on_def mqtt_due_def mqtt_connect_timeout_ms_def)
  then show ?thesis
    using watched_fail_net [OF assms(1) _ assms(3)] assms(1,2)
    by (simp add: mqtt_open_def Let_def watched_set_state moves_on_Some split: prod.split sum.split)
qed

lemma watched_attempt:
  assumes "watches E" "mc_now_ms c = now" "now \<le> time_max"
  shows "moves_on now (mqtt_attempt E (c, L, w))"
proof -
  have "mqtt_moved_on now (d\<lparr>mc_deadline_ms := 0, mc_state := CLIENT_RESOLVING\<rparr>)" for d by (simp add: mqtt_moved_on_def)
  then show ?thesis
    using watched_fail_net [OF assms(1) _ assms(3)] watched_open [OF assms(1) _ assms(3)] assms(1,2)
    by (simp add: mqtt_attempt_def Let_def watched_set_state moves_on_Some split: prod.split sum.split option.split)
qed

lemma watched_tick:
  assumes E: "watches E" and now: "now \<le> time_max" and c: "mc_state c \<in> {CLIENT_RESOLVING, CLIENT_CONNECTING, CLIENT_SECURING, CLIENT_GREETING, CLIENT_WAITING}"
    and due: "mc_state c \<noteq> CLIENT_RESOLVING \<Longrightarrow> mqtt_due c \<le> now" "mc_state c \<notin> {CLIENT_RESOLVING, CLIENT_WAITING} \<Longrightarrow> mc_deadline_ms c \<noteq> 0"
    and tick: "r_tick (me_resolver E) (mc_resolve c) L w = Some (None, rs, L1, w1)"
    and over: "r_tick_deadline (me_resolver E) rs L1 now w1 = (over, rs', L2, w2)"
    and res: "(mc_state c = CLIENT_RESOLVING) = (over \<noteq> None)" "\<And>r. over = Some r \<Longrightarrow> rr_outcome r \<noteq> RESOLVE_OK"
  shows "moves_on now (inkwell_mqtt_client_tick E now (c, L, w))"
proof (cases "mc_state c = CLIENT_RESOLVING")
  case True
  then obtain r where r: "over = Some r" "rr_outcome r \<noteq> RESOLVE_OK" using res by auto
  let ?f = "mqtt_fail_net E (inkwell_net_reason_from_resolve (rr_outcome r)) (rr_gai_error r) (c\<lparr>mc_now_ms := now, mc_resolve := rs'\<rparr>, L2, w2)"
  have f: "moves_on now ?f" "mc_state (fst (the ?f)) = CLIENT_WAITING" using watched_fail_net [OF E _ now] by simp_all
  obtain c' L' w' where c': "?f = Some (c', L', w')" using f(1) by (cases ?f) (auto simp: moves_on_def)
  have "mqtt_resolve_tick E now (c\<lparr>mc_now_ms := now\<rparr>, L, w) = Some (c', L', w')"
    using tick over r True c' by (simp add: mqtt_resolve_tick_def mqtt_resolved_def mqtt_on_resolved_def)
  moreover have "mc_state c' = CLIENT_WAITING" "mqtt_moved_on now c'" using f c' by (simp_all add: moves_on_Some)
  moreover from this have "\<not> mc_retry_at_ms c' \<le> now" by (auto simp: mqtt_moved_on_def mqtt_due_def not_le)
  ultimately show ?thesis by (simp add: inkwell_mqtt_client_tick_def moves_on_Some)
next
  case False
  then have "mqtt_resolve_tick E now (c\<lparr>mc_now_ms := now\<rparr>, L, w) = Some (c\<lparr>mc_now_ms := now, mc_resolve := rs'\<rparr>, L2, w2)"
    using tick over res by (simp add: mqtt_resolve_tick_def mqtt_resolved_def)
  moreover have "moves_on now (mqtt_attempt E (c\<lparr>mc_now_ms := now, mc_resolve := rs'\<rparr>, L2, w2))"
    "moves_on now (mqtt_fail_net E NET_TIMED_OUT 0 (c\<lparr>mc_now_ms := now, mc_resolve := rs'\<rparr>, L2, w2))"
    using watched_attempt [OF E _ now] watched_fail_net [OF E _ now] by simp_all
  moreover have "mc_state c \<noteq> CLIENT_OFF" using c by auto
  moreover have "mc_state c = CLIENT_WAITING \<Longrightarrow> mc_retry_at_ms c \<le> now"
    "mc_state c \<noteq> CLIENT_WAITING \<Longrightarrow> mc_deadline_ms c \<noteq> 0 \<and> mc_deadline_ms c \<le> now"
    using due False by (auto simp: mqtt_due_def)
  ultimately show ?thesis by (cases "mc_state c = CLIENT_WAITING") (simp_all add: inkwell_mqtt_client_tick_def)
qed

section \<open>A broker with a script\<close>

text \<open>The pieces the broker will send, the bytes it was sent, and the messages and states the application saw.\<close>

record calm_world =
  cw_pieces :: "bytes list"
  cw_sent :: bytes
  cw_messages :: "(bytes \<times> bytes) list"
  cw_states :: "mqtt_client_state list"

definition calm_host :: "calm_world host" where
  "calm_host = \<lparr>
     h_now = (\<lambda>w. (0, w)), h_read = (\<lambda>fd n w. (Inl EAGAIN, w)), h_write = (\<lambda>fd bs w. (Inl EAGAIN, w)),
     h_recv = (\<lambda>fd n w. case cw_pieces w of
                 [] \<Rightarrow> (Inl EAGAIN, w)
               | p # ps \<Rightarrow> (Inr (take n p), w\<lparr>cw_pieces := (if length p \<le> n then ps else drop n p # ps)\<rparr>)),
     h_send = (\<lambda>fd bs w. (Inr (length bs), w\<lparr>cw_sent := cw_sent w @ bs\<rparr>)),
     h_close = (\<lambda>fd w. (Inr (), w)),
     h_eventfd = (\<lambda>w. (Inl ENOSYS, w)), h_epoll_create = (\<lambda>w. (Inl ENOSYS, w)),
     h_epoll_ctl = (\<lambda>p op fd ev w. (Inr (), w)), h_epoll_wait = (\<lambda>p n t w. (Inr [], w)),
     h_kqueue = (\<lambda>w. (Inl ENOSYS, w)), h_kevent_change = (\<lambda>p fd filt en i w. (Inl ENOSYS, w)), h_kevent_wait = (\<lambda>p n t w. (Inl ENOSYS, w))\<rparr>"

definition calm_address :: bytes where "calm_address = ascii ''10.0.0.1''"

definition calm_net :: "calm_world net_host" where
  "calm_net = \<lparr>
     n_socket = (\<lambda>domain type protocol w. (Inr 9, w)), n_connect = (\<lambda>fd address w. (Inl EINPROGRESS, w)), n_so_error = (\<lambda>fd w. (Inr None, w)),
     n_setsockopt = (\<lambda>fd level option v w. (Inr (), w)),
     n_pton4 = (\<lambda>host. if host = calm_address then Some [10, 0, 0, 1] else None), n_pton6 = (\<lambda>host. None)\<rparr>"

definition calm_env :: "calm_world mqtt_env" where
  "calm_env = \<lparr>me_host = calm_host, me_backend = epoll_backend calm_host, me_net = calm_net, me_resolver = no_resolver_ops, me_tls = no_tls_ops,
     me_on_state = (\<lambda>f u st (c, L, w). Some (c, L, w\<lparr>cw_states := cw_states w @ [st]\<rparr>)),
     me_on_message = (\<lambda>f u topic payload (c, L, w). Some (c, L, w\<lparr>cw_messages := cw_messages w @ [(topic, payload)]\<rparr>)),
     me_callback = (APP_CALLBACK 2, 0)\<rparr>"

interpretation calm: mqtt_services calm_env
proof unfold_locales
  show "length got \<le> n" if "t_read (me_tls calm_env) t n w = (Inr got, t', w')" for t n w got t' w'
    using that by (simp add: calm_env_def no_tls_ops_def)
  show "k \<le> length data" if "t_write (me_tls calm_env) t data w = (Inr k, t', w')" for t data w k t' w'
    using that by (simp add: calm_env_def no_tls_ops_def)
qed (auto simp: calm_env_def calm_host_def no_tls_ops_def mqtt_rely_refl split: list.splits if_splits)

section \<open>A client that gets connected\<close>

definition calm_config :: mqtt_client_config where
  "calm_config = \<lparr>cfg_address = calm_address, cfg_username = [], cfg_password = [], cfg_client_id = [0x61], cfg_tls_enabled = False\<rparr>"
definition calm_start :: "bytes list \<Rightarrow> calm_world" where
  "calm_start ps = \<lparr>cw_pieces = ps, cw_sent = [], cw_messages = [], cw_states = []\<rparr>"

lemma calm_target: "inkwell_mqtt_target_split (Some calm_address) mqtt_address_max = Inr (calm_address, 0)"
  by code_simp

lemma calm_copy: "inkwell_str_copy mqtt_address_max (Some calm_address) = (True, Some calm_address)"
  by code_simp

lemma calm_ascii: "calm_address \<noteq> []" by code_simp+

lemma calm_simps:
  "me_host calm_env = calm_host" "me_backend calm_env = epoll_backend calm_host" "me_net calm_env = calm_net" "me_resolver calm_env = no_resolver_ops"
  "me_tls calm_env = no_tls_ops" "me_on_state calm_env f u st (c, L, w) = Some (c, L, w\<lparr>cw_states := cw_states w @ [st]\<rparr>)"
  "me_on_message calm_env f u topic payload (c, L, w) = Some (c, L, w\<lparr>cw_messages := cw_messages w @ [(topic, payload)]\<rparr>)"
  "me_callback calm_env = (APP_CALLBACK 2, 0)"
  by (simp_all add: calm_env_def)

text \<open>The client after its start, with its socket open.\<close>

definition calm_joining :: mqtt_client where
  "calm_joining = (inkwell_mqtt_client_init True)\<lparr>mc_generation := 1, mc_tls := no_tls_client\<lparr>tls_socket := socket_invalid\<rparr>, mc_config := calm_config, mc_host := calm_address,
     mc_port := 1883, mc_on_message := Some 0, mc_on_state := Some 0, mc_now_ms := 1000, mc_filters := [[0x74]],
     mc_state := CLIENT_CONNECTING, mc_socket := 9, mc_token := 9, mc_want_write := True, mc_deadline_ms := 11000\<rparr>"

lemma calm_connecting:
  "\<exists>L. mqtt_history calm_env [Mqtt_subscribe (Some [0x74]), Mqtt_start (Some calm_config) (Some 0) (Some 0) 0 1000] (inkwell_mqtt_client_init True, zero_loop, calm_start ps)
     = Some (calm_joining, L, (calm_start ps)\<lparr>cw_states := [CLIENT_CONNECTING]\<rparr>)"
  by (simp add: mqtt_step_def inkwell_mqtt_client_subscribe_def inkwell_mqtt_client_start_def mqtt_pump_subscribes.simps inkwell_mqtt_client_init_def
    mqtt_filter_max_def mqtt_filters_max_def calm_config_def calm_ascii calm_target calm_copy mqtt_close_def no_resolver_ops_def no_tls_ops_def
    mqtt_attempt_def inkwell_socket_parse_literal_def mqtt_open_def inkwell_socket_open_def inkwell_fd_socket_def calm_simps calm_net_def
    inkwell_socket_set_option_def inkwell_loop_watch_socket_def inkwell_loop_add_fd_def int_max_def inkwell_socket_connect_def socket_invalid_def zero_loop_free
    epoll_backend_def backend_ctl_def calm_host_def mqtt_set_state_def calm_joining_def calm_start_def mqtt_connect_timeout_ms_def mqtt_port_def Let_def
    be16_bytes_def socket_fd_def no_tls_client_def)








section \<open>Properties\<close>



text \<open>
  C5. A client is never parked. A tick that comes when the wait of a client is over (its deadline while it connects, secures or greets, its
  retry while it waits, the deadline of its lookup while it resolves) returns, and leaves a client that
  either resolves or waits for a time after now and within five minutes, without a socket unless it is connecting, when the application only watches its states.
\<close>

theorem mqtt_never_parked:
  assumes "watches E" "now \<le> time_max" "mqtt_inv c" "mc_state c \<notin> {CLIENT_OFF, CLIENT_READY}"
    and "mc_state c \<noteq> CLIENT_RESOLVING \<Longrightarrow> mqtt_due c \<le> now"
    and "r_tick (me_resolver E) (mc_resolve c) L w = Some (None, rs, L1, w1)" "r_tick_deadline (me_resolver E) rs L1 now w1 = (over, rs', L2, w2)"
    and "(mc_state c = CLIENT_RESOLVING) = (over \<noteq> None)" "\<And>r. over = Some r \<Longrightarrow> rr_outcome r \<noteq> RESOLVE_OK"
  shows "\<exists>c' L' w'. inkwell_mqtt_client_tick E now (c, L, w) = Some (c', L', w')
     \<and> mc_state c' \<in> {CLIENT_RESOLVING, CLIENT_CONNECTING, CLIENT_WAITING}
     \<and> (mc_state c' = CLIENT_RESOLVING \<or> now < mqtt_due c' \<and> mqtt_due c' \<le> now + 300000)
     \<and> (mc_state c' = CLIENT_WAITING \<longrightarrow> mc_socket c' = socket_invalid)"
proof -
  have "mc_state c \<in> {CLIENT_RESOLVING, CLIENT_CONNECTING, CLIENT_SECURING, CLIENT_GREETING, CLIENT_WAITING}"
    "mc_state c \<notin> {CLIENT_RESOLVING, CLIENT_WAITING} \<Longrightarrow> mc_deadline_ms c \<noteq> 0"
    using assms(3,4) by (cases "mc_state c"; auto simp: mqtt_inv_def)+
  then have "moves_on now (inkwell_mqtt_client_tick E now (c, L, w))" using watched_tick [OF assms(1,2) _ assms(5) _ assms(6-9)] by blast
  then show ?thesis by (auto simp: moves_on_def mqtt_moved_on_def split: option.splits)
qed

theorem mqtt_never_parked_witness:
  "\<exists>c' L' w'. inkwell_mqtt_client_tick calm_env 11000 (calm_joining, zero_loop, calm_start []) = Some (c', L', w')
     \<and> mc_state c' \<in> {CLIENT_RESOLVING, CLIENT_CONNECTING, CLIENT_WAITING}
     \<and> (mc_state c' = CLIENT_RESOLVING \<or> 11000 < mqtt_due c' \<and> mqtt_due c' \<le> 11000 + 300000)
     \<and> (mc_state c' = CLIENT_WAITING \<longrightarrow> mc_socket c' = socket_invalid)"
proof (rule mqtt_never_parked [where over = None])
  obtain L where h: "mqtt_history calm_env [Mqtt_subscribe (Some [0x74]), Mqtt_start (Some calm_config) (Some 0) (Some 0) 0 1000]
        (inkwell_mqtt_client_init True, zero_loop, calm_start []) = Some (calm_joining, L, (calm_start [])\<lparr>cw_states := [CLIENT_CONNECTING]\<rparr>)"
    using calm_connecting by blast
  show "mqtt_inv calm_joining" using calm.history_post [OF h _ mqtt_init_inv] by (simp add: time_max_def)
  show "watches calm_env" by (simp add: watches_def calm_simps)
qed (simp_all add: time_max_def calm_joining_def mqtt_due_def calm_simps no_resolver_ops_def)

end
