(* ===== verification/Spec2Isabelle.thy ===== *)
theory Spec2Isabelle
  imports Text Base64 Version Sha256 Md5 Mqtt_Codec Json_Doc Http_Message Esp_Rom Uf2 Zip Loop_Run Stream_Session Record_File Mqtt_Run
begin

text \<open>
  A verification of inkwell, a single-threaded C runtime for small programs that talk to devices and networks.

  \<^bold>\<open>The program.\<close> Four layers, each using those before it. \<open>src/base\<close> holds text, versions, files,
  descriptors and the log; \<open>src/codec\<close> the formats (Base64, SHA-256, MD5, JSON, HTTP, MQTT packets, zip, UF2
  and the ESP32 bootloader's protocol), which are pure functions of bytes; \<open>src/runtime\<close> the event loop, its wake
  descriptor, timers, signals and crash reports; \<open>src/net\<close> what runs on the loop: byte streams, a resolver, a
  TCP connector, TLS sessions, HTTP fetches and an MQTT client. \<open>src/ble\<close> and \<open>src/io\<close> drive Bluetooth, serial
  ports and USB storage through the operating system.

  \<^bold>\<open>Conventions.\<close> A byte is an \<open>8 word\<close> and a buffer a list of bytes; an integer of the wire or of a fixed-width
  field is a word of that width, with the wrap-around of C; a \<open>size_t\<close> that counts memory is a \<open>nat\<close>. A C string
  is the list of its bytes before the NUL; a pointer that a caller may pass as NULL is an option. A function that
  returns a negative errno is a value of \<open>errno + 'a\<close>. Fixed tables and constants keep the source's names in
  lower case. A read outside a buffer, where the code relies on a check to prevent it, is an explicit \<open>None\<close>.
  Loops are recursive functions with a termination proof, except those that only the kernel can end (a write
  that is interrupted, a loop that runs until it is stopped): these are \<open>partial_function (option)\<close> and \<open>None\<close>
  is not returning; properties that say such a call returns are proved as \<open>= Some\<close>. No fuel is used anywhere.

  \<^bold>\<open>Parameters.\<close> System calls are the fields of the record \<open>host\<close>, functions of the outside world, and what a
  proof needs of the kernel is an assumption of a locale: \<open>epoll_kernel\<close>, \<open>kqueue_kernel\<close>, \<open>epoll_time\<close>,
  \<open>stream_host\<close>, \<open>stream_source\<close>, \<open>file_kernel\<close>, \<open>resolve_kernel\<close>, \<open>resolve_pipe\<close>. Each is interpreted on an executable host
  (\<open>ref_host\<close>, \<open>pipe_host\<close>, \<open>ref_fs\<close>, \<open>script_env\<close>), which shows that the assumptions can hold and carries the witnesses.
  Mbed TLS is the record \<open>mbed\<close> with the laws \<open>mbed_library\<close> and \<open>mbed_counts\<close> (\<open>ref_mbed\<close>). The resolver and the TLS of a build are
  the records \<open>resolver_ops\<close> and \<open>tls_ops\<close>; \<open>tls_service\<close> is what a client relies on of a session, and both builds provide it.
  Code of the application behind a callback is a parameter too: the MQTT client allows any callback that keeps \<open>mqtt_rely\<close>, which calls of the client do.

  \<^bold>\<open>Theories.\<close>
  \<^item> \<open>Inkwell_Prelude\<close>: the types, reads at an offset, words as arithmetic, little-endian integers, copies into a
    bounded buffer; \<open>Inkwell_Decimal\<close>: decimal numerals.
  \<^item> \<open>Text\<close> (\<open>base/text.c\<close>): UTF-8. The sequence test accepts exactly RFC 3629; decoding inverts encoding;
    truncation never splits a character; the sanitiser's output is valid and clean.
  \<^item> \<open>Version\<close> (\<open>base/version.c\<close>): the comparison is a total preorder and is SemVer precedence on printed
    versions below the cap of the parser.
  \<^item> \<open>Base64\<close> (\<open>codec/base64.c\<close>): round trip for both alphabets and the texts the decoder accepts.
  \<^item> \<open>Block_Stream\<close>: the interfaces \<open>block_absorb\<close> and \<open>block_stream\<close> of a digest that buffers partial blocks;
    \<open>Sha256\<close> (\<open>codec/sha256.c\<close>) and \<open>Md5\<close> (\<open>codec/md5.c\<close>) provide them, and compute the digests of FIPS 180-4 and
    RFC 1321 however the message is cut.
  \<^item> \<open>Mqtt_Codec\<close> (\<open>codec/mqtt.c\<close>): packets frame themselves, publish round-trips, a broker reads back a connect,
    decoders stay inside their input.
  \<^item> \<open>Json\<close> and \<open>Json_Doc\<close> (\<open>codec/json.c\<close>): the pull reader, and printed documents as its specification: strings,
    numbers, skipping a value, finding a member.
  \<^item> \<open>Piecewise\<close>: the interface \<open>piecewise_reader\<close> of a parser fed in pieces; \<open>Http_Url\<close>, \<open>Http_Response\<close> and
    \<open>Http_Message\<close> (\<open>codec/http.c\<close>): URLs, references, requests, and responses in all framings, read the same in
    any pieces.
  \<^item> \<open>Esp_Rom\<close> (\<open>codec/esp_image.c\<close>, \<open>codec/esp_rom.c\<close>): requests and responses of the bootloader, and that the
    reader recovers after noise.
  \<^item> \<open>Uf2\<close> (\<open>codec/uf2.c\<close>): the verdict is right. \<open>Zip\<close> (\<open>codec/zip.c\<close>): extraction from printed archives, and no read
    outside the window.
  \<^item> \<open>Host\<close> (\<open>base/fd.c\<close>): system calls and the layer of descriptors and sockets.
  \<^item> \<open>Loop\<close> and \<open>Loop_Run\<close> (\<open>runtime/loop.c\<close>, \<open>runtime/wake.c\<close>): the table of sources and its two backends behind
    the interface \<open>poll_backend\<close>; the table and the kernel's poll set stay in step, the table refines a map, a
    batch calls each source once, a run with a timeout returns.
  \<^item> \<open>Stream_IO\<close> and \<open>Stream_Session\<close> (\<open>net/stream.c\<close>): the ring of queued packets; what is accepted is written in
    order and whole, what is dropped is reported, what arrives is delivered.
  \<^item> this theory: the check of an ESP32 after a flash, across \<open>Esp_Rom\<close> and \<open>Md5\<close>.
  \<^item> \<open>Record_File\<close> (\<open>base/record_file.c\<close>): key/value lines on disk over the calls of \<open>file_host\<close>; records are read back as
    written, and replacing a file is all or nothing.
  \<^item> \<open>Net_Reason\<close> (\<open>net/reason.c\<close>, \<open>net/mqtt_address.c\<close>): reasons of a failed link and the splitting of a broker's
    address; \<open>Net_Services\<close> (\<open>base/fd.c\<close>): sockets, and the two services that a build chooses, as records of functions.
  \<^item> \<open>Tls\<close> (\<open>net/tls.c\<close>, both builds): sessions over the calls of \<open>mbed\<close>; a session that starts verifies its peer, and one that
    does not start holds nothing.
  \<^item> \<open>Resolve\<close> and \<open>Resolve_Run\<close> (\<open>net/resolve.c\<close>, \<open>net/resolve_unavailable.c\<close>): lookups in a child process over the calls of
    \<open>proc_host\<close>; a lookup completes once and leaves nothing behind, and the answer arrives as the child had it.
  \<^item> \<open>Mqtt_Client\<close> (\<open>net/mqtt.c\<close>): the client, function by function; \<open>Mqtt_Inv\<close>: its invariant and what it relies on of its
    callbacks and services (\<open>mqtt_services\<close>); \<open>Mqtt_Session\<close>: every operation keeps it; \<open>Mqtt_Run\<close>: histories, and that a client is
    never parked.

  \<^bold>\<open>Not modelled.\<close>
  \<^item> \<open>net/resolve_apple.c\<close>, \<open>net/resolve_windows.c\<close>: completions on threads of the system.
  \<^item> \<open>net/tcp.c\<close>, \<open>net/fetch.c\<close>, \<open>net/zip_fetch.c\<close>: connectors and transfers on top of the loop.
  \<^item> \<open>codec/inflate.c\<close>, \<open>codec/png.c\<close>, \<open>codec/wuffs.c\<close>: calls into the Wuffs library, which is not part of the sources.
  \<^item> \<open>runtime/timer.c\<close>, \<open>runtime/signals.c\<close>, \<open>runtime/crash*.c\<close>, \<open>base/log.c\<close>, \<open>base/env.c\<close>, \<open>base/file.c\<close>, \<open>base/time.c\<close>,
    \<open>base/wipe.c\<close>: thin layers over the system with little logic of their own.
  \<^item> \<open>src/ble\<close>, \<open>src/io\<close>: drivers whose behaviour is that of D-Bus, CoreBluetooth, WinRT, termios and USB mass storage.
  \<^item> the Windows and macOS halves of the modelled files, except for the kqueue backend of the loop; log lines.
\<close>

section \<open>A flash, verified\<close>

lemma hex_nibble_digit: "n < 16 \<Longrightarrow> hex_nibble (md5_hex_digits ! n) = Some (of_nat n)"
proof -
  assume "n < 16"
  then have "n \<in> set [0..<16]" by simp
  moreover have "list_all (\<lambda>n. hex_nibble (md5_hex_digits ! n) = Some (of_nat n)) [0..<16]" by code_simp
  ultimately show ?thesis by (simp only: list_all_iff)
qed

lemma nibbles: "push_bit 4 (of_nat (unat (drop_bit 4 d))) OR of_nat (unat (d AND 0x0F)) = (d :: u8)"
proof -
  have "push_bit 4 (drop_bit 4 d) OR (d AND mask 4) = d"
    by (rule bit_eqI) (auto simp: bit_or_iff bit_push_bit_iff bit_drop_bit_eq bit_and_iff bit_mask_iff)
  moreover have "(mask 4 :: u8) = 0x0F" by (simp add: mask_eq_exp_minus_1)
  ultimately show ?thesis by simp
qed

definition hex_of :: "bytes \<Rightarrow> bytes" where
  "hex_of ds = concat (map (\<lambda>d. [md5_hex_digits ! unat (drop_bit 4 d), md5_hex_digits ! unat (d AND 0x0F)]) ds)"

lemma md5_hex_eq: "length ds = 16 \<Longrightarrow> inkwell_md5_hex ds 33 = Some (hex_of ds)"
proof -
  assume "length ds = 16"
  then have map: "map (\<lambda>i. f (ds ! i)) [0..<16] = map f ds" for f :: "u8 \<Rightarrow> bytes"
    by (metis map_nth map_map comp_apply map_cong)
  show ?thesis
    using map [of "\<lambda>d. [md5_hex_digits ! unat (drop_bit 4 d), md5_hex_digits ! unat (d AND 0x0F)]"]
    by (simp add: inkwell_md5_hex_def hex_of_def)
qed

lemma md5_loop_hex: "length ds = length digest \<Longrightarrow> esp_rom_md5_loop (hex_of ds @ rest) digest \<longleftrightarrow> ds = digest"
proof (induction ds digest rule: list_induct2)
  case (Cons d ds e digest)
  have "unat (drop_bit 4 d) < 16" "unat (d AND 0x0F) < 16"
    using unat_u8_lt [of d] by (simp_all add: unat_drop_bit unat_and_low less_mult_imp_div_less)
  note n = this [THEN hex_nibble_digit]
  have "hex_of (d # ds) = [md5_hex_digits ! unat (drop_bit 4 d), md5_hex_digits ! unat (d AND 0x0F)] @ hex_of ds" by (simp add: hex_of_def)
  then show ?case using n nibbles [of d] Cons.IH by simp
qed (simp add: hex_of_def)

lemma length_hex_of [simp]: "length (hex_of ds) = 2 * length ds"
  by (induction ds) (simp_all add: hex_of_def)

text \<open>
  C18. The check after a flash. The ROM answers SPI_FLASH_MD5 with the hex spelling of the MD5 of what it reads back from the flash; the
  answer arrives framed and cut anywhere. The reader delivers one response, and \<open>inkwell_esp_rom_md5_matches\<close> accepts it against the
  digest computed while the blocks were sent exactly when the MD5 of the flash contents is the MD5 of the blocks.
\<close>

theorem flash_check_exact:
  assumes ctx: "length (md5_buf ctx) = 64" and hex: "inkwell_md5_hex (rfc1321_md5 flash) 33 = Some hex"
    and answer: "answer = [0x01, 0x13, 36, 0x00] @ value4 @ hex @ [0, 0, 0, 0]" "length value4 = 4"
    and arrives: "concat pieces = slip_frame answer"
  shows "\<exists>r. drive_pieces inkwell_esp_rom_reader_feed inkwell_esp_rom_reader_reset pieces = ([r], inkwell_esp_rom_reader_reset)
    \<and> (inkwell_esp_rom_md5_matches (Some r) (Some (snd (inkwell_md5_final (foldl inkwell_md5_update (inkwell_md5_init ctx) blocks))))
       \<longleftrightarrow> rfc1321_md5 flash = rfc1321_md5 (concat blocks))"
proof -
  have h: "hex = hex_of (rfc1321_md5 flash)" "length hex = 32" using hex md5_hex_eq [of "rfc1321_md5 flash"] by auto
  obtain v0 v1 v2 v3 where v: "value4 = [v0, v1, v2, v3]" using answer(2) by (auto simp: numeral_eq_Suc length_Suc_conv)
  let ?r = "\<lparr>rr_op = 0x13, rr_value = le32 v0 v1 v2 v3, rr_data = hex @ [0, 0, 0, 0], rr_status = 0, rr_error = 0\<rparr>"
  have parse: "esp_rom_parse answer = Some ?r" unfolding answer v using h(2) by (simp add: esp_rom_parse_def le16_def nth_append)
  have "length answer \<le> esp_rom_frame_max" unfolding answer v using h(2) by (simp add: esp_rom_frame_max_def)
  then have "byte_run esp_rom_byte inkwell_esp_rom_reader_reset (concat pieces) = ([?r], inkwell_esp_rom_reader_reset)"
    using esp_run_frame [OF esp_complete_reset] parse arrives by simp
  then have drive: "drive_pieces inkwell_esp_rom_reader_feed inkwell_esp_rom_reader_reset pieces = ([?r], inkwell_esp_rom_reader_reset)"
    using esp.drive_pieces_run [of inkwell_esp_rom_reader_reset pieces] by simp
  show ?thesis
    using drive h md5_loop_hex [of "rfc1321_md5 flash" "rfc1321_md5 (concat blocks)"] md5_stream_digest [OF ctx]
    by (simp add: inkwell_esp_rom_md5_matches_def)
qed

theorem flash_check_exact_witness:
  "let ctx = \<lparr>md5_state = (1, 2, 3, 4), md5_bytes = 7, md5_buf = replicate 64 0xA5, md5_block_len = 9\<rparr>;
       answer = [0x01, 0x13, 36, 0x00] @ [0, 0, 0, 0] @ hex_of (rfc1321_md5 [0xE9, 0x00]) @ [0, 0, 0, 0]
   in \<exists>r. drive_pieces inkwell_esp_rom_reader_feed inkwell_esp_rom_reader_reset [take 9 (slip_frame answer), drop 9 (slip_frame answer)]
        = ([r], inkwell_esp_rom_reader_reset)
      \<and> inkwell_esp_rom_md5_matches (Some r) (Some (snd (inkwell_md5_final (foldl inkwell_md5_update (inkwell_md5_init ctx) [[0xE9], [0x00]]))))"
proof -
  let ?ctx = "\<lparr>md5_state = (1, 2, 3, 4), md5_bytes = 7, md5_buf = replicate 64 0xA5, md5_block_len = 9\<rparr>"
  let ?answer = "[0x01, 0x13, 36, 0x00] @ [0, 0, 0, 0] @ hex_of (rfc1321_md5 [0xE9, 0x00]) @ [0, 0, 0, 0]"
  have "length (md5_buf ?ctx) = 64" "inkwell_md5_hex (rfc1321_md5 [0xE9, 0x00]) 33 = Some (hex_of (rfc1321_md5 [0xE9, 0x00]))"
    by (simp_all add: md5_hex_eq)
  from flash_check_exact [OF this refl, of "[0, 0, 0, 0]" "[take 9 (slip_frame ?answer), drop 9 (slip_frame ?answer)]" "[[0xE9], [0x00]]"]
  show ?thesis unfolding Let_def by auto
qed

end
